(* ===== verification/Prelude.thy ===== *)
theory Prelude
  imports Main "HOL-Library.Word" "HOL-Library.AList"
begin

text \<open>
  Vocabulary shared by every component: the machine types, byte-addressed memory
  with the C routines that copy and fill it, the ways a process can be ended by the code,
  and the generic facts about 64-bit arithmetic and association lists the component
  theories use.
\<close>

unbundle bit_operations_syntax

section \<open>Collections\<close>

named_theorems word_nat \<open>reading 64-bit arithmetic as arithmetic on natural numbers\<close>
named_theorems mem_simps \<open>lookups in memory after a copy or a fill\<close>

section \<open>Machine types\<close>

type_synonym u64 = "64 word"
type_synonym byte = "8 word"
type_synonym addr = u64
type_synonym pid_t = nat

text \<open>
  A process id as \<open>getpid()\<close> reports it to a running process, which is never negative;
  \<open>fork()\<close>, which can also fail, has a result type of its own where it is modelled.
\<close>

text \<open>The byte memory of one address space; every address has some content.\<close>

type_synonym memory = "addr \<Rightarrow> byte"

text \<open>
  How the code ends the calling process: \<open>FATAL\<close> (a failed \<open>REQUIRE\<close>) calls
  \<open>abort()\<close>; \<open>exit(n)\<close> and \<open>_exit(n)\<close> are kept apart because only the
  former runs the exit handlers; a division by zero in the code is \<open>SIGFPE\<close>;
  \<open>bad_alloc\<close> is the exception the \<open>new\<close> operators throw. \<open>Undefined\<close>
  stands for undefined behaviour: memory was overwritten that the write was not meant for.
\<close>

datatype exit_reason = Abort | Exit int | UExit int | SigFpe | BadAlloc | Undefined

section \<open>64-bit arithmetic\<close>

lemma unat_add_no_wrap [word_nat]:
  fixes x y :: u64
  assumes "unat x + unat y < 2 ^ 64"
  shows "unat (x + y) = unat x + unat y"
  using assms by (simp add: unat_word_ariths)

lemma unat_diff_no_wrap [word_nat]:
  fixes x y :: u64
  assumes "unat y \<le> unat x"
  shows "unat (x - y) = unat x - unat y"
  using assms by (simp add: unat_sub word_le_nat_alt)

lemma unat_mult_no_wrap [word_nat]:
  fixes x y :: u64
  assumes "unat x * unat y < 2 ^ 64"
  shows "unat (x * y) = unat x * unat y"
  using assms by (simp add: unat_word_ariths)

lemma unat_lt_2p64 [simp]: "unat (x :: u64) < 2 ^ 64"
  using unsigned_less [of x, where 'a = nat] by simp

lemma unat_lt_2p64_num [simp]: "unat (x :: u64) < 18446744073709551616"
  using unat_lt_2p64 [of x] by simp

lemma unat_minus_1 [simp]: "unat (-1 :: u64) = 2 ^ 64 - 1"
  by (simp add: unsigned_minus_1_eq_mask mask_eq_exp_minus_1)

lemma word_eq_unatI: "unat (x :: u64) = unat y \<Longrightarrow> x = y"
  by (simp add: word_unat_eq_iff)

lemma unat_mod_u64 [word_nat]: "unat ((x :: u64) mod y) = unat x mod unat y"
  by (simp add: unat_mod)

lemma unat_div_u64 [word_nat]: "unat ((x :: u64) div y) = unat x div unat y"
  by (simp add: unat_div)

lemma unat_drop_bit: "unat (drop_bit k (x :: u64)) = unat x div 2 ^ k"
proof -
  have "unat (drop_bit k x) = drop_bit k (unat x)"
    by (simp add: unsigned_drop_bit_eq take_bit_nat_eq_self)
  then show ?thesis by (simp only: drop_bit_eq_div)
qed

lemma unat_push_bit:
  assumes "unat x * 2 ^ k < 2 ^ 64"
  shows "unat (push_bit k (x :: u64)) = unat x * 2 ^ k"
proof -
  have "unat (push_bit k x) = take_bit 64 (push_bit k (unat x))"
    by (simp add: unsigned_push_bit_eq)
  also have "\<dots> = take_bit 64 (unat x * 2 ^ k)" by (simp only: push_bit_eq_mult)
  finally show ?thesis using assms by (simp add: take_bit_nat_eq_self)
qed

lemma and_not_mask: "(x :: u64) AND NOT (mask k) = push_bit k (drop_bit k x)"
  by (rule bit_eqI) (auto simp: bit_simps)

lemma unat_power_2: "k < 64 \<Longrightarrow> unat ((2 :: u64) ^ k) = 2 ^ k"
proof -
  assume "k < 64"
  then have "(2 :: nat) ^ k < 2 ^ 64" by (simp only: power_strict_increasing_iff)
  moreover have "unat ((2 :: u64) ^ k) = unat (of_nat (2 ^ k) :: u64)" by simp
  ultimately show ?thesis by (simp only: unat_of_nat) simp
qed

section \<open>Memory\<close>

text \<open>
  \<open>memcpy(dst, src, n)\<close> on regions that do not overlap (the only use C defines) and
  \<open>memset(dst, c, n)\<close>. The distance \<open>a - dst\<close> is taken modulo \<open>2 ^ 64\<close>, so
  it is below \<open>n\<close> exactly for the \<open>n\<close> addresses from \<open>dst\<close> on.
\<close>

definition memcpy :: "memory \<Rightarrow> addr \<Rightarrow> addr \<Rightarrow> u64 \<Rightarrow> memory" where
  "memcpy m dst src n = (\<lambda>a. if a - dst < n then m (src + (a - dst)) else m a)"

definition memset :: "memory \<Rightarrow> addr \<Rightarrow> byte \<Rightarrow> u64 \<Rightarrow> memory" where
  "memset m dst c n = (\<lambda>a. if a - dst < n then c else m a)"

definition region :: "addr \<Rightarrow> u64 \<Rightarrow> addr set" where
  "region base n = {a. a - base < n}"

lemma in_region_iff [simp]: "a \<in> region base n \<longleftrightarrow> a - base < n"
  by (simp add: region_def)

lemma region_zero [simp]: "region base 0 = {}"
  by (simp add: region_def)

lemma in_region_unat:
  assumes "unat base + unat n \<le> 2 ^ 64"
  shows "a \<in> region base n \<longleftrightarrow> unat base \<le> unat a \<and> unat a < unat base + unat n"
proof (cases "unat base \<le> unat a")
  case True
  then have "unat (a - base) = unat a - unat base" by (simp add: word_nat)
  with True show ?thesis by (auto simp: word_less_nat_alt)
next
  case False
  then have "unat (a - base) = 2 ^ 64 + unat a - unat base"
    by (simp add: unat_sub_if_size word_size)
  with False assms show ?thesis by (auto simp: word_less_nat_alt)
qed

lemma memcpy_in [mem_simps]: "a - dst < n \<Longrightarrow> memcpy m dst src n a = m (src + (a - dst))"
  by (simp add: memcpy_def)

lemma memcpy_out [mem_simps]: "\<not> a - dst < n \<Longrightarrow> memcpy m dst src n a = m a"
  by (simp add: memcpy_def)

lemma memset_in [mem_simps]: "a - dst < n \<Longrightarrow> memset m dst c n a = c"
  by (simp add: memset_def)

lemma memset_out [mem_simps]: "\<not> a - dst < n \<Longrightarrow> memset m dst c n a = m a"
  by (simp add: memset_def)

text \<open>Copying a region away and back restores it, whatever happened to it in between.\<close>

lemma memcpy_back:
  assumes "a - p < n" and "\<And>k. k < n \<Longrightarrow> m' (buf + k) = memcpy m buf p n (buf + k)"
  shows "memcpy m' p buf n a = m a"
  using assms by (simp add: memcpy_def)

section \<open>Results\<close>

text \<open>Sequencing of steps that may end the process.\<close>

definition bind_result :: "'e + 'a \<Rightarrow> ('a \<Rightarrow> 'e + 'b) \<Rightarrow> 'e + 'b" where
  "bind_result r f = (case r of Inl e \<Rightarrow> Inl e | Inr a \<Rightarrow> f a)"

lemma bind_result_simps [simp]:
  "bind_result (Inl e) f = Inl e"
  "bind_result (Inr a) f = f a"
  by (simp_all add: bind_result_def)

lemma bind_result_Inl_const [simp]: "bind_result r (\<lambda>a. Inl e) \<noteq> Inr b"
  by (cases r) simp_all

lemma bind_result_Inr_iff:
  "bind_result r f = Inr b \<longleftrightarrow> (\<exists>a. r = Inr a \<and> f a = Inr b)"
  by (cases r) auto

text \<open>\<open>REQUIRE(cond)\<close>: nothing when the condition holds, else the process aborts.\<close>

definition require :: "bool \<Rightarrow> 'a \<Rightarrow> exit_reason + 'a" where
  "require c a = (if c then Inr a else Inl Abort)"

lemma require_Inr_iff [simp]: "require c a = Inr b \<longleftrightarrow> c \<and> b = a"
  by (auto simp: require_def)

lemma require_Inl_iff [simp]: "require c a = Inl e \<longleftrightarrow> \<not> c \<and> e = Abort"
  by (auto simp: require_def)

end
