(* ===== verification/Util.thy ===== *)
theory Util
  imports Prelude
begin

text \<open>
  The macros of \<open>src/src/util.hh\<close>: rounding to a multiple and the constants of the heap
  layout. The macros are expanded at \<open>size_t\<close> and \<open>uintptr_t\<close> arguments only, so
  they are functions on 64-bit words and wrap like them.
\<close>

definition ROUND_UP :: "u64 \<Rightarrow> u64 \<Rightarrow> u64" where
  "ROUND_UP x y = (if x mod y = 0 then x else x + (y - x mod y))"

definition ROUND_DOWN :: "u64 \<Rightarrow> u64 \<Rightarrow> u64" where
  "ROUND_DOWN x y = (if x mod y = 0 then x else x - x mod y)"

definition PAGE_SIZE :: u64 where
  "PAGE_SIZE = 0x1000"

definition MAX_STACK_SIZE :: u64 where
  "MAX_STACK_SIZE = PAGE_SIZE * 20"

definition HEAP_SIZE :: u64 where
  "HEAP_SIZE = 512 * 1024"

definition NUM_SUBHEAP :: u64 where
  "NUM_SUBHEAP = 16"

definition SUBHEAP_SIZE :: u64 where
  "SUBHEAP_SIZE = HEAP_SIZE div NUM_SUBHEAP"

definition GLOBAL_SIZE :: u64 where
  "GLOBAL_SIZE = 512 * 1024 * 1024"

definition MIN_ALIGNED_SIZE :: u64 where
  "MIN_ALIGNED_SIZE = 16"

lemmas util_consts = PAGE_SIZE_def HEAP_SIZE_def NUM_SUBHEAP_def SUBHEAP_SIZE_def
  MIN_ALIGNED_SIZE_def MAX_STACK_SIZE_def GLOBAL_SIZE_def

lemma SUBHEAP_SIZE_eq [simp]: "SUBHEAP_SIZE = 0x8000"
  by (simp add: util_consts)

section \<open>Rounding as arithmetic on natural numbers\<close>

lemma unat_ROUND_DOWN: "unat (ROUND_DOWN x y) = unat x - unat x mod unat y"
proof (cases "x mod y = 0")
  case True
  then show ?thesis by (simp add: ROUND_DOWN_def unat_mod_u64 [symmetric])
next
  case False
  then show ?thesis by (simp add: ROUND_DOWN_def word_nat mod_less_eq_dividend)
qed

text \<open>The least multiple of \<open>y\<close> that is not below \<open>x\<close>.\<close>

definition next_multiple :: "nat \<Rightarrow> nat \<Rightarrow> nat" where
  "next_multiple x y = (if x mod y = 0 then x else x + (y - x mod y))"

lemma next_multiple_dvd:
  assumes "0 < y"
  shows "y dvd next_multiple x y"
proof (cases "x mod y = 0")
  case True
  then show ?thesis by (auto simp: next_multiple_def)
next
  case False
  have "x mod y \<le> y" using assms by (simp add: less_imp_le)
  then have "x + (y - x mod y) = (x div y) * y + y"
    using div_mult_mod_eq [of x y] by linarith
  with False have "next_multiple x y = (x div y) * y + y"
    by (simp add: next_multiple_def)
  then show ?thesis by simp
qed

lemma next_multiple_ge: "x \<le> next_multiple x y"
  by (simp add: next_multiple_def)

lemma next_multiple_lt: "0 < y \<Longrightarrow> next_multiple x y < x + y"
  by (auto simp: next_multiple_def)

lemma next_multiple_least:
  assumes "y dvd z" and "x \<le> z" and "0 < y"
  shows "next_multiple x y \<le> z"
proof (rule ccontr)
  assume "\<not> next_multiple x y \<le> z"
  then have lt: "z < next_multiple x y" by simp
  moreover have "y dvd next_multiple x y - z"
    using next_multiple_dvd [OF assms(3)] assms(1) by (rule dvd_diff_nat)
  ultimately have "y \<le> next_multiple x y - z" by (auto dest: dvd_imp_le)
  with next_multiple_lt [OF assms(3), of x] assms(2) lt show False by linarith
qed

lemma unat_ROUND_UP:
  assumes "next_multiple (unat x) (unat y) < 2 ^ 64" and "y \<noteq> 0"
  shows "unat (ROUND_UP x y) = next_multiple (unat x) (unat y)"
proof (cases "x mod y = 0")
  case True
  then show ?thesis by (simp add: ROUND_UP_def next_multiple_def unat_mod_u64 [symmetric])
next
  case False
  then have nz: "unat x mod unat y \<noteq> 0"
    by (metis unat_eq_zero unat_mod_u64)
  have "0 < unat y" using assms(2) by (simp add: unat_gt_0)
  then have "unat x mod unat y \<le> unat y" by (simp add: less_imp_le)
  with assms False nz show ?thesis
    by (simp add: ROUND_UP_def next_multiple_def word_nat)
qed

section \<open>Properties\<close>

text \<open>
  Rounding. When the multiple fits 64 bits, \<open>ROUND_UP\<close> is the least multiple of \<open>y\<close>
  that is not below \<open>x\<close>; \<open>ROUND_DOWN\<close> is the greatest multiple that is not above it.
\<close>

lemma rounding_multiples:
  assumes "y \<noteq> 0" and "next_multiple (unat x) (unat y) < 2 ^ 64"
  shows "unat y dvd unat (ROUND_UP x y) \<and> x \<le> ROUND_UP x y
    \<and> unat (ROUND_UP x y) < unat x + unat y
    \<and> unat y dvd unat (ROUND_DOWN x y) \<and> ROUND_DOWN x y \<le> x
    \<and> unat x < unat (ROUND_DOWN x y) + unat y"
proof -
  have pos: "0 < unat y" using assms(1) by (simp add: unat_gt_0)
  note up = unat_ROUND_UP [OF assms(2,1)]
  have "unat x < unat x - unat x mod unat y + unat y"
    using mod_less_divisor [OF pos, of "unat x"] mod_less_eq_dividend [of "unat x" "unat y"] by linarith
  then show ?thesis
    using next_multiple_dvd [OF pos, of "unat x"] next_multiple_ge [of "unat x" "unat y"]
      next_multiple_lt [OF pos, of "unat x"]
    by (simp add: up unat_ROUND_DOWN word_le_nat_alt dvd_minus_mod)
qed

end
