(* ===== verification/Arena.thy ===== *)
theory Arena
  imports Util
begin

text \<open>
  The contract the three allocators of the library share: a bump arena hands out the
  address its pointer holds and advances the pointer by the size rounded up to
  \<open>MIN_ALIGNED_SIZE\<close>. What a client may rely on (blocks of one run do not overlap, stay
  inside the stretch the run consumes and keep the pointer's alignment) is proved once here,
  for any state type, and instantiated by the heap allocator and by the two page allocators.
\<close>

section \<open>Runs of allocations\<close>

text \<open>A client's requests in order; the result lists each block's address and size.\<close>

fun alloc_run :: "('s \<Rightarrow> u64 \<Rightarrow> u64 \<times> 's) \<Rightarrow> u64 list \<Rightarrow> 's \<Rightarrow> (u64 \<times> u64) list \<times> 's" where
  "alloc_run alloc [] s = ([], s)"
| "alloc_run alloc (n # ns) s =
     (let (p, s') = alloc s n; (bs, s'') = alloc_run alloc ns s' in ((p, n) # bs, s''))"

lemma length_alloc_run [simp]: "length (fst (alloc_run alloc ns s)) = length ns"
  by (induction ns arbitrary: s) (auto simp: case_prod_beta)

text \<open>The side condition \<open>fits\<close> of the arena holds at every request of the run.\<close>

fun fits_run :: "('s \<Rightarrow> u64 \<Rightarrow> u64 \<times> 's) \<Rightarrow> ('s \<Rightarrow> u64 \<Rightarrow> bool) \<Rightarrow> u64 list \<Rightarrow> 's \<Rightarrow> bool" where
  "fits_run alloc fits [] s = True"
| "fits_run alloc fits (n # ns) s = (fits s n \<and> fits_run alloc fits ns (snd (alloc s n)))"

definition rounded :: "u64 \<Rightarrow> nat" where
  "rounded n = next_multiple (unat n) 16"

definition rounded_total :: "u64 list \<Rightarrow> nat" where
  "rounded_total ns = sum_list (map rounded ns)"

lemma rounded_total_simps [simp]: "rounded_total [] = 0" "rounded_total (n # ns) = rounded n + rounded_total ns"
  by (simp_all add: rounded_total_def)

lemma rounded_ge: "unat n \<le> rounded n"
  by (simp add: rounded_def next_multiple_ge)

lemma rounded_dvd: "16 dvd rounded n"
  by (simp add: rounded_def next_multiple_dvd)

lemma unat_round_16:
  assumes "rounded n < 2 ^ 64"
  shows "unat (ROUND_UP n MIN_ALIGNED_SIZE) = rounded n"
  using unat_ROUND_UP [of n MIN_ALIGNED_SIZE] assms
  by (simp add: rounded_def util_consts)

text \<open>
  Two blocks are apart when one ends, as natural numbers, at or before the start of the
  other; such blocks share no address.
\<close>

lemma blocks_apart:
  fixes p q m n :: u64
  assumes "unat p + unat m \<le> unat q" and "unat q + unat n \<le> 2 ^ 64"
  shows "region p m \<inter> region q n = {}"
proof -
  have "unat q \<le> 2 ^ 64" by (simp add: less_imp_le)
  with assms show ?thesis by (auto simp: in_region_unat simp del: in_region_iff)
qed

section \<open>The arena interface\<close>

locale arena =
  fixes alloc :: "'s \<Rightarrow> u64 \<Rightarrow> u64 \<times> 's"
    and ptr :: "'s \<Rightarrow> u64"
    and fits :: "'s \<Rightarrow> u64 \<Rightarrow> bool"
  assumes alloc_ptr: "fits s n \<Longrightarrow> fst (alloc s n) = ptr s"
    and alloc_advance: "fits s n \<Longrightarrow> ptr (snd (alloc s n)) = ptr s + ROUND_UP n MIN_ALIGNED_SIZE"
begin

lemma run_blocks:
  assumes "fits_run alloc fits ns s" and "unat (ptr s) + rounded_total ns < 2 ^ 64"
    and "(p, n) \<in> set (fst (alloc_run alloc ns s))"
  shows "unat (ptr s) \<le> unat p \<and> unat p + rounded n \<le> unat (ptr s) + rounded_total ns
    \<and> (16 dvd unat (ptr s) \<longrightarrow> 16 dvd unat p)"
  using assms
proof (induction ns arbitrary: s)
  case Nil
  then show ?case by simp
next
  case (Cons k ns)
  let ?s' = "snd (alloc s k)"
  have fit: "fits s k" and rest: "fits_run alloc fits ns ?s'"
    using Cons.prems(1) by simp_all
  have "unat (ptr ?s') = unat (ptr s) + rounded k"
    using Cons.prems(2) by (simp add: alloc_advance [OF fit] word_nat unat_round_16)
  moreover have "(p, n) = (ptr s, k) \<or> (p, n) \<in> set (fst (alloc_run alloc ns ?s'))"
    using Cons.prems(3) by (auto simp: alloc_ptr [OF fit, symmetric] split: prod.splits)
  ultimately show ?case
    using Cons.IH [OF rest] Cons.prems(2) rounded_dvd [of k] by auto
qed

lemma run_end:
  assumes "fits_run alloc fits ns s" and "unat (ptr s) + rounded_total ns < 2 ^ 64"
  shows "unat (ptr (snd (alloc_run alloc ns s))) = unat (ptr s) + rounded_total ns"
  using assms
proof (induction ns arbitrary: s)
  case Nil
  then show ?case by simp
next
  case (Cons k ns)
  let ?s' = "snd (alloc s k)"
  have "unat (ptr ?s') = unat (ptr s) + rounded k"
    using Cons.prems by (simp add: alloc_advance word_nat unat_round_16)
  with Cons.IH [of ?s'] Cons.prems show ?case
    by (simp add: case_prod_beta)
qed

text \<open>Each block starts where the blocks before it end.\<close>

lemma run_layout:
  assumes "fits_run alloc fits ns s" and "unat (ptr s) + rounded_total ns < 2 ^ 64" and "i < length ns"
  shows "unat (fst (fst (alloc_run alloc ns s) ! i)) = unat (ptr s) + rounded_total (take i ns)"
  using assms
proof (induction ns arbitrary: s i)
  case (Cons k ns)
  let ?s' = "snd (alloc s k)"
  have fit: "fits s k" and rest: "fits_run alloc fits ns ?s'" using Cons.prems(1) by simp_all
  have run: "fst (alloc_run alloc (k # ns) s) = (ptr s, k) # fst (alloc_run alloc ns ?s')"
    by (simp add: alloc_ptr [OF fit, symmetric] case_prod_beta)
  have adv: "unat (ptr ?s') = unat (ptr s) + rounded k"
    using Cons.prems(2) by (simp add: alloc_advance [OF fit] word_nat unat_round_16)
  show ?case using Cons.IH [OF rest] Cons.prems(2,3) adv unfolding run by (cases i) simp_all
qed simp

text \<open>Blocks of one run never overlap.\<close>

lemma run_disjoint:
  assumes "fits_run alloc fits ns s" and "unat (ptr s) + rounded_total ns < 2 ^ 64"
    and "i < j" and "j < length ns"
    and "fst (alloc_run alloc ns s) ! i = (p, m)" and "fst (alloc_run alloc ns s) ! j = (q, n)"
  shows "region p m \<inter> region q n = {}"
  using assms
proof (induction ns arbitrary: s i j)
  case Nil
  then show ?case by simp
next
  case (Cons k ns)
  let ?s' = "snd (alloc s k)"
  have fit: "fits s k" and rest: "fits_run alloc fits ns ?s'"
    using Cons.prems(1) by simp_all
  have run: "fst (alloc_run alloc (k # ns) s) = (ptr s, k) # fst (alloc_run alloc ns ?s')"
    by (simp add: alloc_ptr [OF fit, symmetric] case_prod_beta)
  have adv: "unat (ptr ?s') = unat (ptr s) + rounded k"
    using Cons.prems(2) by (simp add: alloc_advance [OF fit] word_nat unat_round_16)
  have bound: "unat (ptr ?s') + rounded_total ns < 2 ^ 64"
    using Cons.prems(2) adv by simp
  obtain j' where j: "j = Suc j'" and j': "j' < length ns"
    using Cons.prems(3,4) by (cases j) auto
  have q: "fst (alloc_run alloc ns ?s') ! j' = (q, n)"
    using Cons.prems(6) run j by simp
  show ?case
  proof (cases i)
    case 0
    with Cons.prems(5) run have pm: "p = ptr s" "m = k" by simp_all
    have "(q, n) \<in> set (fst (alloc_run alloc ns ?s'))"
      using q j' by (metis nth_mem length_alloc_run)
    from run_blocks [OF rest bound this] adv bound rounded_ge [of k] rounded_ge [of n]
    show ?thesis unfolding pm by (intro blocks_apart) linarith+
  next
    case (Suc i')
    with Cons.IH [OF rest bound, of i' j'] Cons.prems(3,5) run j j' q show ?thesis by simp
  qed
qed

end

end
