(* ===== verification/Bump_Allocator.thy ===== *)
theory Bump_Allocator
  imports Arena
begin

text \<open>
  The heap of \<open>src/src/bump_allocator.cc\<close>: \<open>GlobalHeapInit\<close> maps one shared memory
  object twice (shared as the global heap, private as the local heap) and cuts the local heap
  into \<open>NUM_SUBHEAP\<close> subheaps; \<open>xxmalloc\<close> bumps the pointer of the subheap the
  caller's process id selects. Nothing is ever freed. The globals are one record per process;
  \<open>fork()\<close> copies it.
\<close>

section \<open>State\<close>

record heap_globals =
  shm_fd :: int
  local_heap :: addr
  global_heap :: addr
  subheaps :: "addr list"

definition MAP_FAILED :: addr where
  "MAP_FAILED = -1"

section \<open>Initialisation\<close>

text \<open>The loop that fills \<open>subheaps\<close>, from index \<open>i\<close> on.\<close>

function subheap_loop :: "nat \<Rightarrow> addr \<Rightarrow> addr list \<Rightarrow> addr list" where
  "subheap_loop i cur subs =
     (if i < unat NUM_SUBHEAP
      then subheap_loop (Suc i) (cur + SUBHEAP_SIZE) (subs[i := cur])
      else subs)"
  by pat_completeness auto
termination
  by (relation "measure (\<lambda>(i, _). unat NUM_SUBHEAP - i)") auto

declare subheap_loop.simps [simp del]

text \<open>
  The results of the system calls are arguments: the descriptor \<open>open\<close> returns, the code
  of \<open>ftruncate\<close>, and the addresses of the two mappings.
\<close>

definition GlobalHeapInit ::
  "int \<Rightarrow> int \<Rightarrow> addr \<Rightarrow> addr \<Rightarrow> heap_globals \<Rightarrow> exit_reason + heap_globals" where
  "GlobalHeapInit fd truncated global_map local_map st =
     (let st = st\<lparr>shm_fd := fd\<rparr> in
      if shm_fd st = -1 then Inl (Exit 2)
      else if truncated \<noteq> 0 then Inl (Exit 2)
      else
        let st = st\<lparr>global_heap := global_map\<rparr> in
        if global_heap st = MAP_FAILED then Inl Abort
        else
          let st = st\<lparr>local_heap := local_map\<rparr> in
          if local_heap st = MAP_FAILED then Inl (Exit 2)
          else Inr (st\<lparr>subheaps := subheap_loop 0 (local_heap st) (subheaps st)\<rparr>))"

section \<open>Allocation\<close>

definition subheap_index :: "pid_t \<Rightarrow> nat" where
  "subheap_index pid = pid mod unat NUM_SUBHEAP"

definition xxmalloc :: "pid_t \<Rightarrow> u64 \<Rightarrow> heap_globals \<Rightarrow> addr \<times> heap_globals" where
  "xxmalloc pid sz st =
     (let index = subheap_index pid;
          ret = subheaps st ! index;
          alligned_size = ROUND_UP sz MIN_ALIGNED_SIZE
      in (ret, st\<lparr>subheaps := (subheaps st)[index := subheaps st ! index + alligned_size]\<rparr>))"

definition xxfree :: "addr \<Rightarrow> heap_globals \<Rightarrow> heap_globals" where
  "xxfree p st = (if p = 0 then st else st)"

definition xxmalloc_usable_size :: "addr \<Rightarrow> u64" where
  "xxmalloc_usable_size p = 0"

section \<open>Facts about the loop and the bump pointers\<close>

lemma unat_NUM_SUBHEAP [simp]: "unat NUM_SUBHEAP = 16"
  by (simp add: util_consts)

lemma unat_SUBHEAP_SIZE: "unat SUBHEAP_SIZE = 32768"
  by simp

lemma unat_HEAP_SIZE: "unat HEAP_SIZE = 524288"
  by (simp add: util_consts)

lemma subheap_index_lt [simp]: "subheap_index pid < 16"
  by (simp add: subheap_index_def)

lemma subheap_loop_nth:
  assumes "length subs = 16" and "j < 16"
  shows "subheap_loop i cur subs ! j
    = (if i \<le> j then cur + of_nat (j - i) * SUBHEAP_SIZE else subs ! j)"
  using assms
proof (induction i cur subs rule: subheap_loop.induct)
  case (1 i cur subs)
  have len: "length subs = 16" by (rule "1.prems")
  show ?case
  proof (cases "i < 16")
    case True
    with 1 have IH: "subheap_loop (Suc i) (cur + SUBHEAP_SIZE) (subs[i := cur]) ! j
      = (if Suc i \<le> j then cur + SUBHEAP_SIZE + of_nat (j - Suc i) * SUBHEAP_SIZE
         else subs[i := cur] ! j)" by simp
    consider "i < j" | "i = j" | "j < i" by linarith
    then show ?thesis
    proof cases
      case 1
      then have "j - i = Suc (j - Suc i)" by simp
      then have "of_nat (j - i) = (1 :: u64) + of_nat (j - Suc i)" by (simp only: of_nat_Suc)
      with 1 IH True show ?thesis
        by (simp add: subheap_loop.simps [of i] algebra_simps del: SUBHEAP_SIZE_eq)
    next
      case 2
      with IH True len show ?thesis by (simp add: subheap_loop.simps [of j])
    next
      case 3
      with IH True show ?thesis by (simp add: subheap_loop.simps [of i])
    qed
  next
    case False
    with 1 show ?thesis by (simp add: subheap_loop.simps [of i])
  qed
qed

lemma length_subheap_loop [simp]: "length (subheap_loop i cur subs) = length subs"
  by (induction i cur subs rule: subheap_loop.induct) (subst subheap_loop.simps, simp)

lemma GlobalHeapInit_result:
  assumes "length (subheaps st) = 16"
  shows "GlobalHeapInit fd truncated g l st =
    (if fd = -1 \<or> truncated \<noteq> 0 then Inl (Exit 2)
     else if g = MAP_FAILED then Inl Abort
     else if l = MAP_FAILED then Inl (Exit 2)
     else Inr \<lparr>shm_fd = fd, local_heap = l, global_heap = g,
       subheaps = map (\<lambda>i. l + of_nat i * SUBHEAP_SIZE) [0..<16]\<rparr>)"
proof -
  have "subheap_loop 0 l (subheaps st) = map (\<lambda>i. l + of_nat i * SUBHEAP_SIZE) [0..<16]"
    using assms by (intro nth_equalityI) (simp_all add: subheap_loop_nth)
  then show ?thesis by (simp add: GlobalHeapInit_def Let_def)
qed

lemma xxmalloc_simps [simp]:
  "fst (xxmalloc pid n st) = subheaps st ! subheap_index pid"
  "subheaps (snd (xxmalloc pid n st))
     = (subheaps st)[subheap_index pid := subheaps st ! subheap_index pid + ROUND_UP n MIN_ALIGNED_SIZE]"
  "shm_fd (snd (xxmalloc pid n st)) = shm_fd st"
  "local_heap (snd (xxmalloc pid n st)) = local_heap st"
  "global_heap (snd (xxmalloc pid n st)) = global_heap st"
  by (simp_all add: xxmalloc_def Let_def)

text \<open>The heap allocator is an arena for every process id.\<close>

interpretation xm: arena "\<lambda>st n. xxmalloc pid n st" "\<lambda>st. subheaps st ! subheap_index pid"
  "\<lambda>st n. length (subheaps st) = 16" for pid
  by unfold_locales (simp_all add: subheap_index_lt)

lemma xxmalloc_run_fits:
  "length (subheaps st) = 16 \<Longrightarrow>
    fits_run (\<lambda>st n. xxmalloc pid n st) (\<lambda>st n. length (subheaps st) = 16) ns st"
  by (induction ns arbitrary: st) simp_all

text \<open>The requests of one process, in order, and the blocks it is handed.\<close>

definition xxmalloc_run :: "pid_t \<Rightarrow> u64 list \<Rightarrow> heap_globals \<Rightarrow> (addr \<times> u64) list \<times> heap_globals" where
  "xxmalloc_run pid = alloc_run (\<lambda>st n. xxmalloc pid n st)"

lemma GlobalHeapInit_Inr:
  assumes "GlobalHeapInit fd truncated g l st0 = Inr st" and "length (subheaps st0) = 16"
  shows "local_heap st = l" and "global_heap st = g" and "length (subheaps st) = 16"
    and "i < 16 \<Longrightarrow> subheaps st ! i = l + of_nat i * SUBHEAP_SIZE"
  using assms by (auto simp: GlobalHeapInit_result split: if_splits)

lemma subheap_start:
  fixes l :: u64
  assumes "unat l + 524288 < 2 ^ 64" and "i < 16"
  shows "unat (l + of_nat i * SUBHEAP_SIZE) = unat l + i * 32768"
proof -
  have "unat (of_nat i * SUBHEAP_SIZE) = i * 32768"
    using assms(2) by (simp add: unat_mult_no_wrap unat_of_nat)
  with assms show ?thesis by (simp add: unat_add_no_wrap)
qed

lemma xxmalloc_run_block:
  assumes "GlobalHeapInit fd truncated g l st0 = Inr st" and "length (subheaps st0) = 16"
    and "unat l + 524288 < 2 ^ 64" and "rounded_total ns \<le> 32768"
    and "(p, n) \<in> set (fst (xxmalloc_run pid ns st))"
  shows "unat l + subheap_index pid * 32768 \<le> unat p"
    and "unat p + rounded n \<le> unat l + subheap_index pid * 32768 + 32768"
    and "16 dvd unat l \<Longrightarrow> 16 dvd unat p"
proof -
  note init = GlobalHeapInit_Inr [OF assms(1,2)]
  have start: "unat (subheaps st ! subheap_index pid) = unat l + subheap_index pid * 32768"
    using subheap_start [OF assms(3)] by (simp add: init(4))
  have idx: "subheap_index pid * 32768 + 32768 \<le> 524288"
    using subheap_index_lt [of pid] by linarith
  have mem: "(p, n) \<in> set (fst (alloc_run (\<lambda>st n. xxmalloc pid n st) ns st))"
    using assms(5) by (simp add: xxmalloc_run_def)
  have "unat (subheaps st ! subheap_index pid) + rounded_total ns < 2 ^ 64"
    using start idx assms(3,4) by linarith
  note blk = xm.run_blocks [OF xxmalloc_run_fits [OF init(3)] this mem]
  show "unat l + subheap_index pid * 32768 \<le> unat p"
    and "unat p + rounded n \<le> unat l + subheap_index pid * 32768 + 32768"
    using blk start assms(4) by linarith+
  show "16 dvd unat p" if "16 dvd unat l"
  proof -
    have "16 dvd unat (subheaps st ! subheap_index pid)"
      using that by (simp add: start dvd_add)
    with blk show ?thesis by blast
  qed
qed

lemma xxmalloc_run_region:
  assumes "GlobalHeapInit fd truncated g l st0 = Inr st" and "length (subheaps st0) = 16"
    and "unat l + 524288 < 2 ^ 64" and "rounded_total ns \<le> 32768"
    and "(p, n) \<in> set (fst (xxmalloc_run pid ns st))"
  shows "region p n \<subseteq> region (subheaps st ! subheap_index pid) SUBHEAP_SIZE"
proof
  fix a assume "a \<in> region p n"
  note blk = xxmalloc_run_block [OF assms]
  have idx: "subheap_index pid * 32768 + 32768 \<le> 524288"
    using subheap_index_lt [of pid] by linarith
  have "unat p + unat n \<le> 2 ^ 64"
    using blk(2) rounded_ge [of n] idx assms(3) by linarith
  with \<open>a \<in> region p n\<close> have "unat p \<le> unat a" "unat a < unat p + unat n"
    by (simp_all only: in_region_unat)
  moreover have "unat (subheaps st ! subheap_index pid) = unat l + subheap_index pid * 32768"
    using subheap_start [OF assms(3)] by (simp add: GlobalHeapInit_Inr [OF assms(1,2)])
  ultimately show "a \<in> region (subheaps st ! subheap_index pid) SUBHEAP_SIZE"
    using blk rounded_ge [of n] idx assms(3)
    by (subst in_region_unat) (simp_all add: unat_SUBHEAP_SIZE)
qed

lemma subheap_regions_disjoint:
  assumes "GlobalHeapInit fd truncated g l st0 = Inr st" and "length (subheaps st0) = 16"
    and "unat l + 524288 < 2 ^ 64" and "subheap_index pid \<noteq> subheap_index pid'"
  shows "region (subheaps st ! subheap_index pid) SUBHEAP_SIZE
    \<inter> region (subheaps st ! subheap_index pid') SUBHEAP_SIZE = {}"
proof -
  have start: "unat (subheaps st ! subheap_index k) = unat l + subheap_index k * 32768" for k
    using subheap_start [OF assms(3)] by (simp add: GlobalHeapInit_Inr [OF assms(1,2)])
  have top: "unat (subheaps st ! subheap_index k) + unat SUBHEAP_SIZE \<le> 2 ^ 64" for k
    using start [of k] subheap_index_lt [of k] assms(3) unat_SUBHEAP_SIZE by linarith
  show ?thesis
  proof (cases "subheap_index pid < subheap_index pid'")
    case True
    then have "subheap_index pid * 32768 + 32768 \<le> subheap_index pid' * 32768" by simp
    with start show ?thesis by (intro blocks_apart top) (simp add: unat_SUBHEAP_SIZE)
  next
    case False
    then have "subheap_index pid' * 32768 + 32768 \<le> subheap_index pid * 32768"
      using assms(4) by simp
    with start have "region (subheaps st ! subheap_index pid') SUBHEAP_SIZE
        \<inter> region (subheaps st ! subheap_index pid) SUBHEAP_SIZE = {}"
      by (intro blocks_apart top) (simp add: unat_SUBHEAP_SIZE)
    then show ?thesis by blast
  qed
qed

section \<open>Properties\<close>

text \<open>
  Heap initialisation, on every branch: a failed \<open>open\<close>, \<open>ftruncate\<close> or local
  mapping ends the process with status 2, a failed global mapping aborts it, and otherwise the
  globals hold the descriptor, the two mappings and the sixteen subheap pointers, each
  \<open>SUBHEAP_SIZE\<close> above the one before.
\<close>

lemma heap_init_branches:
  assumes "length (subheaps st) = 16"
  shows "GlobalHeapInit fd truncated g l st =
    (if fd = -1 \<or> truncated \<noteq> 0 then Inl (Exit 2)
     else if g = MAP_FAILED then Inl Abort
     else if l = MAP_FAILED then Inl (Exit 2)
     else Inr \<lparr>shm_fd = fd, local_heap = l, global_heap = g,
       subheaps = map (\<lambda>i. l + of_nat i * SUBHEAP_SIZE) [0..<16]\<rparr>)"
  using assms by (rule GlobalHeapInit_result)

definition zero_globals :: heap_globals where
  "zero_globals = \<lparr>shm_fd = 0, local_heap = 0, global_heap = 0, subheaps = replicate 16 0\<rparr>"

definition sample_heap :: heap_globals where
  "sample_heap = \<lparr>shm_fd = 3, local_heap = 0x7ffff7e81000, global_heap = 0x7ffff7f01000,
     subheaps = map (\<lambda>i. 0x7ffff7e81000 + of_nat i * SUBHEAP_SIZE) [0..<16]\<rparr>"

lemma sample_init:
  "GlobalHeapInit 3 0 0x7ffff7f01000 0x7ffff7e81000 zero_globals = Inr sample_heap"
  by (subst GlobalHeapInit_result) (simp_all add: zero_globals_def sample_heap_def MAP_FAILED_def)

lemma zero_globals_length: "length (subheaps zero_globals) = 16"
  by (simp add: zero_globals_def)

text \<open>
  C31: The subheaps cut the local heap exactly: after a successful initialisation every
  address of the heap lies in one and only one subheap.
\<close>

theorem subheaps_partition_heap:
  assumes "GlobalHeapInit fd truncated g l st0 = Inr st" and "length (subheaps st0) = 16"
    and "unat l + 524288 < 2 ^ 64" and "a \<in> region l HEAP_SIZE"
  shows "\<exists>!i. i < 16 \<and> a \<in> region (subheaps st ! i) SUBHEAP_SIZE"
proof -
  have in_sub: "a \<in> region (subheaps st ! i) SUBHEAP_SIZE
      \<longleftrightarrow> unat l + i * 32768 \<le> unat a \<and> unat a < unat l + i * 32768 + 32768" if "i < 16" for i
    using subheap_start [OF assms(3) that] assms(3) that
    by (subst in_region_unat)
      (simp_all add: GlobalHeapInit_Inr [OF assms(1,2)] unat_SUBHEAP_SIZE)
  have range: "unat l \<le> unat a" "unat a < unat l + 524288"
    using assms(3,4) by (simp_all add: in_region_unat unat_HEAP_SIZE del: in_region_iff)
  define k where "k = (unat a - unat l) div 32768"
  have k: "k < 16" "unat l + k * 32768 \<le> unat a" "unat a < unat l + k * 32768 + 32768"
    using range by (simp_all add: k_def)
  show ?thesis
  proof (rule ex1I [of _ k])
    show "k < 16 \<and> a \<in> region (subheaps st ! k) SUBHEAP_SIZE"
      using in_sub k by blast
    show "i = k" if "i < 16 \<and> a \<in> region (subheaps st ! i) SUBHEAP_SIZE" for i
      using in_sub [of i] that k by auto
  qed
qed

theorem subheaps_partition_heap_witness:
  "\<exists>!i. i < 16 \<and> (0x7ffff7e8a123 :: u64) \<in> region (subheaps sample_heap ! i) SUBHEAP_SIZE"
  by (rule subheaps_partition_heap [OF sample_init zero_globals_length])
    (simp_all add: util_consts)

text \<open>
  C30: Blocks never overlap, inside one process and across processes: as long as no process asks
  for more than a subheap, any two blocks of one process's requests are disjoint and lie in the
  subheap of its id, and the blocks of two processes that started from the same (forked) heap are
  disjoint whenever their ids select different subheaps.
\<close>

theorem xxmalloc_blocks_disjoint:
  assumes "GlobalHeapInit fd truncated g l st0 = Inr st" and "length (subheaps st0) = 16"
    and "unat l + 524288 < 2 ^ 64"
    and "rounded_total ns \<le> 32768" and "rounded_total ms \<le> 32768"
    and "pid mod 16 \<noteq> pid' mod 16"
    and "i < j" and "j < length ns" and "k < length ms"
    and "fst (xxmalloc_run pid ns st) ! i = (p, m)" and "fst (xxmalloc_run pid ns st) ! j = (q, n)"
    and "fst (xxmalloc_run pid' ms st) ! k = (r, n')"
  shows "region p m \<inter> region q n = {} \<and> region p m \<inter> region r n' = {}
    \<and> region p m \<union> region q n \<subseteq> region (l + of_nat (pid mod 16) * SUBHEAP_SIZE) SUBHEAP_SIZE"
proof (intro conjI)
  note init = GlobalHeapInit_Inr [OF assms(1,2)]
  have start: "unat (subheaps st ! subheap_index pid) = unat l + subheap_index pid * 32768"
    using subheap_start [OF assms(3)] by (simp add: init(4))
  have "unat (subheaps st ! subheap_index pid) + rounded_total ns < 2 ^ 64"
    using start subheap_index_lt [of pid] assms(3,4) by linarith
  from xm.run_disjoint [OF xxmalloc_run_fits [OF init(3)] this assms(7,8)] assms(10,11)
  show "region p m \<inter> region q n = {}" by (simp add: xxmalloc_run_def)
  have "(p, m) \<in> set (fst (xxmalloc_run pid ns st))" "(q, n) \<in> set (fst (xxmalloc_run pid ns st))"
    using assms(7,8,10,11) nth_mem [of i "fst (xxmalloc_run pid ns st)"] nth_mem [of j "fst (xxmalloc_run pid ns st)"]
    by (simp_all add: xxmalloc_run_def)
  note own = this [THEN xxmalloc_run_region [OF assms(1-3,4)]]
  have sub: "region p m \<subseteq> region (subheaps st ! subheap_index pid) SUBHEAP_SIZE" by (rule own(1))
  have "subheaps st ! subheap_index pid = l + of_nat (pid mod 16) * SUBHEAP_SIZE"
    using init(4) [of "pid mod 16"] by (simp add: subheap_index_def)
  with own show "region p m \<union> region q n \<subseteq> region (l + of_nat (pid mod 16) * SUBHEAP_SIZE) SUBHEAP_SIZE"
    by (metis Un_least)
  have "(r, n') \<in> set (fst (xxmalloc_run pid' ms st))"
    using assms(9,12) nth_mem [of k "fst (xxmalloc_run pid' ms st)"]
    by (simp add: xxmalloc_run_def)
  from xxmalloc_run_region [OF assms(1-3,5) this]
  have sub': "region r n' \<subseteq> region (subheaps st ! subheap_index pid') SUBHEAP_SIZE" .
  have "subheap_index pid \<noteq> subheap_index pid'"
    using assms(6) by (simp add: subheap_index_def)
  then have "region (subheaps st ! subheap_index pid) SUBHEAP_SIZE
      \<inter> region (subheaps st ! subheap_index pid') SUBHEAP_SIZE = {}"
    using subheap_regions_disjoint [OF assms(1-3)] by simp
  with sub sub' show "region p m \<inter> region r n' = {}" by blast
qed

theorem xxmalloc_blocks_disjoint_witness:
  "region 0x7ffff7e89000 100 \<inter> region 0x7ffff7e89070 (8 :: u64) = {}
    \<and> region 0x7ffff7e89000 100 \<inter> region 0x7ffff7e91000 (24 :: u64) = ({} :: addr set)"
proof -
  have "region 0x7ffff7e89000 100 \<inter> region 0x7ffff7e89070 (8 :: u64) = {}
    \<and> region 0x7ffff7e89000 100 \<inter> region 0x7ffff7e91000 (24 :: u64) = ({} :: addr set)
    \<and> region 0x7ffff7e89000 100 \<union> region 0x7ffff7e89070 8
      \<subseteq> region (0x7ffff7e81000 + of_nat (6641 mod 16) * SUBHEAP_SIZE) SUBHEAP_SIZE"
    by (rule xxmalloc_blocks_disjoint
        [OF sample_init zero_globals_length, where ns = "[100, 8]" and ms = "[24]" and pid = 6641
          and pid' = 6642 and i = 0 and j = 1 and k = 0])
      (simp_all add: xxmalloc_run_def xxmalloc_def subheap_index_def sample_heap_def util_consts
        ROUND_UP_def rounded_def next_multiple_def)
  then show ?thesis by blast
qed

text \<open>What a process allocates leaves the subheaps of other residues alone.\<close>

lemma xxmalloc_run_other:
  assumes "pid mod 16 \<noteq> pid' mod 16"
  shows "subheaps (snd (xxmalloc_run pid ns st)) ! subheap_index pid' = subheaps st ! subheap_index pid'"
    and "length (subheaps (snd (xxmalloc_run pid ns st))) = length (subheaps st)"
proof -
  have "subheap_index pid \<noteq> subheap_index pid'" using assms by (simp add: subheap_index_def)
  then show "subheaps (snd (xxmalloc_run pid ns st)) ! subheap_index pid' = subheaps st ! subheap_index pid'"
    and "length (subheaps (snd (xxmalloc_run pid ns st))) = length (subheaps st)"
    by (induction ns arbitrary: st) (simp_all add: xxmalloc_run_def case_prod_beta)
qed

text \<open>
  C32: What the residue hides. A creator allocates, forks a thread, allocates more, and forks a
  second thread, whose id is equal to the first one's modulo \<open>NUM_SUBHEAP\<close> while the creator's is
  not. Whatever they ask for, a block of the second thread that has as much before it as a block of
  the first is the same memory: both start at the same place, the beginning of the subheap plus
  what the one thread asked for before, because \<open>subheaps\<close> is a private global that \<open>fork()\<close>
  copies and nothing tells the creator or a later sibling how far the first one has bumped it. The
  second of two such threads that run one after the other therefore overwrites what the first has
  allocated and committed.
\<close>

theorem xxmalloc_same_residue_collides:
  assumes "GlobalHeapInit fd truncated g l st0 = Inr st" and "length (subheaps st0) = 16"
    and "unat l + 524288 < 2 ^ 64" and "rounded_total ns \<le> 32768" and "rounded_total ms \<le> 32768"
    and "pid mod 16 = pid' mod 16" and "creator mod 16 \<noteq> pid mod 16"
    and "st1 = snd (xxmalloc_run creator ks st)" and "st2 = snd (xxmalloc_run creator ks' st1)"
    and "i < length ns" and "j < length ms" and "rounded_total (take i ns) = rounded_total (take j ms)"
  shows "fst (fst (xxmalloc_run pid' ms st2) ! j) = fst (fst (xxmalloc_run pid ns st1) ! i)
    \<and> unat (fst (fst (xxmalloc_run pid ns st1) ! i)) = unat l + (pid mod 16) * 32768 + rounded_total (take i ns)"
proof -
  note init = GlobalHeapInit_Inr [OF assms(1,2)]
  have start: "unat (subheaps st ! subheap_index pid) = unat l + (pid mod 16) * 32768"
    using subheap_start [OF assms(3), of "pid mod 16"] init(4) [of "pid mod 16"] by (simp add: subheap_index_def)
  have same: "subheap_index pid' = subheap_index pid" using assms(6) by (simp add: subheap_index_def)
  have "subheaps st1 ! subheap_index pid = subheaps st ! subheap_index pid" "length (subheaps st1) = 16"
    using xxmalloc_run_other [OF assms(7)] init(3) by (simp_all add: assms(8))
  moreover from this have "subheaps st2 ! subheap_index pid = subheaps st ! subheap_index pid" "length (subheaps st2) = 16"
    using xxmalloc_run_other [OF assms(7), of ks' st1] by (simp_all add: assms(9))
  moreover have bound: "pid mod 16 < 16" by simp
  then have "unat l + (pid mod 16) * 32768 + 32768 \<le> unat l + 524288" by linarith
  then have "unat (subheaps st ! subheap_index pid) + rounded_total xs < 2 ^ 64" if "rounded_total xs \<le> 32768" for xs
    using start assms(3) that by linarith
  ultimately have
    first: "unat (fst (fst (xxmalloc_run pid ns st1) ! i)) = unat l + (pid mod 16) * 32768 + rounded_total (take i ns)" and
    second: "unat (fst (fst (xxmalloc_run pid' ms st2) ! j)) = unat l + (pid mod 16) * 32768 + rounded_total (take j ms)"
    using xm.run_layout(1) [OF xxmalloc_run_fits, of st1 pid ns i] xm.run_layout(1) [OF xxmalloc_run_fits, of st2 pid' ms j]
      assms(4,5,10,11) start same
    unfolding xxmalloc_run_def by (metis prod.collapse)+
  then show ?thesis using assms(12) by (simp add: word_eq_unatI)
qed

theorem xxmalloc_same_residue_collides_witness:
  "fst (fst (xxmalloc_run 6658 [16, 24] (snd (xxmalloc_run 6641 [64] (snd (xxmalloc_run 6641 [32] sample_heap))))) ! 1)
    = fst (fst (xxmalloc_run 6642 [8, 100] (snd (xxmalloc_run 6641 [32] sample_heap))) ! 1)"
  using xxmalloc_same_residue_collides [OF sample_init zero_globals_length, where ns = "[8, 100]" and ms = "[16, 24]"
      and pid = 6642 and pid' = 6658 and creator = 6641 and ks = "[32]" and ks' = "[64]" and i = 1 and j = 1, OF _ _ _ _ _ refl refl]
  by (simp add: rounded_def next_multiple_def)

text \<open>
  C33: The missing depletion check: a process that has used up its subheap is handed blocks of
  the next one. After requests that fill subheap \<open>i\<close> exactly, the next block of that
  process is the first block of a process that owns subheap \<open>i + 1\<close>.
\<close>

theorem xxmalloc_runs_into_next_subheap:
  assumes "GlobalHeapInit fd truncated g l st0 = Inr st" and "length (subheaps st0) = 16"
    and "unat l + 524288 < 2 ^ 64"
    and "rounded_total ns = 32768" and "pid mod 16 < 15" and "pid' mod 16 = Suc (pid mod 16)"
  shows "fst (xxmalloc pid n (snd (xxmalloc_run pid ns st))) = fst (xxmalloc pid' m st)"
proof (rule word_eq_unatI)
  note init = GlobalHeapInit_Inr [OF assms(1,2)]
  have start: "unat (subheaps st ! subheap_index k) = unat l + subheap_index k * 32768" for k
    using subheap_start [OF assms(3)] by (simp add: init(4))
  have "unat (subheaps st ! subheap_index pid) + rounded_total ns < 2 ^ 64"
    using start [of pid] subheap_index_lt [of pid] assms(3,4) by linarith
  from xm.run_end [OF xxmalloc_run_fits [OF init(3)] this]
  show "unat (fst (xxmalloc pid n (snd (xxmalloc_run pid ns st)))) = unat (fst (xxmalloc pid' m st))"
    using start [of pid] start [of pid'] assms(4,6) by (simp add: xxmalloc_run_def subheap_index_def)
qed

theorem xxmalloc_runs_into_next_subheap_witness:
  "fst (xxmalloc 6641 64 (snd (xxmalloc_run 6641 [0x4000, 0x4000] sample_heap)))
     = fst (xxmalloc 6642 64 sample_heap)"
  by (rule xxmalloc_runs_into_next_subheap [OF sample_init zero_globals_length])
    (simp_all add: rounded_def next_multiple_def)

end
