(* ===== verification/Pages.thy ===== *)
theory Pages
  imports Bump_Allocator
begin

text \<open>
  Pages of the local heap: the page of an address, as \<open>SegfaultHandler\<close> computes it, and
  the two equivalences the transactional memory rests on (an address is within
  \<open>PAGE_SIZE\<close> of a page exactly when the page is its page; an address is in the heap exactly
  when its page is).
\<close>

definition page_of :: "addr \<Rightarrow> addr" where
  "page_of a = ROUND_DOWN a PAGE_SIZE"

text \<open>The range the heap mapping covers.\<close>

definition in_heap :: "heap_globals \<Rightarrow> addr \<Rightarrow> bool" where
  "in_heap G a \<longleftrightarrow> a - local_heap G < HEAP_SIZE"

text \<open>\<open>mmap\<close> returns page-aligned mappings that do not wrap around.\<close>

definition heap_aligned :: "heap_globals \<Rightarrow> bool" where
  "heap_aligned G \<longleftrightarrow> 4096 dvd unat (local_heap G) \<and> unat (local_heap G) + 524288 < 2 ^ 64"

lemma unat_page_of: "unat (page_of a) = unat a div 4096 * 4096"
  using unat_ROUND_DOWN [of a PAGE_SIZE]
  by (simp add: page_of_def PAGE_SIZE_def minus_mod_eq_div_mult)

lemma page_of_idem [simp]: "page_of (page_of a) = page_of a"
  by (rule word_eq_unatI) (simp add: unat_page_of)

lemma page_aligned: "page_of pg = pg \<Longrightarrow> 4096 dvd unat pg"
  using unat_page_of [of pg] by (metis dvd_triv_right)

lemma near_page:
  assumes "page_of pg = pg"
  shows "a - pg < PAGE_SIZE \<longleftrightarrow> page_of a = pg"
proof -
  obtain k where k: "unat pg = 4096 * k" using page_aligned [OF assms] by (elim dvdE)
  have page: "page_of a = pg \<longleftrightarrow> unat a div 4096 = k"
    using k unat_page_of [of a] by (auto simp: word_unat_eq_iff)
  show ?thesis
  proof (cases "unat pg \<le> unat a")
    case True
    then have "a - pg < PAGE_SIZE \<longleftrightarrow> unat a - 4096 * k < 4096"
      using k by (simp add: word_less_nat_alt unat_diff_no_wrap PAGE_SIZE_def)
    also have "\<dots> \<longleftrightarrow> unat a div 4096 = k"
      using True k by auto
    finally show ?thesis using page by simp
  next
    case False
    then have "unat (a - pg) = 2 ^ 64 + unat a - unat pg"
      by (simp add: unat_sub_if_size word_size)
    moreover have "unat pg + 4096 \<le> 2 ^ 64"
      using k unat_lt_2p64 [of pg] by simp
    ultimately have "\<not> a - pg < PAGE_SIZE"
      using False by (simp add: word_less_nat_alt PAGE_SIZE_def)
    moreover have "unat a div 4096 < k" using False k by simp
    ultimately show ?thesis using page by simp
  qed
qed

lemma near_own_page: "a - page_of a < PAGE_SIZE"
  using near_page [of "page_of a" a] by simp

lemma in_heap_page:
  assumes "heap_aligned G"
  shows "in_heap G (page_of a) \<longleftrightarrow> in_heap G a"
proof -
  obtain k where k: "unat (local_heap G) = 4096 * k"
    using assms by (auto simp: heap_aligned_def)
  have range: "in_heap G x \<longleftrightarrow> 4096 * k \<le> unat x \<and> unat x < 4096 * (k + 128)" for x
    using assms in_region_unat [of "local_heap G" HEAP_SIZE x] k
    by (simp add: in_heap_def heap_aligned_def unat_HEAP_SIZE)
  have "4096 * k \<le> unat a \<longleftrightarrow> k \<le> unat a div 4096"
    by (simp add: less_eq_div_iff_mult_less_eq mult.commute)
  moreover have "unat a < 4096 * (k + 128) \<longleftrightarrow> unat a div 4096 < k + 128"
    by (simp add: div_less_iff_less_mult mult.commute)
  ultimately show ?thesis by (simp add: range unat_page_of) linarith
qed

lemma in_heap_bounds:
  assumes "heap_aligned G" and "in_heap G a"
  shows "local_heap G \<le> a" and "a \<le> local_heap G + HEAP_SIZE"
proof -
  have bound: "unat (local_heap G) + 524288 < 2 ^ 64" using assms(1) by (simp add: heap_aligned_def)
  have "unat (local_heap G) \<le> unat a \<and> unat a < unat (local_heap G) + 524288"
    using assms(2) in_region_unat [of "local_heap G" HEAP_SIZE a] bound
    by (simp add: in_heap_def unat_HEAP_SIZE)
  moreover have "unat (local_heap G + HEAP_SIZE) = unat (local_heap G) + 524288"
    using bound by (simp add: unat_add_no_wrap unat_HEAP_SIZE)
  ultimately show "local_heap G \<le> a" and "a \<le> local_heap G + HEAP_SIZE"
    by (simp_all add: word_le_nat_alt)
qed

end
