(* ===== verification/Version_Map.thy ===== *)
theory Version_Map
  imports Prelude
begin

text \<open>
  The version maps of \<open>src/src/gstm.hh\<close> (\<open>private_mapping_t\<close>, \<open>share_mapping_t\<close>):
  \<open>std::unordered_map\<close> from a page's address to a version number. The C++ library leaves
  the iteration order open; a map is modelled as the list of its entries in the order an
  iteration visits them, and the locale states what the code relies on without fixing it.
\<close>

type_synonym version_map = "(addr \<times> u64) list"

section \<open>The interface\<close>

locale unordered_map =
  fixes find :: "'m \<Rightarrow> addr \<Rightarrow> u64 option"
    and entries :: "'m \<Rightarrow> (addr \<times> u64) list"
    and assign :: "addr \<Rightarrow> u64 \<Rightarrow> 'm \<Rightarrow> 'm"
    and insert_new :: "addr \<times> u64 \<Rightarrow> 'm \<Rightarrow> 'm"
    and clear :: 'm
    and wf :: "'m \<Rightarrow> bool"
  assumes find_entries: "wf m \<Longrightarrow> map_of (entries m) = find m"
    and distinct_entries: "wf m \<Longrightarrow> distinct (map fst (entries m))"
    and find_assign: "find (assign k v m) = (find m)(k \<mapsto> v)"
    and find_insert: "find (insert_new (k, v) m) = (if find m k = None then (find m)(k \<mapsto> v) else find m)"
    and find_clear: "find clear = Map.empty"
    and wf_assign: "wf m \<Longrightarrow> wf (assign k v m)"
    and wf_insert: "wf m \<Longrightarrow> wf (insert_new e m)"
    and wf_clear: "wf clear"
begin

text \<open>Assigning every entry of a map, in any order.\<close>

lemma find_assign_all:
  "distinct (map fst es) \<Longrightarrow> find (fold (\<lambda>(k, v). assign k v) es m) = find m ++ map_of es"
proof (induction es arbitrary: m)
  case Nil
  then show ?case by simp
next
  case (Cons e es)
  obtain k v where e: "e = (k, v)" by (cases e)
  from Cons.prems e have "map_of es k = None" by (auto simp: map_of_eq_None_iff)
  then have "(find m)(k \<mapsto> v) ++ map_of es = find m ++ (map_of es)(k \<mapsto> v)"
    by (auto simp: map_add_def fun_eq_iff split: option.splits)
  moreover have "map_of (e # es) = (map_of es)(k \<mapsto> v)" by (simp add: e fun_eq_iff)
  moreover have "find (fold (\<lambda>(k, v). assign k v) (e # es) m) = (find m)(k \<mapsto> v) ++ map_of es"
    using Cons e by (simp add: find_assign)
  ultimately show ?case by (simp only:)
qed

text \<open>Copying a map entry by entry into a cleared one gives the same lookups.\<close>

lemma find_copy_aux:
  "distinct (map fst es) \<Longrightarrow> find (fold insert_new es m) = map_of es ++ find m"
proof (induction es arbitrary: m)
  case Nil
  then show ?case by simp
next
  case (Cons e es)
  obtain k v where e: "e = (k, v)" by (cases e)
  from Cons.prems e have "map_of es k = None" by (auto simp: map_of_eq_None_iff)
  then have "map_of es ++ find (insert_new (k, v) m) = (map_of es)(k \<mapsto> v) ++ find m"
    by (auto simp: find_insert map_add_def fun_eq_iff split: option.splits)
  moreover have "map_of (e # es) = (map_of es)(k \<mapsto> v)" by (simp add: e fun_eq_iff)
  moreover have "find (fold insert_new (e # es) m) = map_of es ++ find (insert_new (k, v) m)"
    using Cons e by simp
  ultimately show ?case by (simp only:)
qed

lemma wf_copy: "wf m \<Longrightarrow> wf (fold insert_new es m)"
  by (induction es arbitrary: m) (simp_all add: wf_insert)

lemma find_copy: "wf g \<Longrightarrow> find (fold insert_new (entries g) clear) = find g"
  by (simp add: find_copy_aux distinct_entries find_entries find_clear)

end

section \<open>The model\<close>

abbreviation vm_find :: "version_map \<Rightarrow> addr \<Rightarrow> u64 option" where
  "vm_find \<equiv> map_of"

definition vm_assign :: "addr \<Rightarrow> u64 \<Rightarrow> version_map \<Rightarrow> version_map" where
  "vm_assign k v m = AList.update k v m"

definition vm_insert :: "addr \<times> u64 \<Rightarrow> version_map \<Rightarrow> version_map" where
  "vm_insert e m = (if vm_find m (fst e) = None then m @ [e] else m)"

definition vm_clear :: version_map where
  "vm_clear = []"

definition vm_wf :: "version_map \<Rightarrow> bool" where
  "vm_wf m \<longleftrightarrow> distinct (map fst m)"

interpretation vm: unordered_map vm_find "\<lambda>m. m" vm_assign vm_insert vm_clear vm_wf
proof unfold_locales
  show "vm_find (vm_insert (k, v) m)
      = (if vm_find m k = None then (vm_find m)(k \<mapsto> v) else vm_find m)" for k v m
    by (auto simp: vm_insert_def map_add_def fun_eq_iff split: option.splits)
  show "vm_wf m \<Longrightarrow> vm_wf (vm_insert e m)" for m e
    by (auto simp: vm_wf_def vm_insert_def map_of_eq_None_iff image_iff)
qed (simp_all add: vm_wf_def vm_assign_def vm_clear_def update_conv' distinct_update)

lemma vm_clear_empty [simp]: "vm_find vm_clear = Map.empty"
  by (rule vm.find_clear)

lemma vm_find_assign [simp]: "vm_find (vm_assign k v m) = (vm_find m)(k \<mapsto> v)"
  by (rule vm.find_assign)

text \<open>The version of a page: absent pages are at version 0.\<close>

definition version_of :: "version_map \<Rightarrow> addr \<Rightarrow> u64" where
  "version_of m page = (case vm_find m page of None \<Rightarrow> 0 | Some v \<Rightarrow> v)"

lemma version_of_assign [simp]:
  "version_of (vm_assign k v m) = (version_of m)(k := v)"
  by (auto simp: version_of_def fun_eq_iff)

lemma version_of_clear [simp]: "version_of vm_clear page = 0"
  by (simp add: version_of_def)

end
