(* ===== verification/Page_Arena.thy ===== *)
theory Page_Arena
  imports Bump_Allocator
begin

text \<open>
  The contract of the two STL allocators (\<open>PrivateAllocator\<close>, \<open>ShareAllocator\<close>): an arena
  that serves requests from a page obtained by \<open>mmap\<close> and turns to a new page when the
  count of used bytes says the current one is full. The laws are those of the code, so the
  count is reset to zero when the page turns and the request that turned it is not counted.
  What follows from them, good and bad, is proved once here for both allocators.
\<close>

locale page_arena =
  fixes alloc :: "addr \<Rightarrow> u64 \<Rightarrow> 's \<Rightarrow> exit_reason + (addr \<times> 's)"
    and head :: "'s \<Rightarrow> addr"
    and used :: "'s \<Rightarrow> u64"
    and inv :: "'s \<Rightarrow> bool"
  assumes stay: "inv s \<Longrightarrow> \<not> PAGE_SIZE < used s + ROUND_UP n MIN_ALIGNED_SIZE \<Longrightarrow>
      \<exists>s'. alloc page n s = Inr (head s, s') \<and> inv s'
        \<and> head s' = head s + ROUND_UP n MIN_ALIGNED_SIZE
        \<and> used s' = used s + ROUND_UP n MIN_ALIGNED_SIZE"
    and turn: "inv s \<Longrightarrow> PAGE_SIZE < used s + ROUND_UP n MIN_ALIGNED_SIZE \<Longrightarrow> page \<noteq> MAP_FAILED \<Longrightarrow>
      \<exists>s'. alloc page n s = Inr (page, s') \<and> inv s'
        \<and> head s' = page + ROUND_UP n MIN_ALIGNED_SIZE \<and> used s' = 0"
    and turn_fails: "inv s \<Longrightarrow> PAGE_SIZE < used s + ROUND_UP n MIN_ALIGNED_SIZE \<Longrightarrow>
      page = MAP_FAILED \<Longrightarrow> alloc page n s = Inl Abort"
begin

text \<open>Inside one page the allocator is a bump arena.\<close>

sublocale one_page: arena
  "\<lambda>s n. case alloc page n s of Inl e \<Rightarrow> (0, s) | Inr r \<Rightarrow> r" head
  "\<lambda>s n. inv s \<and> \<not> PAGE_SIZE < used s + ROUND_UP n MIN_ALIGNED_SIZE" for page
proof unfold_locales
  fix s n
  assume "inv s \<and> \<not> PAGE_SIZE < used s + ROUND_UP n MIN_ALIGNED_SIZE"
  then obtain s' where "alloc page n s = Inr (head s, s')"
    "head s' = head s + ROUND_UP n MIN_ALIGNED_SIZE"
    using stay [of s n page] by blast
  then show "fst (case alloc page n s of Inl e \<Rightarrow> (0, s) | Inr r \<Rightarrow> r) = head s"
    and "head (snd (case alloc page n s of Inl e \<Rightarrow> (0, s) | Inr r \<Rightarrow> r))
      = head s + ROUND_UP n MIN_ALIGNED_SIZE" by simp_all
qed

lemma page_limit:
  assumes "unat (used s) + rounded n \<le> 4096"
  shows "\<not> PAGE_SIZE < used s + ROUND_UP n MIN_ALIGNED_SIZE"
    and "unat (used s + ROUND_UP n MIN_ALIGNED_SIZE) = unat (used s) + rounded n"
proof -
  show sum: "unat (used s + ROUND_UP n MIN_ALIGNED_SIZE) = unat (used s) + rounded n"
    using assms by (simp add: unat_add_no_wrap unat_round_16)
  show "\<not> PAGE_SIZE < used s + ROUND_UP n MIN_ALIGNED_SIZE"
    using sum assms by (simp add: word_less_nat_alt PAGE_SIZE_def)
qed

lemma run_fits:
  assumes "inv s" and "unat (used s) + rounded_total ns \<le> 4096"
  shows "fits_run (\<lambda>s n. case alloc page n s of Inl e \<Rightarrow> (0, s) | Inr r \<Rightarrow> r)
    (\<lambda>s n. inv s \<and> \<not> PAGE_SIZE < used s + ROUND_UP n MIN_ALIGNED_SIZE) ns s"
  using assms
proof (induction ns arbitrary: s)
  case Nil
  then show ?case by simp
next
  case (Cons n ns)
  have fit: "unat (used s) + rounded n \<le> 4096" using Cons.prems(2) by simp
  from stay [OF Cons.prems(1) page_limit(1) [OF fit], of page]
  obtain s' where s': "alloc page n s = Inr (head s, s')" "inv s'"
    "used s' = used s + ROUND_UP n MIN_ALIGNED_SIZE" by blast
  have "unat (used s') + rounded_total ns \<le> 4096"
    using s'(3) page_limit(2) [OF fit] Cons.prems(2) by simp
  with Cons.IH [OF s'(2)] s'(1) Cons.prems(1) page_limit(1) [OF fit] show ?case by simp
qed

text \<open>
  The miscount: the request that turns the page is not counted, so the page is believed to
  hold \<open>PAGE_SIZE\<close> more bytes behind it. A request that fits that count but not what is
  left of the page is served with a block that ends past the page.
\<close>

lemma overrun_after_turn:
  assumes "inv s" and "PAGE_SIZE < used s + ROUND_UP n MIN_ALIGNED_SIZE"
    and "rounded n \<le> 4096" and "unat page + 8192 < 2 ^ 64" and "page \<noteq> MAP_FAILED"
    and "rounded m \<le> 4096" and "4096 < rounded n + rounded m"
  shows "\<exists>s' s''. alloc page n s = Inr (page, s')
    \<and> alloc page' m s' = Inr (page + ROUND_UP n MIN_ALIGNED_SIZE, s'')
    \<and> unat page + 4096 < unat (page + ROUND_UP n MIN_ALIGNED_SIZE) + rounded m"
proof -
  from turn [OF assms(1,2,5)] obtain s' where s': "alloc page n s = Inr (page, s')" "inv s'"
    "head s' = page + ROUND_UP n MIN_ALIGNED_SIZE" "used s' = 0" by blast
  have "\<not> PAGE_SIZE < used s' + ROUND_UP m MIN_ALIGNED_SIZE"
    using s'(4) assms(6) by (intro page_limit) simp
  from stay [OF s'(2) this, of page'] obtain s''
    where "alloc page' m s' = Inr (head s', s'')" by blast
  moreover have "unat (page + ROUND_UP n MIN_ALIGNED_SIZE) = unat page + rounded n"
    using assms(3,4) by (simp add: unat_add_no_wrap unat_round_16)
  ultimately show ?thesis using s' assms(7) by auto
qed

text \<open>A request above the page size gets a single page all the same.\<close>

lemma oversize:
  assumes "inv s" and "4096 < rounded n" and "unat (used s) \<le> 4096"
    and "rounded n < 2 ^ 63" and "page \<noteq> MAP_FAILED"
  shows "\<exists>s'. alloc page n s = Inr (page, s') \<and> 4096 < rounded n"
proof -
  have "unat (used s + ROUND_UP n MIN_ALIGNED_SIZE) = unat (used s) + rounded n"
    using assms(3,4) by (simp add: unat_add_no_wrap unat_round_16)
  then have "PAGE_SIZE < used s + ROUND_UP n MIN_ALIGNED_SIZE"
    using assms(2) by (simp add: word_less_nat_alt PAGE_SIZE_def)
  from turn [OF assms(1) this assms(5)] assms(2) show ?thesis by blast
qed

end

end
