(* ===== verification/Private_Alloc.thy ===== *)
theory Private_Alloc
  imports Page_Arena
begin

text \<open>
  \<open>src/src/private_alloc.hh\<close>: the allocator behind the private version maps, the thread
  table and the log streams. Its state is the two file-level statics \<open>head_\<close> and \<open>used_\<close>, shared by every instance
  in a process. The result of \<open>mmap\<close> is an argument of the operations that may call it.
\<close>

record private_arena =
  head_p :: addr
  used_p :: u64

definition PageAllocate :: "addr \<Rightarrow> private_arena \<Rightarrow> exit_reason + private_arena" where
  "PageAllocate page a =
     (let a = a\<lparr>used_p := 0\<rparr>; a = a\<lparr>head_p := page\<rparr> in require (head_p a \<noteq> MAP_FAILED) a)"

text \<open>The default constructor takes a new page; copies and conversions do nothing.\<close>

definition PrivateAllocator :: "addr \<Rightarrow> private_arena \<Rightarrow> exit_reason + private_arena" where
  "PrivateAllocator page a = PageAllocate page a"

definition PrivateAllocator_copy :: "private_arena \<Rightarrow> private_arena" where
  "PrivateAllocator_copy a = a"

definition max_size :: "u64 \<Rightarrow> u64" where
  "max_size sizeof_T = (-1) div sizeof_T"

definition allocate ::
  "u64 \<Rightarrow> addr \<Rightarrow> u64 \<Rightarrow> private_arena \<Rightarrow> exit_reason + (addr \<times> private_arena)" where
  "allocate sizeof_T page num a =
     (let total_size = ROUND_UP (num * sizeof_T) MIN_ALIGNED_SIZE in
      bind_result
        (if PAGE_SIZE < used_p a + total_size then PageAllocate page a
         else Inr (a\<lparr>used_p := used_p a + total_size\<rparr>))
        (\<lambda>a. let ret = head_p a in Inr (ret, a\<lparr>head_p := head_p a + total_size\<rparr>)))"

definition deallocate :: "addr \<Rightarrow> u64 \<Rightarrow> private_arena \<Rightarrow> private_arena" where
  "deallocate p num a = a"

text \<open>Placement \<open>new\<close> of a value given by its bytes.\<close>

definition construct :: "addr \<Rightarrow> byte list \<Rightarrow> memory \<Rightarrow> memory" where
  "construct p bytes m =
     (\<lambda>a. if unat (a - p) < length bytes then bytes ! unat (a - p) else m a)"

text \<open>All instances are interchangeable.\<close>

definition PrivateAllocator_eq :: "'a \<Rightarrow> 'b \<Rightarrow> bool" where
  "PrivateAllocator_eq a b = True"

definition PrivateAllocator_neq :: "'a \<Rightarrow> 'b \<Rightarrow> bool" where
  "PrivateAllocator_neq a b = False"

text \<open>Requests counted in bytes: the code's \<open>allocate\<close> at \<open>sizeof(T) = 1\<close>.\<close>

interpretation pv: page_arena "allocate 1" head_p used_p "\<lambda>_. True"
  by unfold_locales (auto simp: allocate_def PageAllocate_def Let_def require_def)

section \<open>Properties\<close>

text \<open>
  Fresh from its constructor, the private allocator serves requests of up to a page in
  total with pairwise disjoint blocks that all lie in the page \<open>mmap\<close> returned.
\<close>

lemma private_blocks_in_page:
  assumes "PrivateAllocator page b = Inr a" and "unat page + 4096 < 2 ^ 64"
    and "rounded_total ns \<le> 4096" and "i < j" and "j < length ns"
    and "fst (alloc_run (\<lambda>s n. case allocate 1 page' n s of Inl e \<Rightarrow> (0, s) | Inr r \<Rightarrow> r) ns a) ! i = (p, m)"
    and "fst (alloc_run (\<lambda>s n. case allocate 1 page' n s of Inl e \<Rightarrow> (0, s) | Inr r \<Rightarrow> r) ns a) ! j = (q, n)"
  shows "region p m \<inter> region q n = {}
    \<and> unat page \<le> unat p \<and> unat p + unat m \<le> unat page + 4096"
proof -
  let ?run = "fst (alloc_run (\<lambda>s n. case allocate 1 page' n s of Inl e \<Rightarrow> (0, s) | Inr r \<Rightarrow> r) ns a)"
  have a: "head_p a = page" "used_p a = 0"
    using assms(1) by (auto simp: PrivateAllocator_def PageAllocate_def Let_def)
  have fits: "unat (used_p a) + rounded_total ns \<le> 4096" using a assms(3) by simp
  have top: "unat (head_p a) + rounded_total ns < 2 ^ 64" using a assms(2,3) by simp
  note run = pv.run_fits [OF TrueI fits, of page']
  have "(p, m) \<in> set ?run"
    using assms(4-6) nth_mem [of i ?run] by simp
  from pv.one_page.run_blocks [OF run top this] pv.one_page.run_disjoint [OF run top assms(4,5,6,7)]
    a assms(3) rounded_ge [of m]
  show ?thesis by simp
qed

text \<open>
  After the private allocator has turned to a new page it can hand out memory it does
  not own: the request that turned the page is missing from the count, so a later request that
  no longer fits the page is served from it and the block ends past the page's last byte.
\<close>

lemma private_overruns_page:
  assumes "4096 < unat (used_p a) + rounded n" and "unat (used_p a) \<le> 4096"
    and "rounded n \<le> 4096" and "unat page + 8192 < 2 ^ 64"
    and "rounded m \<le> 4096" and "4096 < rounded n + rounded m"
  shows "\<exists>a' a''. allocate 1 page n a = Inr (page, a')
    \<and> allocate 1 page' m a' = Inr (page + ROUND_UP n MIN_ALIGNED_SIZE, a'')
    \<and> unat page + 4096 < unat (page + ROUND_UP n MIN_ALIGNED_SIZE) + rounded m"
proof (rule pv.overrun_after_turn)
  have "unat (used_p a + ROUND_UP n MIN_ALIGNED_SIZE) = unat (used_p a) + rounded n"
    using assms(2,3) by (simp add: unat_add_no_wrap unat_round_16)
  then show "PAGE_SIZE < used_p a + ROUND_UP n MIN_ALIGNED_SIZE"
    using assms(1) by (simp add: word_less_nat_alt PAGE_SIZE_def)
  show "page \<noteq> MAP_FAILED" using assms(4) by (auto simp: MAP_FAILED_def)
qed (use assms in simp_all)

end
