(* ===== verification/Share_Alloc.thy ===== *)
theory Share_Alloc
  imports Page_Arena
begin

text \<open>
  \<open>src/src/share_alloc.hh\<close>: the allocator behind \<open>global_page_version\<close>. Its two statics
  are pointers, private to each process and copied by \<open>fork()\<close>, to cells of a mapping all
  processes share. A process's side of the allocator is the two pointers and the pages its
  address space maps; the cells are the shared side. A page obtained by \<open>mmap\<close> appears in
  the address space of the caller only: that is what \<open>mmap\<close> does, shared mapping or not,
  and it matters because the page's address is left where every process will read it.
\<close>

record share_proc =
  share_head :: addr
  share_used :: addr
  mapped :: "addr \<Rightarrow> bool"

record share_state =
  here :: share_proc
  cells :: "addr \<Rightarrow> u64"

abbreviation mmap_page :: "addr \<Rightarrow> share_proc \<Rightarrow> share_proc" where
  "mmap_page page s \<equiv> s\<lparr>mapped := (mapped s)(page := True)\<rparr>"

definition PageAllocate :: "addr \<Rightarrow> share_state \<Rightarrow> exit_reason + share_state" where
  "PageAllocate page s =
     (let s = s\<lparr>cells := (cells s)(share_used (here s) := 0)\<rparr>;
          s = s\<lparr>cells := (cells s)(share_head (here s) := page)\<rparr>
      in require (cells s (share_head (here s)) \<noteq> MAP_FAILED) (s\<lparr>here := mmap_page page (here s)\<rparr>))"

definition InitHead :: "addr \<Rightarrow> addr \<Rightarrow> share_state \<Rightarrow> exit_reason + share_state" where
  "InitHead head_buffer used_buffer s =
     (if head_buffer = MAP_FAILED then Inl Abort
      else
        let s = s\<lparr>here := (mmap_page head_buffer (here s))\<lparr>share_head := head_buffer\<rparr>,
                  cells := (cells s)(head_buffer := 0)\<rparr>
        in
        if used_buffer = MAP_FAILED then Inl Abort
        else Inr (s\<lparr>here := (mmap_page used_buffer (here s))\<lparr>share_used := used_buffer\<rparr>,
                    cells := (cells s)(used_buffer := 0)\<rparr>))"

definition ShareAllocator ::
  "addr \<Rightarrow> addr \<Rightarrow> addr \<Rightarrow> share_state \<Rightarrow> exit_reason + share_state" where
  "ShareAllocator head_buffer used_buffer page s =
     bind_result (InitHead head_buffer used_buffer s) (PageAllocate page)"

definition ShareAllocator_copy :: "share_state \<Rightarrow> share_state" where
  "ShareAllocator_copy s = s"

definition max_size :: "u64 \<Rightarrow> u64" where
  "max_size sizeof_T = (-1) div sizeof_T"

definition allocate ::
  "u64 \<Rightarrow> addr \<Rightarrow> u64 \<Rightarrow> share_state \<Rightarrow> exit_reason + (addr \<times> share_state)" where
  "allocate sizeof_T page num s =
     (let total_size = ROUND_UP (num * sizeof_T) MIN_ALIGNED_SIZE in
      bind_result
        (if PAGE_SIZE < cells s (share_used (here s)) + total_size then PageAllocate page s
         else Inr (s\<lparr>cells := (cells s)(share_used (here s)
                := cells s (share_used (here s)) + total_size)\<rparr>))
        (\<lambda>s. let ret = cells s (share_head (here s)) in
           Inr (ret, s\<lparr>cells := (cells s)(share_head (here s)
                := cells s (share_head (here s)) + total_size)\<rparr>)))"

definition deallocate :: "addr \<Rightarrow> u64 \<Rightarrow> share_state \<Rightarrow> share_state" where
  "deallocate p num s = s"

definition ShareAllocator_eq :: "'a \<Rightarrow> 'b \<Rightarrow> bool" where
  "ShareAllocator_eq a b = True"

definition ShareAllocator_neq :: "'a \<Rightarrow> 'b \<Rightarrow> bool" where
  "ShareAllocator_neq a b = False"

section \<open>The arena laws\<close>

text \<open>The two cells are distinct: they come from two mappings.\<close>

definition cells_apart :: "share_state \<Rightarrow> bool" where
  "cells_apart s \<longleftrightarrow> share_head (here s) \<noteq> share_used (here s)"

abbreviation head_cell :: "share_state \<Rightarrow> addr" where
  "head_cell s \<equiv> cells s (share_head (here s))"

abbreviation used_cell :: "share_state \<Rightarrow> u64" where
  "used_cell s \<equiv> cells s (share_used (here s))"

interpretation sh: page_arena "allocate 1" head_cell used_cell cells_apart
  by unfold_locales (auto simp: allocate_def PageAllocate_def cells_apart_def Let_def require_def)

lemma ShareAllocator_Inr:
  assumes "ShareAllocator hb ub page s0 = Inr s" and "hb \<noteq> ub"
  shows "cells_apart s" and "head_cell s = page" and "used_cell s = 0"
  using assms
  by (auto simp: ShareAllocator_def InitHead_def PageAllocate_def cells_apart_def Let_def
      split: if_splits)

lemma allocate_frame:
  assumes "allocate k page n s = Inr (p, s')"
  shows "share_head (here s') = share_head (here s)" and "share_used (here s') = share_used (here s)"
  using assms
  by (auto simp: allocate_def PageAllocate_def Let_def bind_result_Inr_iff split: if_splits)

text \<open>What a process holding a copy of the pointers sees after another one has allocated.\<close>

definition seen_by :: "share_proc \<Rightarrow> share_state \<Rightarrow> share_state" where
  "seen_by q s = s\<lparr>here := q\<rparr>"

lemma seen_by_simps [simp]:
  "here (seen_by q s) = q" "cells (seen_by q s) = cells s"
  by (simp_all add: seen_by_def)

section \<open>Properties\<close>

text \<open>
  Processes that share the allocator never receive overlapping blocks within a page:
  since the bump pointer and the count live in shared cells, what a second process (with the
  pointers it inherited) allocates after a first one continues where the first one stopped.
\<close>

lemma share_blocks_continue:
  assumes "cells_apart s" and "share_head q = share_head (here s)" and "share_used q = share_used (here s)"
    and "unat (used_cell s) + rounded n + rounded m \<le> 4096"
    and "unat (head_cell s) + rounded n + rounded m < 2 ^ 64"
    and "allocate 1 page n s = Inr (p, s')" and "allocate 1 page' m (seen_by q s') = Inr (p', s'')"
  shows "unat p' = unat p + rounded n \<and> region p n \<inter> region p' m = {}"
proof -
  have fit: "unat (used_cell s) + rounded n \<le> 4096" using assms(4) by simp
  from sh.stay [OF assms(1) sh.page_limit(1) [OF fit], of page] assms(6)
  have p: "p = head_cell s" and s': "cells_apart s'"
    "head_cell s' = head_cell s + ROUND_UP n MIN_ALIGNED_SIZE"
    "used_cell s' = used_cell s + ROUND_UP n MIN_ALIGNED_SIZE" by auto
  note ptrs = allocate_frame [OF assms(6)]
  have apart: "cells_apart (seen_by q s')"
    using assms(1-3) by (simp add: cells_apart_def)
  have fit': "unat (used_cell (seen_by q s')) + rounded m \<le> 4096"
    using s'(3) sh.page_limit(2) [OF fit] assms(3,4) ptrs by simp
  from sh.stay [OF apart sh.page_limit(1) [OF fit'], of page'] assms(7)
  have p': "p' = head_cell s + ROUND_UP n MIN_ALIGNED_SIZE"
    using s'(2) assms(2) ptrs by auto
  have "unat p' = unat p + rounded n"
    unfolding p p' using assms(5) by (simp add: unat_add_no_wrap unat_round_16)
  moreover have "region p n \<inter> region p' m = {}"
    using calculation p assms(5) rounded_ge [of n] rounded_ge [of m]
    by (intro blocks_apart) simp_all
  ultimately show ?thesis ..
qed

definition parent_view :: share_proc where
  "parent_view = \<lparr>share_head = 0x100, share_used = 0x200, mapped = (\<lambda>a. a \<in> {0x100, 0x200, 0x3000})\<rparr>"

definition sample_share :: share_state where
  "sample_share = \<lparr>here = parent_view, cells = (\<lambda>_. 0)(0x100 := 0x3000)\<rparr>"

lemma sample_apart: "cells_apart sample_share"
  by (simp add: cells_apart_def sample_share_def parent_view_def)

text \<open>
  C36: A page the shared allocator turns to after the processes have forked belongs to the
  process that turned it alone, while the pointer to it is published in the shared cells: the
  next allocation of any other process returns an address that its address space does not map.
\<close>

theorem share_page_unmapped_elsewhere:
  assumes "cells_apart s" and "share_head q = share_head (here s)" and "share_used q = share_used (here s)"
    and "4096 < unat (used_cell s) + rounded n" and "unat (used_cell s) \<le> 4096"
    and "rounded n < 2048" and "rounded m < 2048"
    and "page \<noteq> MAP_FAILED" and "\<not> mapped q page"
    and "unat page + 4096 < 2 ^ 64"
  shows "\<exists>s' s'' p'. allocate 1 page n s = Inr (page, s')
    \<and> mapped (here s') page
    \<and> allocate 1 page' m (seen_by q s') = Inr (p', s'')
    \<and> p' \<in> region page PAGE_SIZE \<and> \<not> mapped (here s'') page"
proof -
  have turned: "PAGE_SIZE < used_cell s + ROUND_UP n MIN_ALIGNED_SIZE"
  proof -
    have "unat (used_cell s + ROUND_UP n MIN_ALIGNED_SIZE) = unat (used_cell s) + rounded n"
      using assms(5,6) by (simp add: unat_add_no_wrap unat_round_16)
    then show ?thesis using assms(4) by (simp add: word_less_nat_alt PAGE_SIZE_def)
  qed
  from sh.turn [OF assms(1) turned assms(8)] obtain s' where
    s': "allocate 1 page n s = Inr (page, s')" "cells_apart s'"
      "head_cell s' = page + ROUND_UP n MIN_ALIGNED_SIZE" "used_cell s' = 0" by blast
  have mapped: "mapped (here s') page"
    using s'(1) turned
    by (auto simp: allocate_def PageAllocate_def Let_def bind_result_Inr_iff split: if_splits)
  note ptrs = allocate_frame [OF s'(1)]
  let ?t = "seen_by q s'"
  have apart: "cells_apart ?t" using assms(1-3) by (simp add: cells_apart_def)
  have fit: "unat (used_cell ?t) + rounded m \<le> 4096" using s'(4) assms(3,7) ptrs by simp
  from sh.stay [OF apart sh.page_limit(1) [OF fit], of page'] obtain s'' where
    s'': "allocate 1 page' m ?t = Inr (head_cell ?t, s'')" by blast
  have p': "unat (head_cell ?t) = unat page + rounded n"
    using s'(3) assms(2,6,10) ptrs by (simp add: unat_add_no_wrap unat_round_16)
  have "head_cell ?t \<in> region page PAGE_SIZE"
    using p' assms(6,10) by (subst in_region_unat) (simp_all add: PAGE_SIZE_def)
  moreover have "here s'' = q"
    using s'' sh.page_limit(1) [OF fit]
    by (auto simp: allocate_def Let_def bind_result_Inr_iff)
  ultimately show ?thesis using s'(1) mapped s'' assms(9) by auto
qed

theorem share_page_unmapped_elsewhere_witness:
  "\<exists>s' s'' p'. allocate 1 0x8000 32 (sample_share\<lparr>cells := (\<lambda>_. 0)(0x100 := 0x4000, 0x200 := 4096)\<rparr>)
      = Inr (0x8000, s')
    \<and> mapped (here s') 0x8000
    \<and> allocate 1 0 32 (seen_by parent_view s') = Inr (p', s'')
    \<and> p' \<in> region 0x8000 PAGE_SIZE \<and> \<not> mapped (here s'') 0x8000"
  by (rule share_page_unmapped_elsewhere)
    (simp_all add: cells_apart_def sample_share_def parent_view_def rounded_def next_multiple_def
      MAP_FAILED_def)

end
