(* ===== verification/Gstm.thy ===== *)
theory Gstm
  imports Pages Version_Map Private_Alloc Share_Alloc "HOL-Library.Multiset"
begin

text \<open>
  The software transactional memory of \<open>src/src/gstm.cc\<close>. A process holds the version
  maps of its current atomic section and its private view of the heap; the shared side is the
  memory object behind the global heap, its page versions, the commit mutex and the rollback
  counter. Memory protection is per page, and the first two faults on a page tell reads from
  writes.

  What a private mapping shows of a page that the process has not written yet is left open by
  POSIX, so it is a parameter: a \<open>view_policy\<close> says which byte is seen, given the object's
  byte when the mapping was made and its byte now.
\<close>

section \<open>State\<close>

datatype prot = PROT_NONE | PROT_READ | PROT_READ_WRITE

text \<open>Protections are ordered by the accesses they let through.\<close>

instantiation prot :: linorder
begin

definition less_eq_prot :: "prot \<Rightarrow> prot \<Rightarrow> bool" where
  "p \<le> q \<longleftrightarrow> p = PROT_NONE \<or> q = PROT_READ_WRITE \<or> p = q"

definition less_prot :: "prot \<Rightarrow> prot \<Rightarrow> bool" where
  "(p :: prot) < q \<longleftrightarrow> p \<le> q \<and> p \<noteq> q"

instance
proof
  fix p q r :: prot
  show "p < q \<longleftrightarrow> p \<le> q \<and> \<not> q \<le> p" by (cases p; cases q) (simp_all add: less_eq_prot_def less_prot_def)
  show "p \<le> p" by (simp add: less_eq_prot_def)
  show "p \<le> r" if "p \<le> q" "q \<le> r" using that by (cases p; cases q; cases r) (simp_all add: less_eq_prot_def)
  show "p = q" if "p \<le> q" "q \<le> p" using that by (cases p; cases q) (simp_all add: less_eq_prot_def)
  show "p \<le> q \<or> q \<le> p" by (cases p; cases q) (simp_all add: less_eq_prot_def)
qed

end

lemma prot_less [simp]:
  "p < PROT_READ \<longleftrightarrow> p = PROT_NONE" "p < PROT_READ_WRITE \<longleftrightarrow> p \<noteq> PROT_READ_WRITE"
  by (cases p; simp add: less_prot_def less_eq_prot_def)+

type_synonym view_policy = "byte \<Rightarrow> byte \<Rightarrow> byte"

text \<open>
  The private mapping: \<open>copied pg\<close> says that the process has its own copy of page \<open>pg\<close>,
  whose bytes are then in \<open>own\<close>; \<open>base\<close> is the object when the mapping was made.
\<close>

record gproc =
  read_set_version :: version_map
  write_set_version :: version_map
  local_page_version :: version_map
  prot_of :: "addr \<Rightarrow> prot"
  copied :: "addr \<Rightarrow> bool"
  own :: memory
  base :: "u64 \<Rightarrow> byte"
  tid :: pid_t
  predecessor :: pid_t

record shared =
  global_page_version :: version_map
  shm :: "u64 \<Rightarrow> byte"
  mutex :: "pid_t option"
  rollback_count :: u64

section \<open>The private view of the heap\<close>

definition load :: "view_policy \<Rightarrow> heap_globals \<Rightarrow> shared \<Rightarrow> gproc \<Rightarrow> addr \<Rightarrow> byte" where
  "load vp G sh p a =
     (if copied p (page_of a) then own p a
      else vp (base p (a - local_heap G)) (shm sh (a - local_heap G)))"

text \<open>A store to a page without a copy makes one of the whole page first.\<close>

definition store :: "view_policy \<Rightarrow> heap_globals \<Rightarrow> shared \<Rightarrow> addr \<Rightarrow> byte \<Rightarrow> gproc \<Rightarrow> gproc" where
  "store vp G sh a v p =
     (let page = page_of a;
          own' = (\<lambda>x. if page_of x = page then load vp G sh p x else own p x)
      in p\<lparr>own := own'(a := v), copied := (copied p)(page := True)\<rparr>)"

section \<open>Initialisation\<close>

text \<open>
  What the system calls return, in the order of the code. A map is constructed in the mapping
  \<open>..._at\<close>; its allocator's constructor maps a page of its own (\<open>..._page\<close>), the shared
  one also the cells for its head and its count.
\<close>

record init_calls =
  sigaction_ok :: bool
  mutex_at :: addr
  mutexattr_init_ok :: bool
  setpshared_ok :: bool
  mutex_init_ok :: bool
  mutexattr_destroy_ok :: bool
  reads_at :: addr
  reads_page :: addr
  writes_at :: addr
  writes_page :: addr
  locals_at :: addr
  locals_page :: addr
  versions_at :: addr
  share_head_at :: addr
  share_used_at :: addr
  share_page :: addr
  counter_at :: addr

text \<open>The two allocators, the process, and what all processes share.\<close>

type_synonym init_state = "(private_arena \<times> share_state) \<times> gproc \<times> shared"

definition SetupInterProcessMutex :: "init_calls \<Rightarrow> shared \<Rightarrow> exit_reason + shared" where
  "SetupInterProcessMutex c sh =
     (if mutex_at c = MAP_FAILED then Inl Abort
      else if \<not> mutexattr_init_ok c then Inl Abort
      else if \<not> setpshared_ok c then Inl Abort
      else if \<not> mutex_init_ok c then Inl Abort
      else
        let sh = sh\<lparr>mutex := None\<rparr> in
        if \<not> mutexattr_destroy_ok c then Inl Abort else Inr sh)"

text \<open>Faults: the first access to a page is taken for a read, the second for a write.\<close>

definition HandleReads :: "bool \<Rightarrow> addr \<Rightarrow> gproc \<Rightarrow> exit_reason + gproc" where
  "HandleReads mprotect_ok page p =
     (let version_num = (case vm_find (local_page_version p) page of None \<Rightarrow> 0 | Some v \<Rightarrow> v);
          p = p\<lparr>read_set_version := vm_assign page version_num (read_set_version p)\<rparr>
      in require mprotect_ok (p\<lparr>prot_of := (prot_of p)(page := PROT_READ)\<rparr>))"

definition HandleWrites :: "bool \<Rightarrow> addr \<Rightarrow> gproc \<Rightarrow> exit_reason + gproc" where
  "HandleWrites mprotect_ok page p =
     (let version_num = (case vm_find (local_page_version p) page of None \<Rightarrow> 1 | Some v \<Rightarrow> v + 1);
          p = p\<lparr>write_set_version := vm_assign page version_num (write_set_version p)\<rparr>
      in require mprotect_ok (p\<lparr>prot_of := (prot_of p)(page := PROT_READ_WRITE)\<rparr>))"

text \<open>Both branches of the membership test return, so the test after them is never reached.\<close>

definition SegfaultHandler ::
  "heap_globals \<Rightarrow> bool \<Rightarrow> addr \<Rightarrow> gproc \<Rightarrow> exit_reason + gproc" where
  "SegfaultHandler G mprotect_ok a p =
     (let page = ROUND_DOWN a PAGE_SIZE in
      if page < local_heap G \<or> local_heap G + HEAP_SIZE < page then Inl (UExit 1)
      else if vm_find (read_set_version p) page \<noteq> None then HandleWrites mprotect_ok page p
      else HandleReads mprotect_ok page p)"

text \<open>
  A new map is empty; what its constructor does besides is to construct its allocator, before
  anything is written to the map. \<open>InitMapping\<close> constructs the read set before it checks its
  mapping, so if that failed (and the allocator's page did not) the map is written to
  \<open>MAP_FAILED\<close>, and the handler installed just before ends the process.
\<close>

definition InitMapping :: "heap_globals \<Rightarrow> init_calls \<Rightarrow> init_state \<Rightarrow> exit_reason + init_state" where
  "InitMapping G c st =
     (let ((arena, share), p, sh) = st in
      bind_result (PrivateAllocator (reads_page c) arena) (\<lambda>arena.
      if reads_at c = MAP_FAILED
      then bind_result (SegfaultHandler G False MAP_FAILED p) (\<lambda>p. Inl Abort)
      else
        let p = p\<lparr>read_set_version := vm_clear\<rparr> in
        if writes_at c = MAP_FAILED then Inl Abort
        else bind_result (PrivateAllocator (writes_page c) arena) (\<lambda>arena.
          let p = p\<lparr>write_set_version := vm_clear\<rparr> in
          if locals_at c = MAP_FAILED then Inl Abort
          else bind_result (PrivateAllocator (locals_page c) arena) (\<lambda>arena.
            let p = p\<lparr>local_page_version := vm_clear\<rparr> in
            if versions_at c = MAP_FAILED then Inl Abort
            else bind_result (ShareAllocator (share_head_at c) (share_used_at c) (share_page c) share) (\<lambda>share.
              let sh = sh\<lparr>global_page_version := vm_clear\<rparr> in
              if counter_at c = MAP_FAILED then Inl Abort
              else Inr ((arena, share), p, sh\<lparr>rollback_count := 0\<rparr>))))))"

definition Initialize :: "heap_globals \<Rightarrow> init_calls \<Rightarrow> init_state \<Rightarrow> exit_reason + init_state" where
  "Initialize G c st =
     (if sigaction_ok c
      then
        let (allocators, p, sh) = st in
        bind_result (SetupInterProcessMutex c sh) (\<lambda>sh. InitMapping G c (allocators, p, sh))
      else Inl Abort)"

section \<open>Waiting for a predecessor\<close>

definition ECHILD :: int where
  "ECHILD = 10"

definition ESRCH :: int where
  "ESRCH = 3"

text \<open>
  The loop around \<open>kill(predecessor, 0)\<close>: each call succeeds (\<open>None\<close>) or sets
  \<open>errno\<close>; the list is the calls it makes, and the result is the error that ends the loop,
  \<open>None\<close> when it has not ended yet.
\<close>

fun kill_loop :: "int option list \<Rightarrow> int option" where
  "kill_loop [] = None"
| "kill_loop (None # calls) = kill_loop calls"
| "kill_loop (Some e # calls) = Some e"

text \<open>\<open>None\<close>: still waiting. The \<open>waitpid\<close> result and its \<open>errno\<close> are arguments.\<close>

definition WaitExited ::
  "pid_t \<Rightarrow> int \<Rightarrow> int \<Rightarrow> int option list \<Rightarrow> (exit_reason + unit) option" where
  "WaitExited pred ret errno kills =
     (if pred = 0 then Some (Inr ())
      else if ret \<noteq> int pred then
        (if errno = ECHILD then
           (case kill_loop kills of None \<Rightarrow> None | Some e \<Rightarrow> Some (Inr ()))
         else Some (Inl (UExit 0)))
      else Some (Inr ()))"

section \<open>Checking and committing\<close>

text \<open>The loop over the read set, with its early return.\<close>

fun consistent_loop :: "version_map \<Rightarrow> (addr \<times> u64) list \<Rightarrow> bool" where
  "consistent_loop global [] = True"
| "consistent_loop global ((page, v) # es) =
     (if vm_find global page \<noteq> None \<and> vm_find global page \<noteq> Some v then False
      else consistent_loop global es)"

definition IsHeapConsistent :: "shared \<Rightarrow> gproc \<Rightarrow> bool" where
  "IsHeapConsistent sh p = consistent_loop (global_page_version sh) (read_set_version p)"

text \<open>
  One iteration of the commit loop: the page is copied to its place in the global heap and
  its version recorded. The global heap maps the object from its first byte, so address
  \<open>global_heap + off\<close> is byte \<open>off\<close> of the object.
\<close>

definition CommitPage ::
  "view_policy \<Rightarrow> heap_globals \<Rightarrow> gproc \<Rightarrow> addr \<times> u64 \<Rightarrow> shared \<Rightarrow> shared" where
  "CommitPage vp G p e sh =
     (let (page, v) = e;
          offset = page - local_heap G;
          global_pos = global_heap G + offset;
          shm' = (\<lambda>off. let g = global_heap G + off in
            if g - global_pos < PAGE_SIZE then load vp G sh p (page + (g - global_pos))
            else shm sh off);
          sh = sh\<lparr>shm := shm'\<rparr>
      in sh\<lparr>global_page_version := vm_assign page v (global_page_version sh)\<rparr>)"

definition UpdateHeap ::
  "heap_globals \<Rightarrow> bool \<Rightarrow> addr \<Rightarrow> shared \<Rightarrow> gproc \<Rightarrow> exit_reason + gproc" where
  "UpdateHeap G munmap_ok mapped_at sh p =
     (if \<not> munmap_ok then Inl Abort
      else require (mapped_at = local_heap G)
        (p\<lparr>copied := (\<lambda>page. False), base := shm sh,
           prot_of := (\<lambda>page. if in_heap G page then PROT_READ_WRITE else prot_of p page)\<rparr>))"

text \<open>
  The whole commit: the shared state it leaves, and the process or how it ended. A failing
  \<open>msync\<close> or remapping ends the process after the shared state has been changed.
\<close>

definition CommitHeap ::
  "view_policy \<Rightarrow> heap_globals \<Rightarrow> bool \<Rightarrow> bool \<Rightarrow> addr \<Rightarrow> gproc \<Rightarrow> shared
    \<Rightarrow> shared \<times> (exit_reason + gproc)" where
  "CommitHeap vp G msync_ok munmap_ok mapped_at p sh =
     (let sh = fold (CommitPage vp G p) (write_set_version p) sh in
      (sh, if msync_ok then UpdateHeap G munmap_ok mapped_at sh p else Inl Abort))"

section \<open>Lemmas\<close>

named_theorems handler_simps \<open>what the fault handlers change and what they leave\<close>

lemma HandleReads_eq:
  "HandleReads ok page p = require ok
    (p\<lparr>read_set_version := vm_assign page (version_of (local_page_version p) page) (read_set_version p),
       prot_of := (prot_of p)(page := PROT_READ)\<rparr>)"
  by (simp add: HandleReads_def version_of_def Let_def)

lemma HandleWrites_eq:
  "HandleWrites ok page p = require ok
    (p\<lparr>write_set_version := vm_assign page (version_of (local_page_version p) page + 1) (write_set_version p),
       prot_of := (prot_of p)(page := PROT_READ_WRITE)\<rparr>)"
  by (simp add: HandleWrites_def version_of_def Let_def split: option.splits)

lemma HandleReads_Inr [handler_simps]:
  "HandleReads ok page p = Inr p' \<longleftrightarrow> ok \<and> p' =
    p\<lparr>read_set_version := vm_assign page (version_of (local_page_version p) page) (read_set_version p),
      prot_of := (prot_of p)(page := PROT_READ)\<rparr>"
  by (auto simp: HandleReads_eq)

lemma HandleWrites_Inr [handler_simps]:
  "HandleWrites ok page p = Inr p' \<longleftrightarrow> ok \<and> p' =
    p\<lparr>write_set_version := vm_assign page (version_of (local_page_version p) page + 1) (write_set_version p),
      prot_of := (prot_of p)(page := PROT_READ_WRITE)\<rparr>"
  by (auto simp: HandleWrites_eq)

lemma SegfaultHandler_Inr:
  assumes "SegfaultHandler G ok a p = Inr p'"
  obtains (reading) "vm_find (read_set_version p) (page_of a) = None" and "HandleReads ok (page_of a) p = Inr p'"
    | (writing) "vm_find (read_set_version p) (page_of a) \<noteq> None" and "HandleWrites ok (page_of a) p = Inr p'"
  using assms
  by (cases "vm_find (read_set_version p) (page_of a) = None")
    (auto simp: SegfaultHandler_def page_of_def Let_def split: if_splits)

lemma consistent_loop_iff:
  "consistent_loop g es \<longleftrightarrow> (\<forall>(page, v) \<in> set es. vm_find g page = None \<or> vm_find g page = Some v)"
  by (induction g es rule: consistent_loop.induct) auto

lemma consistent_version:
  assumes "IsHeapConsistent sh p" and "(page, v) \<in> set (read_set_version p)"
  shows "version_of (global_page_version sh) page = v \<or> vm_find (global_page_version sh) page = None"
  using assms by (auto simp: IsHeapConsistent_def consistent_loop_iff version_of_def)

text \<open>The bytes of the object, addressed through the local heap.\<close>

definition heap_view :: "heap_globals \<Rightarrow> shared \<Rightarrow> memory" where
  "heap_view G sh a = shm sh (a - local_heap G)"

lemma shm_heap_view: "shm sh off = heap_view G sh (local_heap G + off)"
  by (simp add: heap_view_def)

lemma load_heap_view:
  "load vp G sh p a = (if copied p (page_of a) then own p a
     else vp (base p (a - local_heap G)) (heap_view G sh a))"
  by (simp add: load_def heap_view_def)

lemma heap_view_CommitPage:
  assumes "page_of page = page"
  shows "heap_view G (CommitPage vp G p (page, v) sh) a
    = (if page_of a = page then load vp G sh p a else heap_view G sh a)"
proof -
  have "global_heap G + (a - local_heap G) - (global_heap G + (page - local_heap G)) = a - page"
    by simp
  then show ?thesis
    using near_page [OF assms, of a] by (simp add: heap_view_def CommitPage_def Let_def)
qed

lemma CommitPage_simps [simp]:
  "global_page_version (CommitPage vp G p (page, v) sh) = vm_assign page v (global_page_version sh)"
  "mutex (CommitPage vp G p e sh) = mutex sh"
  "rollback_count (CommitPage vp G p e sh) = rollback_count sh"
  by (simp_all add: CommitPage_def Let_def split: prod.splits)

lemma CommitPage_load_other:
  assumes "page_of page = page" and "page_of a \<noteq> page"
  shows "load vp G (CommitPage vp G p (page, v) sh) q a = load vp G sh q a"
  using heap_view_CommitPage [OF assms(1), of G vp p v sh a] assms(2) by (simp add: load_heap_view)

lemma commit_loop_heap:
  assumes "distinct (map fst es)" and "\<forall>(page, v) \<in> set es. page_of page = page"
  shows "heap_view G (fold (CommitPage vp G p) es sh) a
      = (if page_of a \<in> fst ` set es then load vp G sh p a else heap_view G sh a)"
  using assms
proof (induction es arbitrary: sh)
  case (Cons e es)
  obtain page v where e: "e = (page, v)" by (cases e)
  then have wf: "page_of page = page" "page \<notin> fst ` set es" using Cons.prems by auto
  show ?case
  proof (cases "page_of a = page")
    case True
    with Cons e wf show ?thesis by (simp add: heap_view_CommitPage)
  next
    case False
    with Cons e wf show ?thesis by (simp add: heap_view_CommitPage CommitPage_load_other)
  qed
qed simp

lemma commit_loop_versions:
  "global_page_version (fold (CommitPage vp G p) es sh)
    = fold (\<lambda>(page, v). vm_assign page v) es (global_page_version sh)"
  by (induction es arbitrary: sh) auto

lemma commit_loop_frame [simp]:
  "mutex (fold (CommitPage vp G p) es sh) = mutex sh"
  "rollback_count (fold (CommitPage vp G p) es sh) = rollback_count sh"
  by (induction es arbitrary: sh) simp_all

lemma UpdateHeap_Inr [handler_simps]:
  "UpdateHeap G ok mapped_at sh p = Inr p' \<longleftrightarrow> ok \<and> mapped_at = local_heap G \<and> p' =
    p\<lparr>copied := (\<lambda>page. False), base := shm sh,
      prot_of := (\<lambda>page. if in_heap G page then PROT_READ_WRITE else prot_of p page)\<rparr>"
  by (auto simp: UpdateHeap_def)

section \<open>Properties\<close>

text \<open>
  C18: The fault protocol. On an accessible page of the heap that the section has not touched,
  the first fault enters the page in the read set at the version the section started from and
  makes it readable; a second fault enters it in the write set at the next version and makes it
  writable. So a write to a fresh page is a read of it too.
\<close>

theorem fault_protocol:
  assumes "local_heap G \<le> page_of a" and "page_of a \<le> local_heap G + HEAP_SIZE"
    and "vm_find (read_set_version p) (page_of a) = None"
  shows "\<exists>p1 p2. SegfaultHandler G True a p = Inr p1 \<and> SegfaultHandler G True a p1 = Inr p2
    \<and> vm_find (read_set_version p1) = (vm_find (read_set_version p))
        (page_of a \<mapsto> version_of (local_page_version p) (page_of a))
    \<and> write_set_version p1 = write_set_version p
    \<and> prot_of p1 = (prot_of p)(page_of a := PROT_READ)
    \<and> read_set_version p2 = read_set_version p1
    \<and> vm_find (write_set_version p2) = (vm_find (write_set_version p))
        (page_of a \<mapsto> version_of (local_page_version p) (page_of a) + 1)
    \<and> prot_of p2 = (prot_of p)(page_of a := PROT_READ_WRITE)"
proof -
  have range: "\<not> page_of a < local_heap G" "\<not> local_heap G + HEAP_SIZE < page_of a"
    using assms(1,2) by (simp_all add: linorder_not_less)
  show ?thesis
    using range assms(3)
    by (simp add: SegfaultHandler_def page_of_def [symmetric] HandleReads_eq HandleWrites_eq
        require_def Let_def)
qed

definition fresh_gproc :: gproc where
  "fresh_gproc = \<lparr>read_set_version = [], write_set_version = [], local_page_version = [(0x7ffff7e82000, 4)],
     prot_of = (\<lambda>_. PROT_NONE), copied = (\<lambda>_. False), own = (\<lambda>_. 0), base = (\<lambda>_. 0),
     tid = 6642, predecessor = 0\<rparr>"

lemma sample_page: "page_of 0x7ffff7e82abc = 0x7ffff7e82000"
  by (simp add: page_of_def ROUND_DOWN_def PAGE_SIZE_def)

theorem fault_protocol_witness:
  "\<exists>p1 p2. SegfaultHandler sample_heap True 0x7ffff7e82abc fresh_gproc = Inr p1
    \<and> SegfaultHandler sample_heap True 0x7ffff7e82abc p1 = Inr p2
    \<and> vm_find (read_set_version p1) 0x7ffff7e82000 = Some 4
    \<and> vm_find (write_set_version p2) 0x7ffff7e82000 = Some 5"
  using fault_protocol [of sample_heap "0x7ffff7e82abc" fresh_gproc]
  by (auto simp: sample_page fresh_gproc_def sample_heap_def HEAP_SIZE_def version_of_def)

text \<open>
  Which faults the handler takes for accesses to the heap. It ends the process exactly for
  pages below or above the range it tests; the upper test is \<open>>\<close>, so the page just behind
  the last page of the heap passes it, and a fault there is entered in the read set (and, if the
  page's protection cannot be changed, aborts the process) instead of being reported.
\<close>

lemma handler_range:
  assumes "unat (local_heap G) + 524288 < 2 ^ 64" and "vm_find (read_set_version p) (page_of a) = None"
  shows "(SegfaultHandler G ok a p = Inl (UExit 1) \<longleftrightarrow>
      page_of a < local_heap G \<or> local_heap G + HEAP_SIZE < page_of a)
    \<and> (page_of a = local_heap G + HEAP_SIZE \<longrightarrow>
      \<not> in_heap G (page_of a) \<and> SegfaultHandler G ok a p = HandleReads ok (page_of a) p)"
proof (intro conjI impI)
  show "SegfaultHandler G ok a p = Inl (UExit 1) \<longleftrightarrow>
      page_of a < local_heap G \<or> local_heap G + HEAP_SIZE < page_of a"
    using assms(2)
    by (auto simp: SegfaultHandler_def page_of_def Let_def HandleReads_eq require_def split: if_splits)
next
  assume boundary: "page_of a = local_heap G + HEAP_SIZE"
  then show "\<not> in_heap G (page_of a)" by (simp add: in_heap_def)
  have "unat (local_heap G + HEAP_SIZE) = unat (local_heap G) + 524288"
    using assms(1) by (simp add: unat_add_no_wrap unat_HEAP_SIZE)
  then have "\<not> local_heap G + HEAP_SIZE < local_heap G" by (simp add: word_less_nat_alt)
  then show "SegfaultHandler G ok a p = HandleReads ok (page_of a) p"
    using assms(2) boundary by (simp add: SegfaultHandler_def page_of_def [symmetric] Let_def)
qed

text \<open>
  The consistency check. The loop with its early return finds the heap consistent exactly
  when every page of the read set is either unknown to the global versions (never committed) or
  at the version the section read.
\<close>

lemma heap_consistent_iff:
  assumes "vm_wf (read_set_version p)"
  shows "IsHeapConsistent sh p \<longleftrightarrow>
    (\<forall>page v. vm_find (read_set_version p) page = Some v \<longrightarrow>
      vm_find (global_page_version sh) page = None \<or> vm_find (global_page_version sh) page = Some v)"
  using assms vm.distinct_entries [OF assms]
  by (auto simp: IsHeapConsistent_def consistent_loop_iff)

definition sample_shared :: shared where
  "sample_shared = \<lparr>global_page_version = [(0x7ffff7e82000, 5)], shm = (\<lambda>_. 0), mutex = None,
     rollback_count = 0\<rparr>"

definition sample_section :: gproc where
  "sample_section = fresh_gproc\<lparr>read_set_version := [(0x7ffff7e83000, 0), (0x7ffff7e82000, 4)],
     write_set_version := [(0x7ffff7e83000, 1)], copied := (\<lambda>page. page = 0x7ffff7e83000),
     own := (\<lambda>_. 7)\<rparr>"

lemma CommitHeap_done:
  "CommitHeap vp G True True (local_heap G) p sh
    = (let sh' = fold (CommitPage vp G p) (write_set_version p) sh in
       (sh', Inr (p\<lparr>copied := (\<lambda>page. False), base := shm sh',
          prot_of := (\<lambda>page. if in_heap G page then PROT_READ_WRITE else prot_of p page)\<rparr>)))"
  by (simp add: CommitHeap_def UpdateHeap_def require_def Let_def)

lemma commit_heap_view:
  assumes "vm_wf (write_set_version p)" and "\<forall>page \<in> dom (vm_find (write_set_version p)). page_of page = page"
  shows "heap_view G (fold (CommitPage vp G p) (write_set_version p) sh) a
    = (if page_of a \<in> dom (vm_find (write_set_version p)) then load vp G sh p a else heap_view G sh a)"
proof -
  have dom: "dom (vm_find (write_set_version p)) = fst ` set (write_set_version p)"
    by (rule dom_map_of_conv_image_fst)
  have "\<forall>(page, v) \<in> set (write_set_version p). page_of page = page"
    using assms(2) unfolding dom by force
  with assms(1) show ?thesis
    unfolding dom vm_wf_def by (rule commit_loop_heap)
qed

text \<open>
  C16: What a commit does. When the system calls succeed, the shared heap afterwards is the
  committing process's view on the pages of its write set and unchanged on every other page;
  the version of each written page is the one in the write set, every other version, the mutex
  and the rollback counter are unchanged; and the process is left with no private copies, an
  accessible heap and a mapping made from the new contents.
\<close>

theorem commit_heap_effect:
  assumes "vm_wf (write_set_version p)"
    and "\<forall>page \<in> dom (vm_find (write_set_version p)). page_of page = page"
  shows "\<exists>sh' p'. CommitHeap vp G True True (local_heap G) p sh = (sh', Inr p')
    \<and> (\<forall>a. heap_view G sh' a
        = (if page_of a \<in> dom (vm_find (write_set_version p)) then load vp G sh p a else heap_view G sh a))
    \<and> vm_find (global_page_version sh')
        = vm_find (global_page_version sh) ++ vm_find (write_set_version p)
    \<and> mutex sh' = mutex sh \<and> rollback_count sh' = rollback_count sh
    \<and> (\<forall>a. load vp G sh' p' a = vp (heap_view G sh' a) (heap_view G sh' a))
    \<and> (\<forall>page. in_heap G page \<longrightarrow> prot_of p' page = PROT_READ_WRITE)"
  using assms
proof -
  let ?sh' = "fold (CommitPage vp G p) (write_set_version p) sh"
  have "vm_find (global_page_version ?sh')
      = vm_find (global_page_version sh) ++ vm_find (write_set_version p)"
    using assms(1) by (simp add: commit_loop_versions vm.find_assign_all vm_wf_def)
  moreover have "load vp G sh' (p\<lparr>copied := \<lambda>page. False, base := shm sh', prot_of := f\<rparr>) a
      = vp (heap_view G sh' a) (heap_view G sh' a)" for sh' f a
    by (simp add: load_def heap_view_def)
  ultimately show ?thesis
    unfolding CommitHeap_done Let_def
    by (intro exI conjI allI) (rule refl commit_heap_view assms | simp)+
qed

lemma sample_pages: "page_of 0x7ffff7e83000 = 0x7ffff7e83000"
  by (simp add: page_of_def ROUND_DOWN_def PAGE_SIZE_def)

lemma sample_section_wf:
  "vm_wf (write_set_version sample_section)"
  "\<forall>page \<in> dom (vm_find (write_set_version sample_section)). page_of page = page"
  by (simp_all add: sample_section_def vm_wf_def sample_pages)

theorem commit_heap_effect_witness:
  "\<exists>sh' p'. CommitHeap (\<lambda>b c. c) sample_heap True True (local_heap sample_heap)
        sample_section sample_shared = (sh', Inr p')
    \<and> heap_view sample_heap sh' 0x7ffff7e83000 = 7 \<and> heap_view sample_heap sh' 0x7ffff7e82000 = 0
    \<and> vm_find (global_page_version sh') 0x7ffff7e83000 = Some 1
    \<and> vm_find (global_page_version sh') 0x7ffff7e82000 = Some 5"
proof -
  obtain sh' p' where "CommitHeap (\<lambda>b c. c) sample_heap True True (local_heap sample_heap)
      sample_section sample_shared = (sh', Inr p')"
    and "\<And>a. heap_view sample_heap sh' a
        = (if page_of a \<in> dom (vm_find (write_set_version sample_section))
           then load (\<lambda>b c. c) sample_heap sample_shared sample_section a
           else heap_view sample_heap sample_shared a)"
    and "vm_find (global_page_version sh')
        = vm_find (global_page_version sample_shared) ++ vm_find (write_set_version sample_section)"
    using commit_heap_effect [OF sample_section_wf, of "\<lambda>b c. c" sample_heap sample_shared] by blast
  moreover have "page_of 0x7ffff7e82000 = 0x7ffff7e82000"
    by (simp add: page_of_def ROUND_DOWN_def PAGE_SIZE_def)
  ultimately show ?thesis
    by (simp add: sample_section_def sample_shared_def sample_pages load_def heap_view_def map_add_def)
qed

text \<open>
  C29: The order in which the unordered map yields the write set does not matter: two commits
  whose write sets have the same entries in another order leave the same heap and the same
  version of every page.
\<close>

theorem commit_order_irrelevant:
  assumes "vm_wf ws" and "\<forall>page \<in> fst ` set ws. page_of page = page" and "mset ws' = mset ws"
  shows "shm (fold (CommitPage vp G p) ws' sh) = shm (fold (CommitPage vp G p) ws sh)
    \<and> vm_find (global_page_version (fold (CommitPage vp G p) ws' sh))
      = vm_find (global_page_version (fold (CommitPage vp G p) ws sh))"
proof -
  have same: "set ws' = set ws" using assms(3) by (rule mset_eq_setD)
  have "mset (map fst ws') = mset (map fst ws)" using assms(3) by simp
  then have wf: "distinct (map fst ws')" "distinct (map fst ws)"
    using assms(1) mset_eq_imp_distinct_iff unfolding vm_wf_def by blast+
  have "map_of ws' = map_of ws" using wf same by (simp add: map_of_inject_set)
  then have "vm_find (global_page_version (fold (CommitPage vp G p) ws' sh))
      = vm_find (global_page_version (fold (CommitPage vp G p) ws sh))"
    using wf by (simp add: commit_loop_versions vm.find_assign_all)
  moreover have pages: "\<forall>(page, v) \<in> set ws. page_of page = page" using assms(2) by force
  have "heap_view G (fold (CommitPage vp G p) ws' sh) a
      = heap_view G (fold (CommitPage vp G p) ws sh) a" for a
    using wf pages by (simp add: commit_loop_heap [OF wf(1), unfolded same] commit_loop_heap [OF wf(2)])
  then have "shm (fold (CommitPage vp G p) ws' sh) = shm (fold (CommitPage vp G p) ws sh)"
    by (simp add: fun_eq_iff shm_heap_view [where G = G])
  ultimately show ?thesis by simp
qed

theorem commit_order_irrelevant_witness:
  "shm (fold (CommitPage (\<lambda>b c. c) sample_heap sample_section)
      [(0x7ffff7e82000, 6), (0x7ffff7e83000, 1)] sample_shared)
    = shm (fold (CommitPage (\<lambda>b c. c) sample_heap sample_section)
      [(0x7ffff7e83000, 1), (0x7ffff7e82000, 6)] sample_shared)"
proof -
  have page: "page_of 0x7ffff7e82000 = 0x7ffff7e82000"
    by (simp add: page_of_def ROUND_DOWN_def PAGE_SIZE_def)
  show ?thesis
    using commit_order_irrelevant [of "[(0x7ffff7e83000, 1), (0x7ffff7e82000, 6)]"
        "[(0x7ffff7e82000, 6), (0x7ffff7e83000, 1)]"]
    by (simp add: vm_wf_def sample_pages page add_mset_commute)
qed

lemma PrivateAllocator_outcome:
  "PrivateAllocator page a = (if page = MAP_FAILED then Inl Abort else Inr \<lparr>head_p = page, used_p = 0\<rparr>)"
  by (cases a) (simp add: PrivateAllocator_def Private_Alloc.PageAllocate_def require_def Let_def)

text \<open>The two cells of the shared allocator come from two mappings.\<close>

definition share_started :: "init_calls \<Rightarrow> share_state \<Rightarrow> share_state" where
  "share_started c s =
     \<lparr>here = \<lparr>share_head = share_head_at c, share_used = share_used_at c,
        mapped = (mapped (here s))(share_head_at c := True, share_used_at c := True, share_page c := True)\<rparr>,
      cells = (cells s)(share_used_at c := 0, share_head_at c := share_page c)\<rparr>"

lemma ShareAllocator_outcome:
  assumes "share_head_at c \<noteq> share_used_at c"
  shows "ShareAllocator (share_head_at c) (share_used_at c) (share_page c) s =
    (if MAP_FAILED \<in> {share_head_at c, share_used_at c, share_page c} then Inl Abort else Inr (share_started c s))"
  using assms
  by (auto simp: ShareAllocator_def InitHead_def Share_Alloc.PageAllocate_def require_def Let_def share_started_def
      fun_upd_twist)

lemma Initialize_outcome:
  assumes "share_head_at c \<noteq> share_used_at c"
  shows "Initialize G c ((pa, sa), p, sh) =
    (if \<not> sigaction_ok c \<or> mutex_at c = MAP_FAILED \<or> \<not> mutexattr_init_ok c \<or> \<not> setpshared_ok c \<or> \<not> mutex_init_ok c
        \<or> \<not> mutexattr_destroy_ok c \<or> reads_page c = MAP_FAILED then Inl Abort
     else if reads_at c = MAP_FAILED then bind_result (SegfaultHandler G False MAP_FAILED p) (\<lambda>p. Inl Abort)
     else if MAP_FAILED \<in> {writes_at c, writes_page c, locals_at c, locals_page c, versions_at c, share_head_at c,
        share_used_at c, share_page c, counter_at c} then Inl Abort
     else Inr ((\<lparr>head_p = locals_page c, used_p = 0\<rparr>, share_started c sa),
       p\<lparr>read_set_version := vm_clear, write_set_version := vm_clear, local_page_version := vm_clear\<rparr>,
       sh\<lparr>mutex := None, global_page_version := vm_clear, rollback_count := 0\<rparr>))"
  unfolding Initialize_def InitMapping_def PrivateAllocator_outcome ShareAllocator_outcome [OF assms]
  by (simp add: SetupInterProcessMutex_def Let_def)

text \<open>
  C39: Initialisation. It succeeds exactly when all its system calls do, those of the maps'
  allocators included, and then the three process-private maps and the shared one are empty, the
  mutex is free, the rollback counter is zero, and each allocator stands at the beginning of the
  page it mapped last. A failing call ends the process by \<open>abort\<close>, with one exception: the read set is
  constructed in its mapping before the mapping is checked, and the handler installed just before
  ends the process as if the program had made a stray access.
\<close>

theorem initialisation_outcome:
  assumes "share_head_at c \<noteq> share_used_at c" and "local_heap G + HEAP_SIZE < page_of MAP_FAILED"
  shows "Initialize G c ((pa, sa), p, sh) =
    (if sigaction_ok c \<and> mutexattr_init_ok c \<and> setpshared_ok c \<and> mutex_init_ok c \<and> mutexattr_destroy_ok c
        \<and> MAP_FAILED \<notin> {mutex_at c, reads_at c, reads_page c, writes_at c, writes_page c, locals_at c, locals_page c,
          versions_at c, share_head_at c, share_used_at c, share_page c, counter_at c}
     then Inr ((\<lparr>head_p = locals_page c, used_p = 0\<rparr>, share_started c sa),
       p\<lparr>read_set_version := vm_clear, write_set_version := vm_clear, local_page_version := vm_clear\<rparr>,
       sh\<lparr>mutex := None, global_page_version := vm_clear, rollback_count := 0\<rparr>)
     else if sigaction_ok c \<and> mutexattr_init_ok c \<and> setpshared_ok c \<and> mutex_init_ok c \<and> mutexattr_destroy_ok c
        \<and> MAP_FAILED \<notin> {mutex_at c, reads_page c} \<and> reads_at c = MAP_FAILED
     then Inl (UExit 1)
     else Inl Abort)"
proof -
  have "SegfaultHandler G False MAP_FAILED p = Inl (UExit 1)"
    using assms(2) by (simp add: SegfaultHandler_def page_of_def [symmetric])
  then show ?thesis by (auto simp: Initialize_outcome [OF assms(1)])
qed

definition sample_calls :: init_calls where
  "sample_calls = \<lparr>sigaction_ok = True, mutex_at = 0x1000, mutexattr_init_ok = True, setpshared_ok = True,
     mutex_init_ok = True, mutexattr_destroy_ok = True, reads_at = 0x2000, reads_page = 0x3000, writes_at = 0x4000,
     writes_page = 0x5000, locals_at = 0x6000, locals_page = 0x7000, versions_at = 0x8000, share_head_at = 0x9000,
     share_used_at = 0xa000, share_page = 0xb000, counter_at = 0xc000\<rparr>"

definition no_arena :: private_arena where
  "no_arena = \<lparr>head_p = 0, used_p = 0\<rparr>"

definition no_share :: share_state where
  "no_share = \<lparr>here = \<lparr>share_head = 0, share_used = 0, mapped = (\<lambda>a. False)\<rparr>, cells = (\<lambda>a. 0)\<rparr>"

theorem initialisation_outcome_witness:
  "Initialize sample_heap (sample_calls\<lparr>reads_at := MAP_FAILED\<rparr>) ((no_arena, no_share), fresh_gproc, sample_shared)
      = Inl (UExit 1)"
proof -
  have "local_heap sample_heap + HEAP_SIZE < page_of MAP_FAILED"
    by (simp add: sample_heap_def HEAP_SIZE_def page_of_def ROUND_DOWN_def PAGE_SIZE_def MAP_FAILED_def)
  moreover have "share_head_at (sample_calls\<lparr>reads_at := MAP_FAILED\<rparr>) \<noteq> share_used_at (sample_calls\<lparr>reads_at := MAP_FAILED\<rparr>)"
    by (simp add: sample_calls_def)
  ultimately show ?thesis
    using initialisation_outcome [of "sample_calls\<lparr>reads_at := MAP_FAILED\<rparr>" sample_heap no_arena no_share]
    by (simp add: sample_calls_def MAP_FAILED_def)
qed

end
