(* ===== verification/Stack_Context.thy ===== *)
theory Stack_Context
  imports Arena
begin

text \<open>
  \<open>src/src/stack_context.cc\<close>: saving and restoring a thread's stack and CPU state, the
  mechanism by which an atomic section is rolled back. The machine is the byte memory, the
  CPU state (an abstract type: \<open>getcontext\<close> and \<open>setcontext\<close> store and load it as a
  whole), and the variables of the file. \<open>getcontext\<close> returns a second time when
  \<open>setcontext\<close> is called on what it stored, so the code after it is a function of its
  own, entered from two places.
\<close>

section \<open>State\<close>

record 'cpu machine =
  ram :: memory
  cpu :: 'cpu
  first_time :: bool
  bottom_of_stack :: addr
  saved_state :: 'cpu
  saved_stack :: addr
  stack_size :: u64

section \<open>Finding the bottom of the stack\<close>

text \<open>
  What \<open>%p\<close> reads: white space, a sign, an optional \<open>0x\<close>, hexadecimal digits; the
  value saturates as \<open>strtoul\<close> does. \<open>(nil)\<close> is the null pointer.
\<close>

definition hex_digit :: "char \<Rightarrow> nat option" where
  "hex_digit c =
     (let n = of_char c :: nat in
      if 48 \<le> n \<and> n \<le> 57 then Some (n - 48)
      else if 97 \<le> n \<and> n \<le> 102 then Some (n - 87)
      else if 65 \<le> n \<and> n \<le> 70 then Some (n - 55)
      else None)"

fun scan_hex :: "nat \<Rightarrow> string \<Rightarrow> nat \<times> string" where
  "scan_hex acc [] = (acc, [])"
| "scan_hex acc (c # cs) =
     (case hex_digit c of
        None \<Rightarrow> (acc, c # cs)
      | Some d \<Rightarrow> scan_hex (acc * 16 + d) cs)"

definition is_space :: "char \<Rightarrow> bool" where
  "is_space c = (let n = of_char c :: nat in n = 32 \<or> (9 \<le> n \<and> n \<le> 13))"

definition scan_pointer :: "string \<Rightarrow> (addr \<times> string) option" where
  "scan_pointer input =
     (let cs = dropWhile is_space input in
      if take 5 cs = ''(nil)'' then Some (0, drop 5 cs)
      else
        let negative = (take 1 cs = ''-'');
            cs = (if take 1 cs = ''-'' \<or> take 1 cs = ''+'' then drop 1 cs else cs);
            cs = (if take 2 cs = ''0x'' \<or> take 2 cs = ''0X'' then drop 2 cs else cs)
        in
          if cs = [] \<or> hex_digit (hd cs) = None then None
          else
            let (n, rest) = scan_hex 0 cs in
            Some (if n \<ge> 2 ^ 64 then -1 else if negative then - of_nat n else of_nat n, rest))"

text \<open>\<open>sscanf(line, "%p-%p", &beginning, &end) == 2\<close>, with the two pointers read.\<close>

definition scan_range :: "string \<Rightarrow> (addr \<times> addr) option" where
  "scan_range line =
     (case scan_pointer line of
        None \<Rightarrow> None
      | Some (beginning, rest) \<Rightarrow>
          (if take 1 rest = ''-'' then
             (case scan_pointer (drop 1 rest) of
                None \<Rightarrow> None
              | Some (end_addr, _) \<Rightarrow> Some (beginning, end_addr))
           else None))"

definition stack_suffix :: string where
  "stack_suffix = ''[stack]'' @ [CHR 0x0A]"

text \<open>The loop over the lines of \<open>/proc/self/maps\<close>: the first stack line that scans ends it.\<close>

fun find_stack :: "string list \<Rightarrow> (addr \<times> addr) option" where
  "find_stack [] = None"
| "find_stack (line # lines) =
     (if length line \<ge> 8 \<and> drop (length line - 8) line = stack_suffix
      then (case scan_range line of Some r \<Rightarrow> Some r | None \<Rightarrow> find_stack lines)
      else find_stack lines)"

definition GetStackBottom :: "string list \<Rightarrow> 'cpu machine \<Rightarrow> exit_reason + 'cpu machine" where
  "GetStackBottom maps m =
     (case find_stack maps of
        None \<Rightarrow> Inl (Exit 3)
      | Some (beginning, end_addr) \<Rightarrow> Inr (m\<lparr>bottom_of_stack := end_addr\<rparr>))"

definition InitStackContext :: "string list \<Rightarrow> 'cpu machine \<Rightarrow> exit_reason + 'cpu machine" where
  "InitStackContext maps m =
     bind_result (GetStackBottom maps m) (\<lambda>m. Inr (m\<lparr>saved_stack := 0, first_time := True\<rparr>))"

section \<open>Saving\<close>

text \<open>\<open>buffer\<close> is what \<open>mmap\<close> returned; \<open>MAP_FAILED\<close> ends the process.\<close>

definition CompleteSave :: "addr \<Rightarrow> addr \<Rightarrow> 'cpu machine \<Rightarrow> exit_reason + 'cpu machine" where
  "CompleteSave buffer top_of_stack m =
     (let m = m\<lparr>stack_size := bottom_of_stack m - top_of_stack\<rparr>;
          m = m\<lparr>saved_stack := buffer\<rparr>
      in
        if saved_stack m = -1 then Inl (UExit 1)
        else
          let m = m\<lparr>ram := memset (ram m) (saved_stack m) 0 (ROUND_UP (stack_size m) PAGE_SIZE)\<rparr>
          in Inr (m\<lparr>ram := memcpy (ram m) (saved_stack m) top_of_stack (stack_size m)\<rparr>))"

text \<open>\<open>frame\<close> is \<open>__builtin_frame_address(0)\<close> of this call.\<close>

definition Phase2Save :: "addr \<Rightarrow> addr \<Rightarrow> 'cpu machine \<Rightarrow> exit_reason + 'cpu machine" where
  "Phase2Save buffer frame m = CompleteSave buffer frame (m\<lparr>first_time := False\<rparr>)"

text \<open>The part of \<open>SaveContext\<close> that runs after each return of \<open>getcontext\<close>.\<close>

definition after_getcontext :: "addr \<Rightarrow> addr \<Rightarrow> 'cpu machine \<Rightarrow> exit_reason + 'cpu machine" where
  "after_getcontext buffer frame m =
     (if first_time m then Phase2Save buffer frame m else Inr m)"

definition SaveContext :: "bool \<Rightarrow> addr \<Rightarrow> addr \<Rightarrow> 'cpu machine \<Rightarrow> exit_reason + 'cpu machine" where
  "SaveContext getcontext_ok buffer frame m =
     bind_result (require getcontext_ok (m\<lparr>first_time := True, saved_state := cpu m\<rparr>))
       (after_getcontext buffer frame)"

section \<open>Restoring\<close>

text \<open>
  \<open>CompleteRestore\<close> copies the stack back and loads the CPU state; control is then behind
  \<open>getcontext\<close> again. It runs with the stack pointer at \<open>sp\<close> or below: when the
  bytes it copies back reach below that address, it overwrites its own frame and that of
  \<open>memcpy\<close>, and what happens then is undefined.
\<close>

definition tramples :: "addr \<Rightarrow> 'cpu machine \<Rightarrow> bool" where
  "tramples sp m \<longleftrightarrow> bottom_of_stack m - stack_size m < sp"

definition CompleteRestore :: "addr \<Rightarrow> addr \<Rightarrow> addr \<Rightarrow> 'cpu machine \<Rightarrow> exit_reason + 'cpu machine" where
  "CompleteRestore buffer frame sp m =
     (if tramples sp m then Inl Undefined
      else
        let m = m\<lparr>ram := memcpy (ram m) (bottom_of_stack m - stack_size m) (saved_stack m) (stack_size m)\<rparr>;
            m = m\<lparr>cpu := saved_state m\<rparr>
        in after_getcontext buffer frame m)"

text \<open>
  How many bytes \<open>RestoreContext\<close> takes from the stack with \<open>alloca\<close>;
  \<open>own_frame\<close> is its \<open>__builtin_frame_address(0)\<close>.
\<close>

definition restore_padding :: "addr \<Rightarrow> 'cpu machine \<Rightarrow> u64" where
  "restore_padding own_frame m =
     (if bottom_of_stack m - own_frame < stack_size m
      then stack_size m - (bottom_of_stack m - own_frame)
      else 0)"

definition RestoreContext :: "addr \<Rightarrow> addr \<Rightarrow> addr \<Rightarrow> 'cpu machine \<Rightarrow> exit_reason + 'cpu machine" where
  "RestoreContext buffer frame own_frame m =
     CompleteRestore buffer frame (own_frame - restore_padding own_frame m) m"

section \<open>Properties\<close>

text \<open>The kernel's spelling of an address in \<open>/proc/self/maps\<close>.\<close>

definition hex_char :: "nat \<Rightarrow> char" where
  "hex_char d = char_of (if d < 10 then 48 + d else 87 + d)"

fun hex_string :: "nat \<Rightarrow> string" where
  "hex_string n = (if n < 16 then [hex_char n] else hex_string (n div 16) @ [hex_char (n mod 16)])"

declare hex_string.simps [simp del]

lemma hex_digit_char: "d < 16 \<Longrightarrow> hex_digit (hex_char d) = Some d"
  by (auto simp: hex_digit_def hex_char_def of_char_of)

lemma scan_hex_string:
  "scan_hex acc (hex_string n @ cs) = scan_hex (acc * 16 ^ length (hex_string n) + n) cs"
proof (induction n arbitrary: acc cs rule: hex_string.induct)
  case (1 n)
  show ?case
  proof (cases "n < 16")
    case True
    then show ?thesis by (simp add: hex_string.simps [of n] hex_digit_char)
  next
    case False
    have "scan_hex acc (hex_string n @ cs)
        = scan_hex (acc * 16 ^ length (hex_string (n div 16)) + n div 16) (hex_char (n mod 16) # cs)"
      using 1 [OF False] False by (simp add: hex_string.simps [of n])
    also have "\<dots> = scan_hex ((acc * 16 ^ length (hex_string (n div 16)) + n div 16) * 16 + n mod 16) cs"
      by (simp add: hex_digit_char)
    also have "(acc * 16 ^ length (hex_string (n div 16)) + n div 16) * 16 + n mod 16
        = acc * 16 ^ length (hex_string n) + n"
      using False by (simp add: hex_string.simps [of n] algebra_simps)
    finally show ?thesis .
  qed
qed

lemma of_hex_char: "d < 16 \<Longrightarrow> of_char (hex_char d) = (if d < 10 then 48 + d else 87 + d :: nat)"
  by (simp add: hex_char_def of_char_of)

lemma hex_char_neq:
  assumes "d < 16" and "of_char c \<in> {32, 40, 43, 45, 88, 120 :: nat}"
  shows "hex_char d \<noteq> c" and "\<not> is_space (hex_char d)"
  using assms of_hex_char [OF assms(1)] by (auto simp: is_space_def Let_def split: if_splits)

lemma hex_string_chars: "c \<in> set (hex_string n) \<Longrightarrow> \<exists>d<16. c = hex_char d"
proof (induction n rule: hex_string.induct)
  case (1 n)
  show ?case
  proof (cases "n < 16")
    case True
    with 1(2) show ?thesis by (auto simp: hex_string.simps [of n])
  next
    case False
    with 1(2) have "c \<in> set (hex_string (n div 16)) \<or> c = hex_char (n mod 16)"
      by (auto simp: hex_string.simps [of n])
    with 1(1) [OF False] show ?thesis by (auto intro: exI [of _ "n mod 16"])
  qed
qed

lemma hex_string_Cons: "\<exists>d cs. hex_string n = hex_char d # cs \<and> d < 16"
proof (cases "hex_string n")
  case Nil
  then show ?thesis by (simp add: hex_string.simps [of n] split: if_splits)
next
  case (Cons c cs)
  with hex_string_chars [of c n] show ?thesis by auto
qed

text \<open>No prefix of a printed address reads as \<open>0x\<close>.\<close>

lemma hex_string_no_prefix:
  assumes "c \<in> {CHR ''-'', CHR '' ''}" and "x \<in> {CHR ''x'', CHR ''X''}"
  shows "take 2 (hex_string n @ c # cs) \<noteq> [CHR ''0'', x]"
proof
  assume eq: "take 2 (hex_string n @ c # cs) = [CHR ''0'', x]"
  obtain d hs where hs: "hex_string n = hex_char d # hs" "d < 16" using hex_string_Cons by blast
  have "x = c \<or> x \<in> set hs" using eq hs(1) by (cases hs) auto
  moreover have "x \<noteq> c" using assms by auto
  ultimately obtain e where "e < 16" "x = hex_char e" using hex_string_chars [of x n] hs(1) by auto
  with hex_char_neq(1) [of e x] assms(2) show False by auto
qed

lemma scan_pointer_string:
  assumes "n < 2 ^ 64" and "c \<in> {CHR ''-'', CHR '' ''}"
  shows "scan_pointer (hex_string n @ c # cs) = Some (of_nat n, c # cs)"
proof -
  let ?s = "hex_string n @ c # cs"
  obtain d hs where hs: "hex_string n = hex_char d # hs" "d < 16" using hex_string_Cons by blast
  note neq = hex_char_neq [OF hs(2)]
  have space: "dropWhile is_space ?s = ?s" using hs(1) neq(2) [of "CHR '' ''"] by simp
  have signs: "take 5 ?s \<noteq> ''(nil)''" "take 1 ?s \<noteq> ''-''" "take 1 ?s \<noteq> ''+''"
    using hs(1) neq(1) [of "CHR ''(''"] neq(1) [of "CHR ''-''"] neq(1) [of "CHR ''+''"] by auto
  have prefix: "take 2 ?s \<noteq> ''0x''" "take 2 ?s \<noteq> ''0X''"
    using hex_string_no_prefix [OF assms(2)] by auto
  have first: "?s \<noteq> []" "hex_digit (hd ?s) \<noteq> None" using hs by (simp_all add: hex_digit_char)
  have "hex_digit c = None" using assms(2) by (auto simp: hex_digit_def)
  then have scan: "scan_hex 0 ?s = (n, c # cs)" by (simp add: scan_hex_string)
  show ?thesis
    unfolding scan_pointer_def Let_def space
    using signs prefix first scan assms(1) by (simp del: scan_hex.simps take_Suc_Cons)
qed

definition stack_line :: "nat \<Rightarrow> nat \<Rightarrow> string \<Rightarrow> string" where
  "stack_line lo hi middle = hex_string lo @ ''-'' @ hex_string hi @ '' '' @ middle @ stack_suffix"

definition names_stack :: "string \<Rightarrow> bool" where
  "names_stack line \<longleftrightarrow> length line \<ge> 8 \<and> drop (length line - 8) line = stack_suffix"

lemma find_stack_skip:
  "\<forall>l\<in>set ls. \<not> names_stack l \<Longrightarrow> find_stack (ls @ rest) = find_stack rest"
  by (induction ls) (auto simp: names_stack_def)

lemma stack_line_names: "names_stack (stack_line lo hi middle)"
  by (simp add: names_stack_def stack_line_def stack_suffix_def)

lemma scan_stack_line:
  assumes "lo < 2 ^ 64" and "hi < 2 ^ 64"
  shows "scan_range (stack_line lo hi middle) = Some (of_nat lo, of_nat hi)"
  using scan_pointer_string [OF assms(1), of "CHR ''-''" "hex_string hi @ '' '' @ middle @ stack_suffix"]
    scan_pointer_string [OF assms(2), of "CHR '' ''" "middle @ stack_suffix"]
  by (simp add: scan_range_def stack_line_def)

text \<open>
  C37: Finding the stack's bottom undoes the kernel's printing: on a line
  \<open>lo-hi ... [stack]\<close> of \<open>/proc/self/maps\<close> that follows lines which do not name the
  stack, initialisation records \<open>hi\<close>; without such a line the process exits with status 3.
\<close>

theorem stack_bottom_found:
  assumes "\<forall>l\<in>set before. \<not> names_stack l" and "lo < 2 ^ 64" and "hi < 2 ^ 64"
  shows "InitStackContext (before @ stack_line lo hi middle # rest) m
      = Inr (m\<lparr>bottom_of_stack := of_nat hi, saved_stack := 0, first_time := True\<rparr>)
    \<and> InitStackContext before m = Inl (Exit 3)"
proof -
  have "find_stack (before @ stack_line lo hi middle # rest) = Some (of_nat lo, of_nat hi)"
    using stack_line_names [of lo hi middle] scan_stack_line [OF assms(2,3), of middle]
    by (simp add: find_stack_skip [OF assms(1)] names_stack_def)
  moreover have "find_stack before = None"
    using find_stack_skip [OF assms(1), of "[]"] by simp
  ultimately show ?thesis by (simp add: InitStackContext_def GetStackBottom_def)
qed

definition sample_machine :: "u64 machine" where
  "sample_machine = \<lparr>ram = (\<lambda>a. word_of_int (uint a)), cpu = 11, first_time = True,
     bottom_of_stack = 0, saved_state = 0, saved_stack = 0, stack_size = 0\<rparr>"

theorem stack_bottom_found_witness:
  "InitStackContext ([''5000-6000 r-xp heap''] @ stack_line 0x7ffc0000 0x7ffc2000 ''rw-p '' # []) sample_machine
      = Inr (sample_machine\<lparr>bottom_of_stack := of_nat 0x7ffc2000, saved_stack := 0, first_time := True\<rparr>)
    \<and> InitStackContext [''5000-6000 r-xp heap''] sample_machine = Inl (Exit 3)"
  by (rule stack_bottom_found) (simp_all add: names_stack_def stack_suffix_def)

lemma SaveContext_Inr:
  assumes "SaveContext True buffer frame m = Inr m1"
    and "region buffer (ROUND_UP (bottom_of_stack m - frame) PAGE_SIZE)
      \<inter> region frame (bottom_of_stack m - frame) = {}"
  shows "stack_size m1 = bottom_of_stack m - frame" and "saved_stack m1 = buffer"
    and "saved_state m1 = cpu m" and "\<not> first_time m1" and "bottom_of_stack m1 = bottom_of_stack m"
    and "a - frame < bottom_of_stack m - frame \<Longrightarrow>
      memcpy (memset (ram m) buffer 0 (ROUND_UP (bottom_of_stack m - frame) PAGE_SIZE)) buffer frame
        (bottom_of_stack m - frame) (buffer + (a - frame)) = ram m a"
    and "ram m1 = memcpy (memset (ram m) buffer 0 (ROUND_UP (bottom_of_stack m - frame) PAGE_SIZE))
        buffer frame (bottom_of_stack m - frame)"
proof -
  show "memcpy (memset (ram m) buffer 0 (ROUND_UP (bottom_of_stack m - frame) PAGE_SIZE)) buffer frame
        (bottom_of_stack m - frame) (buffer + (a - frame)) = ram m a"
    if "a - frame < bottom_of_stack m - frame"
  proof -
    have "a \<notin> region buffer (ROUND_UP (bottom_of_stack m - frame) PAGE_SIZE)"
      using assms(2) that by (auto simp: disjoint_iff)
    with that show ?thesis by (simp add: mem_simps)
  qed
qed (use assms(1) in \<open>auto simp: SaveContext_def after_getcontext_def Phase2Save_def
    CompleteSave_def Let_def require_def split: if_splits\<close>)

text \<open>The padding takes the stack pointer to or below the lowest byte that is copied back.\<close>

lemma padding_suffices:
  assumes "unat own_frame \<le> unat (bottom_of_stack m)" and "unat (stack_size m) \<le> unat (bottom_of_stack m)"
  shows "\<not> tramples (own_frame - restore_padding own_frame m) m"
proof -
  have used: "unat (bottom_of_stack m - own_frame) = unat (bottom_of_stack m) - unat own_frame"
    using assms(1) by (rule unat_diff_no_wrap)
  have target: "unat (bottom_of_stack m - stack_size m) = unat (bottom_of_stack m) - unat (stack_size m)"
    using assms(2) by (rule unat_diff_no_wrap)
  show ?thesis
  proof (cases "bottom_of_stack m - own_frame < stack_size m")
    case True
    then have "restore_padding own_frame m = stack_size m - (bottom_of_stack m - own_frame)"
      by (simp add: restore_padding_def)
    then have "own_frame - restore_padding own_frame m = bottom_of_stack m - stack_size m"
      by (simp add: algebra_simps)
    then show ?thesis by (simp add: tramples_def)
  next
    case False
    then have "unat (stack_size m) \<le> unat (bottom_of_stack m - own_frame)"
      by (simp add: word_less_nat_alt)
    with used target False assms show ?thesis
      by (simp add: restore_padding_def tramples_def word_less_nat_alt)
  qed
qed

text \<open>What a restore that does not trample its frame leaves.\<close>

lemma restore_effect:
  assumes "SaveContext True buffer frame m = Inr m1"
    and "region buffer (ROUND_UP (bottom_of_stack m - frame) PAGE_SIZE)
      \<inter> region frame (bottom_of_stack m - frame) = {}"
    and "m2 = m1\<lparr>ram := ram', cpu := cpu'\<rparr>"
    and "\<forall>a \<in> region buffer (bottom_of_stack m - frame). ram' a = ram m1 a"
    and "\<not> tramples sp m2"
  shows "\<exists>m3. CompleteRestore buffer' frame' sp m2 = Inr m3
    \<and> (\<forall>a \<in> region frame (bottom_of_stack m - frame). ram m3 a = ram m a)
    \<and> (\<forall>a. a \<notin> region frame (bottom_of_stack m - frame) \<longrightarrow> ram m3 a = ram' a)
    \<and> m3 = m1\<lparr>ram := ram m3, cpu := cpu m\<rparr>"
proof -
  note save = SaveContext_Inr [OF assms(1,2)]
  let ?size = "bottom_of_stack m - frame"
  let ?ram = "memcpy ram' frame buffer ?size"
  have run: "CompleteRestore buffer' frame' sp m2 = Inr (m1\<lparr>ram := ?ram, cpu := cpu m\<rparr>)"
    using save(1-5) assms(3,5) by (simp add: CompleteRestore_def after_getcontext_def Let_def)
  have "?ram a = ram m a" if "a - frame < ?size" for a
  proof -
    have "?ram a = ram' (buffer + (a - frame))" using that by (simp add: mem_simps)
    also have "\<dots> = ram m1 (buffer + (a - frame))" using assms(4) that by simp
    also have "\<dots> = ram m a" using save(6) [OF that] save(7) by simp
    finally show ?thesis .
  qed
  with run show ?thesis by (simp add: mem_simps)
qed

text \<open>
  C19: Rolling back restores the thread. After \<open>SaveContext\<close>, whatever is written outside
  the saved copy before \<open>RestoreContext\<close>, and from whatever depth of the stack it is
  called (deeper or shallower than the saved top: the padding keeps its own frame out of the
  copied bytes), every byte of the stack between the saved top and the bottom is what it was,
  the CPU state is what it was, no other byte changes, and control comes out of
  \<open>SaveContext\<close> on the branch that saves nothing, with the copy still in place for the next
  rollback.
\<close>

theorem rollback_restores_thread:
  assumes "SaveContext True buffer frame m = Inr m1"
    and "region buffer (ROUND_UP (bottom_of_stack m - frame) PAGE_SIZE)
      \<inter> region frame (bottom_of_stack m - frame) = {}"
    and "m2 = m1\<lparr>ram := ram', cpu := cpu'\<rparr>"
    and "\<forall>a \<in> region buffer (bottom_of_stack m - frame). ram' a = ram m1 a"
    and "frame \<le> bottom_of_stack m" and "own_frame \<le> bottom_of_stack m"
  shows "\<exists>m3. RestoreContext buffer' frame' own_frame m2 = Inr m3
    \<and> (\<forall>a \<in> region frame (bottom_of_stack m - frame). ram m3 a = ram m a)
    \<and> (\<forall>a. a \<notin> region frame (bottom_of_stack m - frame) \<longrightarrow> ram m3 a = ram' a)
    \<and> m3 = m1\<lparr>ram := ram m3, cpu := cpu m\<rparr>"
proof -
  note save = SaveContext_Inr [OF assms(1,2)]
  have "\<not> tramples (own_frame - restore_padding own_frame m2) m2"
  proof (rule padding_suffices)
    show "unat own_frame \<le> unat (bottom_of_stack m2)"
      using assms(3,6) save(5) by (simp add: word_le_nat_alt)
    show "unat (stack_size m2) \<le> unat (bottom_of_stack m2)"
      using assms(3,5) save(1,5) by (simp add: word_le_nat_alt unat_diff_no_wrap)
  qed
  then show ?thesis unfolding RestoreContext_def by (rule restore_effect [OF assms(1-4)])
qed

definition running :: "u64 machine" where
  "running = sample_machine\<lparr>bottom_of_stack := 0x8000\<rparr>"

definition saved_running :: "u64 machine" where
  "saved_running = running\<lparr>first_time := False, saved_state := 11, stack_size := 0x100,
     saved_stack := 0x20000,
     ram := memcpy (memset (ram running) 0x20000 0 0x1000) 0x20000 0x7f00 0x100\<rparr>"

theorem rollback_restores_thread_witness:
  "\<exists>m3. RestoreContext 0 0 0x7fc0 (saved_running\<lparr>ram := (ram saved_running)(0x7f10 := 99), cpu := 5\<rparr>) = Inr m3
    \<and> (\<forall>a \<in> region 0x7f00 (bottom_of_stack running - 0x7f00). ram m3 a = ram running a)
    \<and> (\<forall>a. a \<notin> region 0x7f00 (bottom_of_stack running - 0x7f00)
        \<longrightarrow> ram m3 a = ((ram saved_running)(0x7f10 := 99)) a)
    \<and> m3 = saved_running\<lparr>ram := ram m3, cpu := cpu running\<rparr>"
proof (rule rollback_restores_thread [OF _ _ refl])
  show "SaveContext True 0x20000 0x7f00 running = Inr saved_running"
    by (simp add: SaveContext_def after_getcontext_def Phase2Save_def CompleteSave_def Let_def
        running_def saved_running_def sample_machine_def ROUND_UP_def PAGE_SIZE_def require_def)
  have "region 0x7f00 0x100 \<inter> region 0x20000 (0x1000 :: u64) = ({} :: addr set)"
    by (rule blocks_apart) simp_all
  then show "region 0x20000 (ROUND_UP (bottom_of_stack running - 0x7f00) PAGE_SIZE)
      \<inter> region 0x7f00 (bottom_of_stack running - 0x7f00) = {}"
    by (auto simp: running_def ROUND_UP_def PAGE_SIZE_def)
  show "\<forall>a \<in> region 0x20000 (bottom_of_stack running - 0x7f00).
      ((ram saved_running)(0x7f10 := 99)) a = ram saved_running a"
    by (auto simp: running_def)
qed (simp_all add: running_def)

end
