(* ===== verification/GThread.thy ===== *)
theory GThread
  imports Gstm Stack_Context
begin

text \<open>
  The thread runtime of \<open>src/src/gthread.cc\<close>, as one process executes it: atomic sections
  begin, end, commit and roll back; threads are created by forking between two sections and
  joined between two sections. What the system calls return is a record argument; the shared
  state a section sees while it holds the mutex is an argument too, so that other processes may
  change it in between (the interleavings are the subject of \<open>Processes\<close>).
\<close>

section \<open>State\<close>

record os =
  getcontext_ok :: bool
  stack_copy :: addr
  frame :: addr
  restore_frame :: addr
  mprotect_ok :: bool
  madvise_ok :: bool
  munmap_ok :: bool
  mapped_at :: addr
  msync_ok :: bool
  wait_ret :: int
  wait_errno :: int
  kills :: "int option list"

type_synonym 'cpu thread_state = "gproc \<times> 'cpu machine"

text \<open>\<open>Initialize\<close> of a thread: \<open>InitGThread\<close>.\<close>

definition InitGThread ::
  "heap_globals \<Rightarrow> pid_t \<Rightarrow> init_calls \<Rightarrow> string list
    \<Rightarrow> (private_arena \<times> share_state) \<times> 'cpu thread_state \<times> shared
    \<Rightarrow> exit_reason + ((private_arena \<times> share_state) \<times> 'cpu thread_state \<times> shared)" where
  "InitGThread G pid calls maps st =
     (let (allocators, (p, m), sh) = st; p = p\<lparr>tid := pid\<rparr> in
      bind_result (Initialize G calls (allocators, p, sh))
        (\<lambda>(allocators, p, sh). bind_result (InitStackContext maps m) (\<lambda>m. Inr (allocators, (p, m), sh))))"

section \<open>Beginning a section\<close>

definition clear_sets :: "gproc \<Rightarrow> gproc" where
  "clear_sets p = p\<lparr>read_set_version := vm_clear, write_set_version := vm_clear,
     local_page_version := vm_clear\<rparr>"

definition copy_versions :: "version_map \<Rightarrow> gproc \<Rightarrow> gproc" where
  "copy_versions global p = p\<lparr>local_page_version := fold vm_insert global (local_page_version p)\<rparr>"

definition protect_heap :: "heap_globals \<Rightarrow> gproc \<Rightarrow> gproc" where
  "protect_heap G p = p\<lparr>prot_of := (\<lambda>page. if in_heap G page then PROT_NONE else prot_of p page)\<rparr>"

text \<open>
  Everything in \<open>AtomicBegin\<close> behind \<open>SaveContext\<close>, which is also where a rollback comes
  out.
\<close>

definition begin_section :: "heap_globals \<Rightarrow> bool \<Rightarrow> shared \<Rightarrow> gproc \<Rightarrow> exit_reason + gproc" where
  "begin_section G ok sh p =
     (let p = clear_sets p;
          p = copy_versions (global_page_version sh) p
      in require ok (protect_heap G p))"

definition AtomicBegin ::
  "heap_globals \<Rightarrow> os \<Rightarrow> shared \<Rightarrow> 'cpu thread_state \<Rightarrow> exit_reason + 'cpu thread_state" where
  "AtomicBegin G env sh st =
     (let (p, m) = st in
      bind_result (SaveContext (getcontext_ok env) (stack_copy env) (frame env) m)
        (\<lambda>m. bind_result (begin_section G (mprotect_ok env) sh p) (\<lambda>p. Inr (p, m))))"

section \<open>Ending a section\<close>

definition nothing_accessed :: "gproc \<Rightarrow> bool" where
  "nothing_accessed p \<longleftrightarrow> read_set_version p = [] \<and> write_set_version p = []"

definition lock :: "pid_t \<Rightarrow> shared \<Rightarrow> shared" where
  "lock i sh = sh\<lparr>mutex := Some i\<rparr>"

definition unlock :: "shared \<Rightarrow> shared" where
  "unlock sh = sh\<lparr>mutex := None\<rparr>"

definition count_rollback :: "shared \<Rightarrow> shared" where
  "count_rollback sh = sh\<lparr>rollback_count := rollback_count sh + 1\<rparr>"

text \<open>
  The result of \<open>AtomicCommit\<close> is \<open>None\<close> while it still waits for the predecessor; a
  process that ends in the middle leaves the shared state as it is then, mutex included.
\<close>

definition AtomicCommit ::
  "view_policy \<Rightarrow> heap_globals \<Rightarrow> os \<Rightarrow> gproc \<Rightarrow> shared
    \<Rightarrow> shared \<times> (exit_reason + (bool \<times> gproc)) option" where
  "AtomicCommit vp G env p sh =
     (if nothing_accessed p then
        (sh, Some (bind_result (UpdateHeap G (munmap_ok env) (mapped_at env) sh p) (\<lambda>p. Inr (True, p))))
      else
        (case WaitExited (predecessor p) (wait_ret env) (wait_errno env) (kills env) of
           None \<Rightarrow> (sh, None)
         | Some (Inl e) \<Rightarrow> (sh, Some (Inl e))
         | Some (Inr _) \<Rightarrow>
             let sh = lock (tid p) sh in
             if IsHeapConsistent sh p then
               (case CommitHeap vp G (msync_ok env) (munmap_ok env) (mapped_at env) p sh of
                  (sh, Inl e) \<Rightarrow> (sh, Some (Inl e))
                | (sh, Inr p) \<Rightarrow> (unlock sh, Some (Inr (True, p))))
             else (unlock (count_rollback sh), Some (Inr (False, p)))))"

text \<open>\<open>madvise(MADV_DONTNEED)\<close> on a private mapping drops the private copies.\<close>

definition discard_copies :: "shared \<Rightarrow> gproc \<Rightarrow> gproc" where
  "discard_copies sh p = p\<lparr>copied := (\<lambda>page. False), base := shm sh\<rparr>"

definition AtomicAbort :: "os \<Rightarrow> shared \<Rightarrow> 'cpu thread_state \<Rightarrow> exit_reason + 'cpu thread_state" where
  "AtomicAbort env sh st =
     (let (p, m) = st in
      if madvise_ok env
      then bind_result (RestoreContext (stack_copy env) (frame env) (restore_frame env) m)
             (\<lambda>m. Inr (discard_copies sh p, m))
      else Inl Abort)"

text \<open>
  \<open>AtomicEnd\<close> returns to its caller, or the process is back inside \<open>AtomicBegin\<close>, which
  then runs to its end again.
\<close>

datatype ('a, 'b) control = Returned 'a | Restarted 'b

definition AtomicEnd ::
  "view_policy \<Rightarrow> heap_globals \<Rightarrow> os \<Rightarrow> 'cpu thread_state \<Rightarrow> shared
    \<Rightarrow> shared \<times> (exit_reason + ('cpu thread_state, 'cpu thread_state) control) option" where
  "AtomicEnd vp G env st sh =
     (let (p, m) = st in
      case AtomicCommit vp G env p sh of
        (sh, None) \<Rightarrow> (sh, None)
      | (sh, Some (Inl e)) \<Rightarrow> (sh, Some (Inl e))
      | (sh, Some (Inr (committed, p))) \<Rightarrow>
          if committed then (sh, Some (Inr (Returned (p, m))))
          else
            (sh, Some (bind_result (AtomicAbort env sh (p, m))
              (\<lambda>(p, m). bind_result (begin_section G (mprotect_ok env) sh p)
                (\<lambda>p. Inr (Restarted (p, m)))))))"

section \<open>Threads\<close>

text \<open>
  The two sides of \<open>fork\<close> in \<open>Create\<close>. \<open>no_order\<close> says whether \<open>NO_ORDER\<close> is
  defined: without it the child waits for the predecessor its parent had.
\<close>

definition parent_side :: "pid_t \<Rightarrow> gproc \<Rightarrow> gproc" where
  "parent_side child p = p\<lparr>predecessor := child\<rparr>"

definition child_side :: "bool \<Rightarrow> pid_t \<Rightarrow> gproc \<Rightarrow> gproc" where
  "child_side no_order self p =
     (let p = p\<lparr>tid := self\<rparr> in if no_order then p\<lparr>predecessor := 0\<rparr> else p)"

text \<open>
  \<open>Create\<close> behind its \<open>AtomicEnd\<close>: \<open>fork\<close> returned \<open>ret\<close>, in the process with id
  \<open>self\<close>. The parent gets the \<open>tid\<close> of the new thread's handle; the child goes on to
  call the start routine, and then ends its section and exits.
\<close>

datatype 'a forked = In_parent pid_t 'a | In_child 'a

definition fork_returned ::
  "bool \<Rightarrow> heap_globals \<Rightarrow> os \<Rightarrow> int \<Rightarrow> pid_t \<Rightarrow> shared \<Rightarrow> 'cpu thread_state
    \<Rightarrow> exit_reason + 'cpu thread_state forked" where
  "fork_returned no_order G env ret self sh st =
     (let (p, m) = st in
      if ret < 0 then Inl (Exit 1)
      else if ret > 0 then
        bind_result (AtomicBegin G env sh (parent_side (nat ret) p, m)) (\<lambda>st. Inr (In_parent (nat ret) st))
      else bind_result (AtomicBegin G env sh (child_side no_order self p, m)) (\<lambda>st. Inr (In_child st)))"

definition Create ::
  "bool \<Rightarrow> view_policy \<Rightarrow> heap_globals \<Rightarrow> os \<Rightarrow> int \<Rightarrow> pid_t \<Rightarrow> 'cpu thread_state \<Rightarrow> shared
    \<Rightarrow> shared \<times> (exit_reason + ('cpu thread_state forked, 'cpu thread_state) control) option" where
  "Create no_order vp G env ret self st sh =
     (case AtomicEnd vp G env st sh of
        (sh, None) \<Rightarrow> (sh, None)
      | (sh, Some (Inl e)) \<Rightarrow> (sh, Some (Inl e))
      | (sh, Some (Inr (Restarted st))) \<Rightarrow> (sh, Some (Inr (Restarted st)))
      | (sh, Some (Inr (Returned st))) \<Rightarrow>
          (sh, Some (bind_result (fork_returned no_order G env ret self sh st) (\<lambda>f. Inr (Returned f)))))"

text \<open>
  \<open>Join\<close>: \<open>env'\<close> holds what the calls of the second wait return, \<open>sh'\<close> the shared
  state when the next section begins.
\<close>

definition Join ::
  "view_policy \<Rightarrow> heap_globals \<Rightarrow> os \<Rightarrow> os \<Rightarrow> pid_t \<Rightarrow> 'cpu thread_state \<Rightarrow> shared \<Rightarrow> shared
    \<Rightarrow> shared \<times> (exit_reason + ('cpu thread_state, 'cpu thread_state) control) option" where
  "Join vp G env env' t st sh sh' =
     (case AtomicEnd vp G env st sh of
        (sh, None) \<Rightarrow> (sh, None)
      | (sh, Some (Inl e)) \<Rightarrow> (sh, Some (Inl e))
      | (sh, Some (Inr (Restarted st))) \<Rightarrow> (sh, Some (Inr (Restarted st)))
      | (sh, Some (Inr (Returned st))) \<Rightarrow>
          (case WaitExited t (wait_ret env') (wait_errno env') (kills env') of
             None \<Rightarrow> (sh, None)
           | Some (Inl e) \<Rightarrow> (sh, Some (Inl e))
           | Some (Inr _) \<Rightarrow>
               (sh', Some (bind_result (AtomicBegin G env' sh' st) (\<lambda>st. Inr (Returned st))))))"

section \<open>Lemmas\<close>

lemma begin_section_Inr [handler_simps]:
  "begin_section G ok sh p = Inr p' \<longleftrightarrow>
    ok \<and> p' = protect_heap G (copy_versions (global_page_version sh) (clear_sets p))"
  by (auto simp: begin_section_def Let_def)

lemma section_start_simps [simp]:
  "read_set_version (clear_sets p) = []" "write_set_version (clear_sets p) = []"
  "local_page_version (clear_sets p) = []" "copied (clear_sets p) = copied p"
  "prot_of (clear_sets p) = prot_of p" "own (clear_sets p) = own p" "base (clear_sets p) = base p"
  "read_set_version (copy_versions g p) = read_set_version p"
  "write_set_version (copy_versions g p) = write_set_version p"
  "copied (copy_versions g p) = copied p" "prot_of (copy_versions g p) = prot_of p"
  "own (copy_versions g p) = own p" "base (copy_versions g p) = base p"
  "read_set_version (protect_heap G p) = read_set_version p"
  "write_set_version (protect_heap G p) = write_set_version p"
  "local_page_version (protect_heap G p) = local_page_version p"
  "copied (protect_heap G p) = copied p" "own (protect_heap G p) = own p"
  "base (protect_heap G p) = base p"
  by (simp_all add: clear_sets_def copy_versions_def protect_heap_def vm_clear_def)

lemma section_start_ids [simp]:
  "tid (clear_sets p) = tid p" "predecessor (clear_sets p) = predecessor p"
  "tid (copy_versions g p) = tid p" "predecessor (copy_versions g p) = predecessor p"
  "tid (protect_heap G p) = tid p" "predecessor (protect_heap G p) = predecessor p"
  by (simp_all add: clear_sets_def copy_versions_def protect_heap_def)

lemma copied_versions:
  assumes "vm_wf global" and "local_page_version p = []"
  shows "vm_find (local_page_version (copy_versions global p)) = vm_find global"
  using vm.find_copy [OF assms(1)] assms(2) by (simp add: copy_versions_def vm_clear_def)

lemma prot_of_protect_heap [simp]:
  "prot_of (protect_heap G p) page = (if in_heap G page then PROT_NONE else prot_of p page)"
  by (simp add: protect_heap_def)

lemma lock_simps [simp]:
  "IsHeapConsistent (lock i sh) p = IsHeapConsistent sh p"
  "heap_view G (lock i sh) = heap_view G sh" "heap_view G (unlock sh) = heap_view G sh"
  "heap_view G (count_rollback sh) = heap_view G sh"
  "load vp G (lock i sh) p = load vp G sh p" "load vp G (unlock sh) p = load vp G sh p"
  "load vp G (count_rollback sh) p = load vp G sh p"
  "shm (lock i sh) = shm sh" "shm (unlock sh) = shm sh" "shm (count_rollback sh) = shm sh"
  "global_page_version (lock i sh) = global_page_version sh"
  "global_page_version (unlock sh) = global_page_version sh"
  "global_page_version (count_rollback sh) = global_page_version sh"
  "mutex (lock i sh) = Some i" "mutex (unlock sh) = None" "mutex (count_rollback sh) = mutex sh"
  "rollback_count (lock i sh) = rollback_count sh" "rollback_count (unlock sh) = rollback_count sh"
  "rollback_count (count_rollback sh) = rollback_count sh + 1"
  by (simp_all add: lock_def unlock_def count_rollback_def IsHeapConsistent_def load_def
      heap_view_def fun_eq_iff)

lemma CommitHeap_Inr:
  "CommitHeap vp G ok1 ok2 pos p sh = (sh', Inr p') \<longleftrightarrow>
    ok1 \<and> ok2 \<and> pos = local_heap G \<and> CommitHeap vp G True True (local_heap G) p sh = (sh', Inr p')"
  by (auto simp: CommitHeap_def UpdateHeap_def Let_def require_def split: if_splits)

text \<open>How \<open>AtomicCommit\<close> returns when the section has touched the heap.\<close>

lemma AtomicCommit_returns:
  assumes "AtomicCommit vp G env p sh = (sh', Some (Inr (committed, p')))" and "\<not> nothing_accessed p"
  obtains (commit) sh1 where "committed" and "IsHeapConsistent sh p"
      and "CommitHeap vp G True True (local_heap G) p (lock (tid p) sh) = (sh1, Inr p')"
      and "sh' = unlock sh1"
    | (rollback) "\<not> committed" and "\<not> IsHeapConsistent sh p"
      and "sh' = unlock (count_rollback (lock (tid p) sh))" and "p' = p"
proof (cases "IsHeapConsistent sh p")
  case True
  then obtain sh1 where "CommitHeap vp G (msync_ok env) (munmap_ok env) (mapped_at env) p
      (lock (tid p) sh) = (sh1, Inr p')" and "sh' = unlock sh1" and "committed"
    using assms by (auto simp: AtomicCommit_def Let_def split: option.splits sum.splits prod.splits)
  with True show ?thesis using commit iffD1 [OF CommitHeap_Inr] by blast
next
  case False
  with assms show ?thesis
    by (intro rollback) (auto simp: AtomicCommit_def Let_def split: option.splits sum.splits)
qed

section \<open>Properties\<close>

text \<open>
  C17: How a section starts. \<open>AtomicBegin\<close> leaves empty read and write sets, the page
  versions committed so far as the local versions, and every page of the heap inaccessible; so
  the first access to any page of the heap faults, and enters the page in the read set at its
  committed version.
\<close>

theorem section_starts_clean:
  assumes "begin_section G ok sh p = Inr p'" and "vm_wf (global_page_version sh)"
    and "heap_aligned G" and "in_heap G a"
  shows "nothing_accessed p'
    \<and> vm_find (local_page_version p') = vm_find (global_page_version sh)
    \<and> prot_of p' (page_of a) = PROT_NONE
    \<and> (\<exists>p1. SegfaultHandler G True a p' = Inr p1
      \<and> vm_find (read_set_version p1) = [page_of a \<mapsto> version_of (global_page_version sh) (page_of a)])"
proof -
  have p': "p' = protect_heap G (copy_versions (global_page_version sh) (clear_sets p))"
    using assms(1) by (simp add: begin_section_Inr)
  have versions: "vm_find (local_page_version p') = vm_find (global_page_version sh)"
    using copied_versions [OF assms(2), of "clear_sets p"] by (simp add: p')
  have page: "in_heap G (page_of a)" using assms(3,4) by (simp add: in_heap_page)
  have range: "\<not> page_of a < local_heap G" "\<not> local_heap G + HEAP_SIZE < page_of a"
    using in_heap_bounds [OF assms(3) page] by (simp_all add: linorder_not_less)
  have read: "read_set_version p' = []" by (simp add: p')
  have "SegfaultHandler G True a p' = HandleReads True (page_of a) p'"
    using range read by (simp add: SegfaultHandler_def page_of_def [symmetric] Let_def)
  then show ?thesis
    using versions page read by (simp add: HandleReads_eq require_def nothing_accessed_def version_of_def p')
qed

theorem section_starts_clean_witness:
  "\<exists>p1. SegfaultHandler sample_heap True 0x7ffff7e82abc
      (protect_heap sample_heap (copy_versions [(0x7ffff7e82000, 5)] (clear_sets sample_section))) = Inr p1
    \<and> vm_find (read_set_version p1) 0x7ffff7e82000 = Some 5"
proof -
  have "begin_section sample_heap True sample_shared sample_section = Inr
      (protect_heap sample_heap (copy_versions [(0x7ffff7e82000, 5)] (clear_sets sample_section)))"
    by (simp add: begin_section_Inr sample_shared_def)
  moreover have "vm_wf (global_page_version sample_shared)" by (simp add: sample_shared_def vm_wf_def)
  moreover have "heap_aligned sample_heap" "in_heap sample_heap 0x7ffff7e82abc"
    by (simp_all add: heap_aligned_def in_heap_def sample_heap_def HEAP_SIZE_def)
  ultimately obtain p1 where p1: "SegfaultHandler sample_heap True 0x7ffff7e82abc
      (protect_heap sample_heap (copy_versions [(0x7ffff7e82000, 5)] (clear_sets sample_section))) = Inr p1"
    "vm_find (read_set_version p1) = [page_of 0x7ffff7e82abc \<mapsto>
      version_of (global_page_version sample_shared) (page_of 0x7ffff7e82abc)]"
    using section_starts_clean [of sample_heap True sample_shared sample_section _ "0x7ffff7e82abc"] by blast
  then have "vm_find (read_set_version p1) 0x7ffff7e82000 = Some 5"
    by (simp only: sample_page) (simp add: sample_shared_def version_of_def)
  with p1(1) show ?thesis by blast
qed

text \<open>
  C15: What \<open>AtomicCommit\<close> decides. When it returns for a section that has touched the heap,
  it returns \<open>true\<close> exactly if the heap was consistent; then the pages of the write set hold
  the section's view and every other page is unchanged, and the rollback counter is unchanged.
  Otherwise no byte of the heap, no version and nothing in the process has changed and the
  rollback counter is one higher. Either way the mutex is free again.
\<close>

theorem commit_outcome:
  assumes "AtomicCommit vp G env p sh = (sh', Some (Inr (committed, p')))" and "\<not> nothing_accessed p"
    and "vm_wf (write_set_version p)"
    and "\<forall>page \<in> dom (vm_find (write_set_version p)). page_of page = page"
  shows "committed = IsHeapConsistent sh p \<and> mutex sh' = None
    \<and> (committed \<longrightarrow> rollback_count sh' = rollback_count sh
        \<and> (\<forall>a. heap_view G sh' a = (if page_of a \<in> dom (vm_find (write_set_version p))
            then load vp G sh p a else heap_view G sh a))
        \<and> vm_find (global_page_version sh')
            = vm_find (global_page_version sh) ++ vm_find (write_set_version p)
        \<and> (\<forall>page. \<not> copied p' page))
    \<and> (\<not> committed \<longrightarrow> rollback_count sh' = rollback_count sh + 1 \<and> p' = p
        \<and> shm sh' = shm sh \<and> global_page_version sh' = global_page_version sh)"
  using assms(1,2)
proof (cases rule: AtomicCommit_returns)
  case (commit sh1)
  have "sh1 = fold (CommitPage vp G p) (write_set_version p) (lock (tid p) sh)"
    and "\<forall>page. \<not> copied p' page"
    using commit(3) by (auto simp: CommitHeap_done Let_def)
  with commit(1,2,4) assms(3,4) show ?thesis
    by (simp add: commit_heap_view commit_loop_versions vm.find_assign_all vm_wf_def)
next
  case rollback
  then show ?thesis by simp
qed

definition calm :: os where
  "calm = \<lparr>getcontext_ok = True, stack_copy = 0x20000, frame = 0x7f00, restore_frame = 0x7fc0, mprotect_ok = True,
     madvise_ok = True, munmap_ok = True, mapped_at = 0x7ffff7e81000, msync_ok = True,
     wait_ret = 0, wait_errno = 0, kills = []\<rparr>"

lemma calm_calls: "madvise_ok calm" "mprotect_ok calm" "restore_frame calm = 0x7fc0"
  by (simp_all add: calm_def)

lemma sample_conflict: "\<not> IsHeapConsistent sample_shared sample_section"
  by (simp add: IsHeapConsistent_def sample_shared_def sample_section_def)

lemma sample_commit_fails:
  "AtomicCommit vp G calm sample_section sample_shared
    = (unlock (count_rollback (lock 6642 sample_shared)), Some (Inr (False, sample_section)))"
  using sample_conflict
  by (simp add: AtomicCommit_def nothing_accessed_def sample_section_def fresh_gproc_def
      WaitExited_def Let_def)

theorem commit_outcome_witness:
  "rollback_count (unlock (count_rollback (lock 6642 sample_shared))) = rollback_count sample_shared + 1"
proof -
  have "\<not> nothing_accessed sample_section" by (simp add: nothing_accessed_def sample_section_def)
  note commit_outcome [OF sample_commit_fails [of "\<lambda>b c. c" sample_heap] this sample_section_wf]
  then show ?thesis by blast
qed

text \<open>
  C28: A section that touched nothing gives up its private copies. With empty sets,
  \<open>AtomicEnd\<close> neither waits nor checks nor changes the shared state, and the process sees
  the shared heap afterwards on every page. That includes pages it holds copies of because they
  were written before the first section began: what initialisers wrote to the heap before
  \<open>main\<close> is lost in the first \<open>AtomicEnd\<close>.
\<close>

theorem untouched_section_drops_copies:
  assumes "nothing_accessed p" and "munmap_ok env" and "mapped_at env = local_heap G"
  shows "\<exists>p'. AtomicEnd vp G env (p, m) sh = (sh, Some (Inr (Returned (p', m))))
    \<and> (\<forall>a. load vp G sh p' a = vp (heap_view G sh a) (heap_view G sh a))"
  using assms
  by (simp add: AtomicEnd_def AtomicCommit_def UpdateHeap_def require_def load_def heap_view_def)

definition initialised :: gproc where
  "initialised = fresh_gproc\<lparr>copied := (\<lambda>page. page = 0x7ffff7e83000), own := (\<lambda>_. 7)\<rparr>"

theorem untouched_section_drops_copies_witness:
  "load (\<lambda>b c. c) sample_heap sample_shared initialised 0x7ffff7e83000 = 7
    \<and> (\<exists>p'. AtomicEnd (\<lambda>b c. c) sample_heap calm (initialised, sample_machine) sample_shared
        = (sample_shared, Some (Inr (Returned (p', sample_machine))))
      \<and> load (\<lambda>b c. c) sample_heap sample_shared p' 0x7ffff7e83000 = 0)"
proof -
  have "nothing_accessed initialised"
    by (simp add: nothing_accessed_def initialised_def fresh_gproc_def)
  then obtain p' where "AtomicEnd (\<lambda>b c. c) sample_heap calm (initialised, sample_machine) sample_shared
      = (sample_shared, Some (Inr (Returned (p', sample_machine))))"
    and "\<And>a. load (\<lambda>b c. c) sample_heap sample_shared p' a = heap_view sample_heap sample_shared a"
    using untouched_section_drops_copies [of initialised calm sample_heap "\<lambda>b c. c" sample_machine
        sample_shared]
    by (auto simp: calm_def sample_heap_def)
  moreover have "heap_view sample_heap sample_shared 0x7ffff7e83000 = 0"
    by (simp add: heap_view_def sample_shared_def)
  moreover have "load (\<lambda>b c. c) sample_heap sample_shared initialised 0x7ffff7e83000 = 7"
    by (simp add: load_def sample_pages initialised_def)
  ultimately show ?thesis by auto
qed

text \<open>
  C14: A rollback is a fresh start. Let \<open>AtomicBegin\<close> have succeeded from \<open>(p0, m0)\<close>,
  and let the section have run since: it may have changed the process's maps, copies and
  protections, the CPU state, and any memory outside the saved copy of the stack. When
  \<open>AtomicEnd\<close> restarts the section, the stack and the CPU state are those of the beginning,
  the sets are empty, no private copy is left, the heap is protected and the local versions are
  the committed ones: the process is where \<open>AtomicBegin\<close> would put it now. The shared heap
  is unchanged and the rollback counter is one higher.
\<close>

theorem rollback_is_restart:
  assumes "AtomicBegin G env0 sh0 (p0, m0) = Inr (p1, m1)"
    and "region (stack_copy env0) (ROUND_UP (bottom_of_stack m0 - frame env0) PAGE_SIZE)
      \<inter> region (frame env0) (bottom_of_stack m0 - frame env0) = {}"
    and "m = m1\<lparr>ram := ram', cpu := cpu'\<rparr>"
    and "\<forall>a \<in> region (stack_copy env0) (bottom_of_stack m0 - frame env0). ram' a = ram m1 a"
    and "AtomicEnd vp G env (p, m) sh = (sh', Some (Inr (Restarted (p', m'))))"
  shows "(\<forall>a \<in> region (frame env0) (bottom_of_stack m0 - frame env0). ram m' a = ram m0 a)
    \<and> cpu m' = cpu m0
    \<and> begin_section G True sh' (discard_copies sh' p) = Inr p'
    \<and> nothing_accessed p' \<and> (\<forall>page. \<not> copied p' page)
    \<and> shm sh' = shm sh \<and> rollback_count sh' = rollback_count sh + 1"
proof -
  have save: "SaveContext True (stack_copy env0) (frame env0) m0 = Inr m1"
    using assms(1) by (auto simp: AtomicBegin_def bind_result_Inr_iff SaveContext_def require_def
        split: if_splits)
  obtain committed q where commit: "AtomicCommit vp G env p sh = (sh', Some (Inr (committed, q)))"
    and restart: "\<not> committed"
    and abort: "bind_result (AtomicAbort env sh' (q, m))
        (\<lambda>(p, m). bind_result (begin_section G (mprotect_ok env) sh' p) (\<lambda>p. Inr (Restarted (p, m))))
      = (Inr (Restarted (p', m')) :: exit_reason + ('a thread_state, 'a thread_state) control)"
    using assms(5) by (auto simp: AtomicEnd_def split: prod.splits option.splits sum.splits if_splits)
  have touched: "\<not> nothing_accessed p"
    using commit restart by (auto simp: AtomicCommit_def bind_result_Inr_iff)
  have rolled: "q = p" "sh' = unlock (count_rollback (lock (tid p) sh))"
    using commit touched restart by (auto elim: AtomicCommit_returns)
  obtain m3 where m3: "RestoreContext (stack_copy env) (frame env) (restore_frame env) m = Inr m3"
      "begin_section G True sh' (discard_copies sh' p) = Inr p'" "m' = m3"
    using abort rolled(1)
    by (auto simp: AtomicAbort_def bind_result_Inr_iff begin_section_Inr split: if_splits)
  have "\<not> tramples (restore_frame env - restore_padding (restore_frame env) m) m"
    using m3(1) by (auto simp: RestoreContext_def CompleteRestore_def split: if_splits)
  then obtain m4 where "RestoreContext (stack_copy env) (frame env) (restore_frame env) m = Inr m4"
      "\<forall>a \<in> region (frame env0) (bottom_of_stack m0 - frame env0). ram m4 a = ram m0 a"
      "m4 = m1\<lparr>ram := ram m4, cpu := cpu m0\<rparr>"
    unfolding RestoreContext_def using restore_effect [OF save assms(2-4)] by blast
  then have "\<forall>a \<in> region (frame env0) (bottom_of_stack m0 - frame env0). ram m' a = ram m0 a"
      "cpu m' = cpu m0"
    using m3(1,3) by (auto, metis machine.select_convs(2) machine.surjective machine.update_convs(2))
  moreover have "nothing_accessed p'" "\<forall>page. \<not> copied p' page"
    using m3(2) by (auto simp: begin_section_Inr nothing_accessed_def discard_copies_def)
  ultimately show ?thesis using m3(2) rolled(2) by simp
qed

lemma sample_begin:
  "AtomicBegin sample_heap calm sample_shared (sample_section, running) = Inr
    (protect_heap sample_heap (copy_versions (global_page_version sample_shared) (clear_sets sample_section)),
     saved_running)"
  by (simp add: AtomicBegin_def begin_section_def calm_def Let_def require_def
      SaveContext_def after_getcontext_def Phase2Save_def CompleteSave_def
      running_def saved_running_def sample_machine_def ROUND_UP_def PAGE_SIZE_def)

lemma sample_regions:
  "region (stack_copy calm) (ROUND_UP (bottom_of_stack running - frame calm) PAGE_SIZE)
    \<inter> region (frame calm) (bottom_of_stack running - frame calm) = {}"
proof -
  have "region 0x7f00 0x100 \<inter> region 0x20000 (0x1000 :: u64) = ({} :: addr set)"
    by (rule blocks_apart) simp_all
  then show ?thesis by (auto simp: calm_def running_def ROUND_UP_def PAGE_SIZE_def)
qed

theorem rollback_is_restart_witness:
  "\<exists>sh' p' m'. AtomicEnd (\<lambda>b c. c) sample_heap calm
      (sample_section, saved_running\<lparr>ram := (ram saved_running)(0x7f10 := 99), cpu := 5\<rparr>) sample_shared
      = (sh', Some (Inr (Restarted (p', m'))))
    \<and> cpu m' = 11 \<and> rollback_count sh' = 1 \<and> nothing_accessed p'"
proof -
  let ?m = "saved_running\<lparr>ram := (ram saved_running)(0x7f10 := 99), cpu := 5\<rparr>"
  have kept: "\<forall>a \<in> region (stack_copy calm) (bottom_of_stack running - frame calm).
      ((ram saved_running)(0x7f10 := 99)) a = ram saved_running a"
    by (auto simp: calm_def running_def)
  obtain sh' p' m' where run: "AtomicEnd (\<lambda>b c. c) sample_heap calm (sample_section, ?m) sample_shared
      = (sh', Some (Inr (Restarted (p', m'))))"
    by (simp add: AtomicEnd_def sample_commit_fails AtomicAbort_def calm_calls RestoreContext_def
        CompleteRestore_def tramples_def restore_padding_def running_def sample_machine_def after_getcontext_def saved_running_def begin_section_def require_def Let_def)
  have "cpu running = 11" "rollback_count sample_shared = 0"
    by (simp_all add: running_def sample_machine_def sample_shared_def)
  then show ?thesis
    using rollback_is_restart [OF sample_begin sample_regions refl kept run] run by auto
qed

end
