(* ===== verification/Processes.thy ===== *)
theory Processes
  imports GThread
begin

text \<open>
  All processes of a running program, interleaved. Each process executes the code of
  \<open>gthread.cc\<close> in the steps that other processes can tell apart (one per access to shared
  state, per system call and per access of the program to the heap), built from the operations
  of \<open>GThread\<close> and \<open>Gstm\<close>. The program a thread runs is data: what it reads from the
  heap decides how it goes on. Its stack and registers are the rest of the program it has still
  to run, which is what saving and restoring the context saves and restores.
\<close>

section \<open>Programs\<close>

codatatype prog =
    Load addr "byte \<Rightarrow> prog"
  | Store addr byte prog
  | Spawn prog "pid_t \<Rightarrow> prog"
  | Await pid_t prog
  | Return
  | Quit

text \<open>The calls that end an atomic section.\<close>

definition ends_section :: "prog \<Rightarrow> bool" where
  "ends_section c = (case c of Spawn _ _ \<Rightarrow> True | Await _ _ \<Rightarrow> True | Return \<Rightarrow> True | _ \<Rightarrow> False)"

lemma ends_section_simps [simp]:
  "\<not> ends_section (Load a k)" "\<not> ends_section (Store a v c)" "ends_section (Spawn d e)"
  "ends_section (Await j c)" "ends_section Return" "\<not> ends_section Quit"
  by (simp_all add: ends_section_def)

section \<open>State\<close>

text \<open>
  Where a process is. \<open>Save\<close> to \<open>Protect\<close> are \<open>AtomicBegin\<close>, \<open>Entry\<close> to
  \<open>Unlock_Failed\<close> are \<open>AtomicCommit\<close>; \<open>Committing es\<close> is the loop of
  \<open>CommitHeap\<close> with the entries still to copy; \<open>After\<close> is the code behind
  \<open>AtomicEnd\<close>.
\<close>

datatype pc =
    Save | Clear | Lock | Copy_Versions | Unlock | Protect
  | Body
  | Entry | Wait | Commit_Lock | Check | Committing "(addr \<times> u64) list" | Unlock_Committed
  | Unlock_Failed | Abort_Section
  | After | Join_Wait

record thread =
  gp :: gproc
  pc :: pc
  cur :: prog
  ctx :: prog
  parent :: pid_t
  alive :: bool

record sys =
  procs :: "pid_t \<Rightarrow> thread option"
  shd :: shared
  reaped :: "pid_t set"

section \<open>Steps of one process\<close>

text \<open>
  The protection the next access of the program lacks, if it is an access to the heap.
\<close>

definition faults :: "heap_globals \<Rightarrow> gproc \<Rightarrow> prog \<Rightarrow> addr option" where
  "faults G p c =
     (case c of
        Load a k \<Rightarrow> if in_heap G a \<and> prot_of p (page_of a) < PROT_READ then Some a else None
      | Store a v k \<Rightarrow> if in_heap G a \<and> prot_of p (page_of a) < PROT_READ_WRITE then Some a else None
      | _ \<Rightarrow> None)"

text \<open>
  \<open>memcpy\<close> of a page is not atomic: other processes may see any part of the page copied.
\<close>

definition copy_part :: "view_policy \<Rightarrow> heap_globals \<Rightarrow> gproc \<Rightarrow> addr \<Rightarrow> addr set \<Rightarrow> shared \<Rightarrow> shared" where
  "copy_part vp G p page part sh =
     sh\<lparr>shm := (\<lambda>off. let a = local_heap G + off in
       if page_of a = page \<and> a \<in> part then load vp G sh p a else shm sh off)\<rparr>"

inductive tstep :: "heap_globals \<Rightarrow> view_policy \<Rightarrow> pid_t \<Rightarrow> thread \<times> shared \<Rightarrow> thread \<times> shared \<Rightarrow> bool"
  for G vp i where
  save: "pc t = Save \<Longrightarrow> tstep G vp i (t, sh) (t\<lparr>ctx := cur t, pc := Clear\<rparr>, sh)"
| clear: "pc t = Clear \<Longrightarrow> tstep G vp i (t, sh) (t\<lparr>gp := clear_sets (gp t), pc := Lock\<rparr>, sh)"
| lock: "pc t = Lock \<Longrightarrow> mutex sh = None \<Longrightarrow>
    tstep G vp i (t, sh) (t\<lparr>pc := Copy_Versions\<rparr>, lock i sh)"
| copy: "pc t = Copy_Versions \<Longrightarrow>
    tstep G vp i (t, sh) (t\<lparr>gp := copy_versions (global_page_version sh) (gp t), pc := Unlock\<rparr>, sh)"
| unlock: "pc t = Unlock \<Longrightarrow> tstep G vp i (t, sh) (t\<lparr>pc := Protect\<rparr>, unlock sh)"
| protect: "pc t = Protect \<Longrightarrow>
    tstep G vp i (t, sh) (t\<lparr>gp := protect_heap G (gp t), pc := Body\<rparr>, sh)"
| load: "pc t = Body \<Longrightarrow> cur t = Load a k \<Longrightarrow> in_heap G a \<Longrightarrow> faults G (gp t) (cur t) = None \<Longrightarrow>
    tstep G vp i (t, sh) (t\<lparr>cur := k (load vp G sh (gp t) a)\<rparr>, sh)"
| store: "pc t = Body \<Longrightarrow> cur t = Store a v c \<Longrightarrow> in_heap G a \<Longrightarrow> faults G (gp t) (cur t) = None \<Longrightarrow>
    tstep G vp i (t, sh) (t\<lparr>gp := store vp G sh a v (gp t), cur := c\<rparr>, sh)"
| fault: "pc t = Body \<Longrightarrow> faults G (gp t) (cur t) = Some a \<Longrightarrow>
    SegfaultHandler G True a (gp t) = Inr p' \<Longrightarrow> tstep G vp i (t, sh) (t\<lparr>gp := p'\<rparr>, sh)"
| quit: "pc t = Body \<Longrightarrow> cur t = Quit \<Longrightarrow> tstep G vp i (t, sh) (t\<lparr>alive := False\<rparr>, sh)"
| section_end: "pc t = Body \<Longrightarrow> ends_section (cur t) \<Longrightarrow> tstep G vp i (t, sh) (t\<lparr>pc := Entry\<rparr>, sh)"
| untouched: "pc t = Entry \<Longrightarrow> nothing_accessed (gp t) \<Longrightarrow>
    UpdateHeap G True (local_heap G) sh (gp t) = Inr p' \<Longrightarrow>
    tstep G vp i (t, sh) (t\<lparr>gp := p', pc := After\<rparr>, sh)"
| touched: "pc t = Entry \<Longrightarrow> \<not> nothing_accessed (gp t) \<Longrightarrow>
    tstep G vp i (t, sh) (t\<lparr>pc := Wait\<rparr>, sh)"
| commit_lock: "pc t = Commit_Lock \<Longrightarrow> mutex sh = None \<Longrightarrow>
    tstep G vp i (t, sh) (t\<lparr>pc := Check\<rparr>, lock i sh)"
| consistent: "pc t = Check \<Longrightarrow> IsHeapConsistent sh (gp t) \<Longrightarrow>
    tstep G vp i (t, sh) (t\<lparr>pc := Committing (write_set_version (gp t))\<rparr>, sh)"
| inconsistent: "pc t = Check \<Longrightarrow> \<not> IsHeapConsistent sh (gp t) \<Longrightarrow>
    tstep G vp i (t, sh) (t\<lparr>pc := Unlock_Failed\<rparr>, count_rollback sh)"
| copying: "pc t = Committing (e # es) \<Longrightarrow>
    tstep G vp i (t, sh) (t, copy_part vp G (gp t) (fst e) part sh)"
| copied: "pc t = Committing (e # es) \<Longrightarrow>
    tstep G vp i (t, sh) (t\<lparr>pc := Committing es\<rparr>, CommitPage vp G (gp t) e sh)"
| update: "pc t = Committing [] \<Longrightarrow> UpdateHeap G True (local_heap G) sh (gp t) = Inr p' \<Longrightarrow>
    tstep G vp i (t, sh) (t\<lparr>gp := p', pc := Unlock_Committed\<rparr>, sh)"
| unlock_committed: "pc t = Unlock_Committed \<Longrightarrow> tstep G vp i (t, sh) (t\<lparr>pc := After\<rparr>, unlock sh)"
| unlock_failed: "pc t = Unlock_Failed \<Longrightarrow> tstep G vp i (t, sh) (t\<lparr>pc := Abort_Section\<rparr>, unlock sh)"
| abort: "pc t = Abort_Section \<Longrightarrow>
    tstep G vp i (t, sh) (t\<lparr>gp := discard_copies sh (gp t), cur := ctx t, pc := Clear\<rparr>, sh)"
| join: "pc t = After \<Longrightarrow> cur t = Await j c \<Longrightarrow> tstep G vp i (t, sh) (t\<lparr>pc := Join_Wait\<rparr>, sh)"
| exit: "pc t = After \<Longrightarrow> cur t = Return \<Longrightarrow> tstep G vp i (t, sh) (t\<lparr>alive := False\<rparr>, sh)"

section \<open>Waiting\<close>

text \<open>
  What \<open>waitpid(j)\<close> gives process \<open>i\<close> (its result and \<open>errno\<close>; \<open>None\<close> while it
  blocks) and what \<open>kill(j, 0)\<close> gives: a process that has exited but whose parent has not
  collected it still exists for \<open>kill\<close>. Process ids are not reused.
\<close>

definition waitpid :: "sys \<Rightarrow> pid_t \<Rightarrow> pid_t \<Rightarrow> (int \<times> int) option" where
  "waitpid s i j =
     (case procs s j of
        None \<Rightarrow> Some (-1, ECHILD)
      | Some t \<Rightarrow>
          if parent t \<noteq> i \<or> j \<in> reaped s then Some (-1, ECHILD)
          else if alive t then None else Some (int j, 0))"

definition kill0 :: "sys \<Rightarrow> pid_t \<Rightarrow> int option" where
  "kill0 s j = (if procs s j = None \<or> j \<in> reaped s then Some ESRCH else None)"

definition wait_returns :: "sys \<Rightarrow> pid_t \<Rightarrow> pid_t \<Rightarrow> bool" where
  "wait_returns s i j =
     (case waitpid s i j of
        None \<Rightarrow> False
      | Some (ret, err) \<Rightarrow> WaitExited j ret err [kill0 s j] = Some (Inr ()))"

definition collect :: "sys \<Rightarrow> pid_t \<Rightarrow> pid_t \<Rightarrow> pid_t set" where
  "collect s i j = (if j \<noteq> 0 \<and> waitpid s i j = Some (int j, 0) then insert j (reaped s) else reaped s)"

section \<open>Steps of the system\<close>

definition set_proc :: "pid_t \<Rightarrow> thread \<Rightarrow> sys \<Rightarrow> sys" where
  "set_proc i t s = s\<lparr>procs := (procs s)(i \<mapsto> t)\<rparr>"

inductive sys_step :: "bool \<Rightarrow> heap_globals \<Rightarrow> view_policy \<Rightarrow> sys \<Rightarrow> sys \<Rightarrow> bool"
  for no_order G vp where
  thread: "procs s i = Some t \<Longrightarrow> alive t \<Longrightarrow> tstep G vp i (t, shd s) (t', sh') \<Longrightarrow>
    sys_step no_order G vp s (set_proc i t' (s\<lparr>shd := sh'\<rparr>))"
| waited: "procs s i = Some t \<Longrightarrow> alive t \<Longrightarrow> pc t = Wait \<Longrightarrow>
    wait_returns s i (predecessor (gp t)) \<Longrightarrow>
    sys_step no_order G vp s
      (set_proc i (t\<lparr>pc := Commit_Lock\<rparr>) (s\<lparr>reaped := collect s i (predecessor (gp t))\<rparr>))"
| forked: "procs s i = Some t \<Longrightarrow> alive t \<Longrightarrow> pc t = After \<Longrightarrow> cur t = Spawn c k \<Longrightarrow>
    j \<noteq> 0 \<Longrightarrow> procs s j = None \<Longrightarrow>
    sys_step no_order G vp s
      (set_proc i (t\<lparr>gp := parent_side j (gp t), cur := k j, pc := Save\<rparr>)
        (set_proc j (t\<lparr>gp := child_side no_order j (gp t), cur := c, pc := Save, parent := i\<rparr>) s))"
| joined: "procs s i = Some t \<Longrightarrow> alive t \<Longrightarrow> pc t = Join_Wait \<Longrightarrow> cur t = Await j c \<Longrightarrow>
    wait_returns s i j \<Longrightarrow>
    sys_step no_order G vp s
      (set_proc i (t\<lparr>cur := c, pc := Save\<rparr>) (s\<lparr>reaped := collect s i j\<rparr>))"
| adopted: "procs s i = Some t \<Longrightarrow> \<not> alive t \<Longrightarrow>
    (case procs s (parent t) of None \<Rightarrow> True | Some u \<Rightarrow> \<not> alive u) \<Longrightarrow>
    sys_step no_order G vp s (s\<lparr>reaped := insert i (reaped s)\<rparr>)"

text \<open>
  A process may also die at any point: an access outside the heap, a failing system call, or a
  signal.
\<close>

inductive dies :: "sys \<Rightarrow> sys \<Rightarrow> bool" where
  dies: "procs s i = Some t \<Longrightarrow> alive t \<Longrightarrow> dies s (set_proc i (t\<lparr>alive := False\<rparr>) s)"

text \<open>
  The start: one process, about to begin its first section. A run is counted, so that version
  numbers, which grow by at most one per step, stay below \<open>2 ^ 64\<close>.
\<close>

definition initial :: "prog \<Rightarrow> sys \<Rightarrow> bool" where
  "initial c s \<longleftrightarrow> (\<exists>i t. i \<noteq> 0 \<and> procs s = [i \<mapsto> t] \<and> alive t \<and> pc t = Save \<and> cur t = c
     \<and> parent t = 0 \<and> (\<forall>page. \<not> copied (gp t) page))
   \<and> reaped s = {} \<and> mutex (shd s) = None \<and> global_page_version (shd s) = []"

definition counted_step ::
  "bool \<Rightarrow> heap_globals \<Rightarrow> view_policy \<Rightarrow> nat \<times> sys \<Rightarrow> nat \<times> sys \<Rightarrow> bool" where
  "counted_step no_order G vp c c' \<longleftrightarrow>
     fst c' = Suc (fst c) \<and> Suc (fst c) < 2 ^ 64
     \<and> (sys_step no_order G vp (snd c) (snd c') \<or> dies (snd c) (snd c'))"

definition sys_run :: "bool \<Rightarrow> heap_globals \<Rightarrow> view_policy \<Rightarrow> sys \<Rightarrow> nat \<Rightarrow> sys \<Rightarrow> bool" where
  "sys_run no_order G vp s0 n s \<longleftrightarrow> (counted_step no_order G vp)\<^sup>*\<^sup>* (0, s0) (n, s)"

inductive_cases tstep_elim: "tstep G vp i (t, sh) (t', sh')"

lemma set_proc_simps [simp]:
  "procs (set_proc i t s) = (procs s)(i \<mapsto> t)" "shd (set_proc i t s) = shd s"
  "reaped (set_proc i t s) = reaped s"
  by (simp_all add: set_proc_def)

lemma wait_returns_dead:
  assumes "wait_returns s i j"
  shows "j = 0 \<or> procs s j = None \<or> j \<in> reaped s \<or> (\<exists>t. procs s j = Some t \<and> \<not> alive t)"
  using assms
  by (auto simp: wait_returns_def waitpid_def kill0_def WaitExited_def ECHILD_def
      split: option.splits if_splits prod.splits)

end
