(* ===== verification/Libgthread.thy ===== *)
theory Libgthread
  imports Processes
begin

text \<open>
  \<open>src/src/libgthread.hh\<close>: the pthread interface of the library and the start of the program.
  A \<open>pthread_t\<close> is an index into the vector \<open>gthreads\<close>, which a process keeps outside the
  heap, so a rollback does not restore it: the code behind the \<open>AtomicBegin\<close> that began the
  section, the \<open>push_back\<close> of \<open>pthread_create\<close> included, runs again.
\<close>

section \<open>The interposed functions\<close>

type_synonym handles = "pid_t list"

text \<open>
  \<open>pthread_create\<close> in the creator returns 0 with the handle stored; in the new process the
  start routine is called next.
\<close>

datatype 'a created = In_creator nat int handles 'a | In_thread handles 'a

definition push_back :: "pid_t \<Rightarrow> handles \<Rightarrow> handles" where
  "push_back t gthreads = gthreads @ [t]"

definition pthread_create ::
  "bool \<Rightarrow> view_policy \<Rightarrow> heap_globals \<Rightarrow> os \<Rightarrow> int \<Rightarrow> pid_t \<Rightarrow> handles \<Rightarrow> 'cpu thread_state \<Rightarrow> shared
    \<Rightarrow> shared \<times> (exit_reason + ('cpu thread_state created, 'cpu thread_state) control) option" where
  "pthread_create no_order vp G env ret self gthreads st sh =
     (let thread = length gthreads in
      case Create no_order vp G env ret self st sh of
        (sh, None) \<Rightarrow> (sh, None)
      | (sh, Some (Inl e)) \<Rightarrow> (sh, Some (Inl e))
      | (sh, Some (Inr (Restarted st))) \<Rightarrow> (sh, Some (Inr (Restarted st)))
      | (sh, Some (Inr (Returned (In_child st)))) \<Rightarrow> (sh, Some (Inr (Returned (In_thread gthreads st))))
      | (sh, Some (Inr (Returned (In_parent t st)))) \<Rightarrow>
          (sh, Some (Inr (Returned (In_creator thread 0 (push_back t gthreads) st)))))"

text \<open>Indexing the vector outside its range is undefined: \<open>None\<close>.\<close>

definition pthread_join ::
  "view_policy \<Rightarrow> heap_globals \<Rightarrow> os \<Rightarrow> os \<Rightarrow> nat \<Rightarrow> handles \<Rightarrow> 'cpu thread_state \<Rightarrow> shared \<Rightarrow> shared
    \<Rightarrow> (shared \<times> (exit_reason + (int \<times> 'cpu thread_state, 'cpu thread_state) control) option) option" where
  "pthread_join vp G env env' thread gthreads st sh sh' =
     (if thread < length gthreads then
        Some (case Join vp G env env' (gthreads ! thread) st sh sh' of
                (sh, None) \<Rightarrow> (sh, None)
              | (sh, Some (Inl e)) \<Rightarrow> (sh, Some (Inl e))
              | (sh, Some (Inr (Restarted st))) \<Rightarrow> (sh, Some (Inr (Restarted st)))
              | (sh, Some (Inr (Returned st))) \<Rightarrow> (sh, Some (Inr (Returned (0, st)))))
      else None)"

section \<open>Handles over a run\<close>

text \<open>
  What a thread does to its vector: a creation that went through, a join that went through, or
  a rollback, after which the code behind the \<open>AtomicBegin\<close> of the call that began the section
  runs again. \<open>issued\<close> lists the handles the thread has been given, with the threads meant.
\<close>

datatype call = Created pid_t | Joined | Rolled_back

datatype beginner = By_start | By_create pid_t | By_join

record handle_state =
  gthreads :: handles
  begun :: beginner
  issued :: "(nat \<times> pid_t) list"

definition again :: "beginner \<Rightarrow> handles \<Rightarrow> handles" where
  "again b gs = (case b of By_create t \<Rightarrow> push_back t gs | _ \<Rightarrow> gs)"

fun handle_step :: "call \<Rightarrow> handle_state \<Rightarrow> handle_state" where
  "handle_step (Created t) s =
     s\<lparr>gthreads := push_back t (gthreads s), begun := By_create t,
       issued := issued s @ [(length (gthreads s), t)]\<rparr>"
| "handle_step Joined s = s\<lparr>begun := By_join\<rparr>"
| "handle_step Rolled_back s = s\<lparr>gthreads := again (begun s) (gthreads s)\<rparr>"

section \<open>The start of the program\<close>

text \<open>
  \<open>wrapped_main\<close> runs the program's \<open>main\<close> in a thread of its own and joins it; both end
  by ending their section and exiting.
\<close>

definition wrapped_main :: "prog \<Rightarrow> prog" where
  "wrapped_main real_main = Spawn real_main (\<lambda>t. Await t Return)"

text \<open>
  \<open>__libc_start_main\<close> sets up the heap and hands \<open>wrapped_main\<close> to libc's own start routine,
  which is a parameter.
\<close>

definition libc_start_main ::
  "int \<Rightarrow> int \<Rightarrow> addr \<Rightarrow> addr \<Rightarrow> (prog \<Rightarrow> heap_globals \<Rightarrow> 'r) \<Rightarrow> prog \<Rightarrow> heap_globals \<Rightarrow> exit_reason + 'r" where
  "libc_start_main open_ret ftruncate_ret shared_map private_map real_start main_fn g =
     bind_result (GlobalHeapInit open_ret ftruncate_ret shared_map private_map g)
       (\<lambda>g. Inr (real_start (wrapped_main main_fn) g))"

section \<open>Properties\<close>

lemma handle_step_issued:
  assumes "\<forall>(h, t) \<in> set (issued s). h < length (gthreads s) \<and> gthreads s ! h = t"
  shows "\<forall>(h, t) \<in> set (issued (handle_step c s)).
    h < length (gthreads (handle_step c s)) \<and> gthreads (handle_step c s) ! h = t"
  using assms
  by (cases c) (auto simp: push_back_def again_def nth_append split: beginner.splits)

text \<open>
  C38: Handles survive rollbacks. However creations, joins and rollbacks of a thread's sections
  follow each other, every handle \<open>pthread_create\<close> has given out still indexes the thread it
  was given for, although a rollback appends the last created thread to the vector again.
\<close>

theorem handles_stable:
  assumes "(h, t) \<in> set (issued (fold handle_step calls \<lparr>gthreads = gs, begun = b, issued = []\<rparr>))"
  shows "h < length (gthreads (fold handle_step calls \<lparr>gthreads = gs, begun = b, issued = []\<rparr>))
    \<and> gthreads (fold handle_step calls \<lparr>gthreads = gs, begun = b, issued = []\<rparr>) ! h = t"
proof -
  have "\<forall>(h, t) \<in> set (issued (fold handle_step calls s)).
      h < length (gthreads (fold handle_step calls s)) \<and> gthreads (fold handle_step calls s) ! h = t"
    if "\<forall>(h, t) \<in> set (issued s). h < length (gthreads s) \<and> gthreads s ! h = t" for s
    using that by (induction calls arbitrary: s) (simp_all add: handle_step_issued)
  from this [of "\<lparr>gthreads = gs, begun = b, issued = []\<rparr>"] assms show ?thesis by auto
qed

theorem handles_stable_witness:
  "let s = fold handle_step [Created 11, Rolled_back, Rolled_back, Created 12, Joined, Rolled_back]
      \<lparr>gthreads = [], begun = By_start, issued = []\<rparr>
   in gthreads s = [11, 11, 11, 12] \<and> issued s = [(0, 11), (3, 12)] \<and> gthreads s ! 3 = 12"
  using handles_stable [of 3 12 "[Created 11, Rolled_back, Rolled_back, Created 12, Joined, Rolled_back]"
      "[]" By_start]
  by (simp add: push_back_def again_def)

end
