(* ===== verification/Atomic_Sections.thy ===== *)
theory Atomic_Sections
  imports Processes
begin

text \<open>
  What the runtime promises: the threads of a program run their atomic sections one after the
  other, each in one indivisible step on a single heap. Also the two interfaces the proof that
  it does is built on: invariants of a step relation, and simulations between two.
\<close>

section \<open>Programs run alone\<close>

inductive local_step :: "heap_globals \<Rightarrow> prog \<times> memory \<Rightarrow> prog \<times> memory \<Rightarrow> bool" for G where
  load: "in_heap G a \<Longrightarrow> local_step G (Load a k, m) (k (m a), m)"
| store: "in_heap G a \<Longrightarrow> local_step G (Store a v c, m) (c, m(a := v))"

inductive_simps local_step_access [simp]:
  "local_step G (Load a k, m) d" "local_step G (Store a v c, m) d"

inductive_simps local_step_end [simp]:
  "local_step G (Spawn c k, m) d" "local_step G (Await j c, m) d" "local_step G (Return, m) d"
  "local_step G (Quit, m) d"

lemma local_step_ends: "ends_section c \<Longrightarrow> \<not> local_step G (c, m) d"
  by (cases c) simp_all

lemma local_step_deterministic: "local_step G (c, m) d \<Longrightarrow> local_step G (c, m) e \<Longrightarrow> d = e"
  by (cases c) auto

definition runs :: "heap_globals \<Rightarrow> prog \<Rightarrow> memory \<Rightarrow> prog \<Rightarrow> memory \<Rightarrow> bool" where
  "runs G c m c' m' \<longleftrightarrow> (local_step G)\<^sup>*\<^sup>* (c, m) (c', m')"

lemma runs_refl [simp, intro]: "runs G c m c m"
  by (simp add: runs_def)

lemma runs_load:
  "runs G c m (Load a k) m' \<Longrightarrow> in_heap G a \<Longrightarrow> m' a = v \<Longrightarrow> runs G c m (k v) m'"
  unfolding runs_def by (blast intro: rtranclp.rtrancl_into_rtrancl local_step.load)

lemma runs_store:
  "runs G c m (Store a v d) m' \<Longrightarrow> in_heap G a \<Longrightarrow> m'(a := v) = m'' \<Longrightarrow> runs G c m d m''"
  unfolding runs_def by (blast intro: rtranclp.rtrancl_into_rtrancl local_step.store)

text \<open>A section that ends does so in one way only.\<close>

lemma runs_deterministic:
  assumes "runs G c m d m'" and "ends_section d" and "runs G c m e m''" and "ends_section e"
  shows "d = e \<and> m' = m''"
proof -
  have "(local_step G)\<^sup>*\<^sup>* y (e, m'')" if "(local_step G)\<^sup>*\<^sup>* x y" "(local_step G)\<^sup>*\<^sup>* x (e, m'')" for x y
    using that
  proof (induction rule: converse_rtranclp_induct)
    case (step x z)
    have "x \<noteq> (e, m'')" using step.hyps(1) local_step_ends [OF assms(4)] by blast
    then obtain z' where "local_step G x z'" "(local_step G)\<^sup>*\<^sup>* z' (e, m'')"
      using step.prems by (metis converse_rtranclpE)
    then show ?case using step local_step_deterministic by (metis surj_pair)
  qed
  from this [of "(c, m)" "(d, m')"] assms have "(local_step G)\<^sup>*\<^sup>* (d, m') (e, m'')" by (simp add: runs_def)
  then show ?thesis using local_step_ends [OF assms(2)] by (cases rule: converse_rtranclpE) blast+
qed

section \<open>The atomic machine\<close>

text \<open>
  A thread is at the beginning of a section, or behind a section at the call that ended it; or
  its process has ended, with all its sections committed or in the middle of one.
\<close>

datatype athread = Running prog | Committed prog | Exited | Crashed

record atomic =
  heap :: memory
  threads :: "pid_t \<Rightarrow> athread option"

definition ended :: "athread option \<Rightarrow> bool" where
  "ended x \<longleftrightarrow> x \<in> {None, Some Exited, Some Crashed}"

inductive astep :: "heap_globals \<Rightarrow> atomic \<Rightarrow> atomic \<Rightarrow> bool" for G where
  run_section: "threads A i = Some (Running c) \<Longrightarrow> runs G c (heap A) d m \<Longrightarrow> ends_section d \<Longrightarrow>
    astep G A (A\<lparr>heap := m, threads := (threads A)(i \<mapsto> Committed d)\<rparr>)"
| spawn: "threads A i = Some (Committed (Spawn c k)) \<Longrightarrow> j \<noteq> 0 \<Longrightarrow> j \<noteq> i \<Longrightarrow> threads A j = None \<Longrightarrow>
    astep G A (A\<lparr>threads := (threads A)(j \<mapsto> Running c, i \<mapsto> Running (k j))\<rparr>)"
| await: "threads A i = Some (Committed (Await j c)) \<Longrightarrow> j = 0 \<or> ended (threads A j) \<Longrightarrow>
    astep G A (A\<lparr>threads := (threads A)(i \<mapsto> Running c)\<rparr>)"
| exit: "threads A i = Some (Committed Return) \<Longrightarrow>
    astep G A (A\<lparr>threads := (threads A)(i \<mapsto> Exited)\<rparr>)"
| crash: "threads A i = Some x \<Longrightarrow> \<not> ended (Some x) \<Longrightarrow>
    astep G A (A\<lparr>threads := (threads A)(i \<mapsto> Crashed)\<rparr>)"

section \<open>Invariants and simulations\<close>

locale invariant =
  fixes step :: "'s \<Rightarrow> 's \<Rightarrow> bool"
    and inv :: "'s \<Rightarrow> bool"
  assumes preserved: "inv s \<Longrightarrow> step s s' \<Longrightarrow> inv s'"
begin

lemma reachable: "step\<^sup>*\<^sup>* s s' \<Longrightarrow> inv s \<Longrightarrow> inv s'"
  by (induction rule: rtranclp_induct) (auto intro: preserved)

end

locale simulation = invariant step inv
  for step :: "'s \<Rightarrow> 's \<Rightarrow> bool" and inv :: "'s \<Rightarrow> bool" +
  fixes astep :: "'a \<Rightarrow> 'a \<Rightarrow> bool"
    and abs :: "'s \<Rightarrow> 'a"
  assumes simulated: "inv s \<Longrightarrow> step s s' \<Longrightarrow> abs s' = abs s \<or> astep (abs s) (abs s')"
begin

lemma refines: "step\<^sup>*\<^sup>* s s' \<Longrightarrow> inv s \<Longrightarrow> astep\<^sup>*\<^sup>* (abs s) (abs s')"
proof (induction rule: rtranclp_induct)
  case (step t u)
  have "inv t" using step(1,4) by (rule reachable)
  with step show ?case using simulated by (metis rtranclp.rtrancl_into_rtrancl)
qed simp

end

end
