(* ===== verification/Invariants.thy ===== *)
theory Invariants
  imports Atomic_Sections
begin

text \<open>
  The invariants of the running system: who holds the commit mutex, what the maps, protections
  and private copies of a process look like at each point of its section, and how local, pending
  and global page versions are ordered.
\<close>

section \<open>The mutex\<close>

definition holds :: "pc \<Rightarrow> bool" where
  "holds c = (case c of Copy_Versions \<Rightarrow> True | Unlock \<Rightarrow> True | Check \<Rightarrow> True | Committing es \<Rightarrow> True
     | Unlock_Committed \<Rightarrow> True | Unlock_Failed \<Rightarrow> True | _ \<Rightarrow> False)"

lemma holds_simps [simp]:
  "holds Copy_Versions" "holds Unlock" "holds Check" "holds (Committing es)" "holds Unlock_Committed"
  "holds Unlock_Failed" "\<not> holds Save" "\<not> holds Clear" "\<not> holds Lock" "\<not> holds Protect" "\<not> holds Body"
  "\<not> holds Entry" "\<not> holds Wait" "\<not> holds Commit_Lock" "\<not> holds Abort_Section" "\<not> holds After"
  "\<not> holds Join_Wait"
  by (simp_all add: holds_def)

definition mutex_inv :: "sys \<Rightarrow> bool" where
  "mutex_inv s \<longleftrightarrow>
     (\<forall>i t. procs s i = Some t \<longrightarrow> holds (pc t) \<longrightarrow> mutex (shd s) = Some i)
     \<and> (\<forall>j \<in> reaped s. \<exists>t. procs s j = Some t \<and> \<not> alive t)"

lemma mutex_holder:
  "mutex_inv s \<Longrightarrow> procs s i = Some t \<Longrightarrow> holds (pc t) \<Longrightarrow> mutex (shd s) = Some i"
  unfolding mutex_inv_def by blast

lemma one_holder:
  "mutex_inv s \<Longrightarrow> procs s i = Some t \<Longrightarrow> holds (pc t) \<Longrightarrow> procs s j = Some u \<Longrightarrow> holds (pc u) \<Longrightarrow> i = j"
  by (metis mutex_holder option.inject)

lemma copy_part_simps [simp]:
  "mutex (copy_part vp G p page part sh) = mutex sh"
  "global_page_version (copy_part vp G p page part sh) = global_page_version sh"
  "rollback_count (copy_part vp G p page part sh) = rollback_count sh"
  by (simp_all add: copy_part_def)

lemma tstep_mutex:
  assumes "tstep G vp i (t, sh) (t', sh')" and "holds (pc t) \<Longrightarrow> mutex sh = Some i"
  shows "holds (pc t') \<Longrightarrow> mutex sh' = Some i"
    and "mutex sh' = mutex sh \<or> mutex sh = None \<or> mutex sh = Some i"
  using assms by (auto elim!: tstep_elim)

lemma collect_dead:
  assumes "j \<in> collect s i k"
  shows "j \<in> reaped s \<or> (\<exists>t. procs s j = Some t \<and> \<not> alive t)"
  using assms by (auto simp: collect_def waitpid_def split: if_splits option.splits)

lemma mutex_inv_step:
  assumes "mutex_inv s" and "sys_step no_order G vp s s'"
  shows "mutex_inv s'"
  using assms(2)
proof (cases rule: sys_step.cases)
  case (thread i t t' sh')
  have holder: "\<And>j u. procs s j = Some u \<Longrightarrow> holds (pc u) \<Longrightarrow> mutex (shd s) = Some j"
    using assms(1) by (auto simp: mutex_inv_def)
  have "holds (pc t') \<Longrightarrow> mutex sh' = Some i"
    and other: "mutex sh' = mutex (shd s) \<or> mutex (shd s) = None \<or> mutex (shd s) = Some i"
    using tstep_mutex [OF thread(4)] holder [OF thread(2)] by blast+
  moreover have "mutex sh' = Some j" if "procs s j = Some u" "holds (pc u)" "j \<noteq> i" for j u
    using holder [OF that(1,2)] other that(3) by auto
  moreover have "\<exists>u. procs s j = Some u \<and> \<not> alive u \<and> j \<noteq> i" if "j \<in> reaped s" for j
    using that assms(1) thread(2,3) unfolding mutex_inv_def by fastforce
  ultimately show ?thesis using thread(1) by (auto simp: mutex_inv_def split: if_splits) metis+
next
  case (waited i t)
  with assms(1) show ?thesis
    by (auto simp: mutex_inv_def dest!: collect_dead split: if_splits)
next
  case (forked i t c k j)
  with assms(1) show ?thesis
    by (auto simp: mutex_inv_def split: if_splits)
next
  case (joined i t j c)
  with assms(1) show ?thesis
    by (auto simp: mutex_inv_def dest!: collect_dead split: if_splits)
next
  case (adopted i t)
  with assms(1) show ?thesis by (auto simp: mutex_inv_def)
qed

lemma mutex_inv_dies:
  assumes "mutex_inv s" and "dies s s'"
  shows "mutex_inv s'"
  using assms(2)
proof (cases rule: dies.cases)
  case (dies i t)
  with assms(1) show ?thesis by (auto simp: mutex_inv_def split: if_splits)
qed

section \<open>The shape of a process\<close>

definition in_section :: "pc \<Rightarrow> bool" where
  "in_section c \<longleftrightarrow> c \<in> {Body, Entry, Wait, Commit_Lock, Check}"

definition at_start :: "pc \<Rightarrow> bool" where
  "at_start c \<longleftrightarrow> c \<in> {Clear, Lock, Copy_Versions, Unlock, Protect}"

definition behind_section :: "pc \<Rightarrow> bool" where
  "behind_section c \<longleftrightarrow> (case c of Entry \<Rightarrow> True | Wait \<Rightarrow> True | Commit_Lock \<Rightarrow> True | Check \<Rightarrow> True
     | Committing es \<Rightarrow> True | Unlock_Committed \<Rightarrow> True | After \<Rightarrow> True | Join_Wait \<Rightarrow> True | _ \<Rightarrow> False)"

lemmas pc_groups = in_section_def at_start_def behind_section_def

definition no_copies :: "gproc \<Rightarrow> bool" where
  "no_copies p \<longleftrightarrow> (\<forall>page. \<not> copied p page)"

text \<open>
  A section's maps: read pages are at their local version, written pages at the next one and
  read too; accessible pages are in the sets and so are private copies.
\<close>

definition sets_ok :: "heap_globals \<Rightarrow> gproc \<Rightarrow> bool" where
  "sets_ok G p \<longleftrightarrow>
     vm_wf (read_set_version p) \<and> vm_wf (write_set_version p)
     \<and> (\<forall>page v. vm_find (read_set_version p) page = Some v \<longrightarrow>
          v = version_of (local_page_version p) page \<and> page_of page = page)
     \<and> (\<forall>page v. vm_find (write_set_version p) page = Some v \<longrightarrow>
          v = version_of (local_page_version p) page + 1 \<and> vm_find (read_set_version p) page \<noteq> None)
     \<and> (\<forall>page. in_heap G page \<longrightarrow> prot_of p page \<noteq> PROT_NONE \<longrightarrow>
          vm_find (read_set_version p) page \<noteq> None)
     \<and> (\<forall>page. in_heap G page \<longrightarrow> prot_of p page = PROT_READ_WRITE \<longrightarrow>
          vm_find (write_set_version p) page \<noteq> None)
     \<and> (\<forall>page. copied p page \<longrightarrow> vm_find (write_set_version p) page \<noteq> None)"

definition shape :: "heap_globals \<Rightarrow> thread \<Rightarrow> bool" where
  "shape G t \<longleftrightarrow>
     (pc t \<in> {Save, Unlock_Committed, After, Join_Wait} \<or> at_start (pc t) \<longrightarrow> no_copies (gp t))
     \<and> (at_start (pc t) \<longrightarrow> cur t = ctx t)
     \<and> (pc t \<in> {Lock, Copy_Versions, Unlock, Protect} \<longrightarrow> nothing_accessed (gp t))
     \<and> (pc t \<in> {Lock, Copy_Versions} \<longrightarrow> local_page_version (gp t) = [])
     \<and> (behind_section (pc t) \<longrightarrow> ends_section (cur t))
     \<and> (in_section (pc t) \<longrightarrow> sets_ok G (gp t))"

lemma sets_okD_read:
  "sets_ok G p \<Longrightarrow> vm_find (read_set_version p) page = Some v \<Longrightarrow>
    v = version_of (local_page_version p) page \<and> page_of page = page"
  unfolding sets_ok_def by blast

lemma sets_okD_write:
  "sets_ok G p \<Longrightarrow> vm_find (write_set_version p) page = Some v \<Longrightarrow>
    v = version_of (local_page_version p) page + 1 \<and> (\<exists>r. vm_find (read_set_version p) page = Some r)"
  unfolding sets_ok_def by blast

lemma shape_sets: "shape G t \<Longrightarrow> in_section (pc t) \<Longrightarrow> sets_ok G (gp t)"
  by (simp add: shape_def)

lemma clear_sets_nothing [simp]: "nothing_accessed (clear_sets p)"
  by (simp add: nothing_accessed_def)

lemma no_copies_simps [simp]:
  "no_copies (clear_sets p) = no_copies p" "no_copies (copy_versions g p) = no_copies p"
  "no_copies (protect_heap G p) = no_copies p" "no_copies (discard_copies sh p)"
  "no_copies (parent_side j p) = no_copies p" "no_copies (child_side b j p) = no_copies p"
  by (simp_all add: no_copies_def discard_copies_def parent_side_def child_side_def Let_def)

lemma nothing_accessed_simps [simp]:
  "nothing_accessed (copy_versions g p) = nothing_accessed p"
  "nothing_accessed (protect_heap G p) = nothing_accessed p"
  by (simp_all add: nothing_accessed_def)

lemma UpdateHeap_no_copies: "UpdateHeap G ok pos sh p = Inr p' \<Longrightarrow> no_copies p'"
  by (auto simp: UpdateHeap_Inr no_copies_def)

lemma sets_ok_start:
  assumes "nothing_accessed p" and "no_copies p"
  shows "sets_ok G (protect_heap G p)"
  using assms by (auto simp: sets_ok_def nothing_accessed_def no_copies_def vm_wf_def)

lemma sets_ok_fault:
  assumes "sets_ok G p" and "SegfaultHandler G True a p = Inr p'"
  shows "sets_ok G p'"
  using assms(2)
proof (cases rule: SegfaultHandler_Inr)
  case reading
  with assms(1) show ?thesis by (auto simp: sets_ok_def HandleReads_Inr vm.wf_assign)
next
  case writing
  with assms(1) show ?thesis by (auto simp: sets_ok_def HandleWrites_Inr vm.wf_assign)
qed

lemma store_simps [simp]:
  "read_set_version (store vp G sh a v p) = read_set_version p"
  "write_set_version (store vp G sh a v p) = write_set_version p"
  "local_page_version (store vp G sh a v p) = local_page_version p"
  "prot_of (store vp G sh a v p) = prot_of p"
  "copied (store vp G sh a v p) = (copied p)(page_of a := True)"
  by (simp_all add: store_def Let_def)

lemma sets_ok_store:
  assumes "sets_ok G p" and "heap_aligned G" and "in_heap G a" and "prot_of p (page_of a) = PROT_READ_WRITE"
  shows "sets_ok G (store vp G sh a v p)"
proof -
  have "in_heap G (page_of a)" using assms(2,3) by (simp add: in_heap_page)
  with assms(1,4) have "vm_find (write_set_version p) (page_of a) \<noteq> None"
    by (simp add: sets_ok_def)
  with assms(1) show ?thesis by (simp add: sets_ok_def)
qed

lemma faults_None:
  "faults G p (Load a k) = None \<Longrightarrow> in_heap G a \<Longrightarrow> prot_of p (page_of a) \<noteq> PROT_NONE"
  "faults G p (Store a v c) = None \<Longrightarrow> in_heap G a \<Longrightarrow> prot_of p (page_of a) = PROT_READ_WRITE"
  by (simp_all add: faults_def split: if_splits)

lemma tstep_shape:
  assumes "tstep G vp i (t, sh) (t', sh')" and "shape G t" and "heap_aligned G"
  shows "shape G t'"
  using assms(1)
proof (cases rule: tstep.cases)
  case protect
  then have "nothing_accessed (gp t)" "no_copies (gp t)"
    using assms(2) by (auto simp: shape_def pc_groups)
  with protect show ?thesis by (simp add: shape_def pc_groups sets_ok_start)
next
  case (store a v)
  then have "sets_ok G (gp t)" using assms(2) by (simp add: shape_def pc_groups)
  moreover have "prot_of (gp t) (page_of a) = PROT_READ_WRITE"
    using store faults_None(2) by metis
  ultimately show ?thesis using store assms(3) by (simp add: shape_def pc_groups sets_ok_store)
next
  case (fault a p')
  then show ?thesis using assms(2) sets_ok_fault by (auto simp: shape_def pc_groups)
next
  case (untouched p')
  then show ?thesis using assms(2) UpdateHeap_no_copies by (auto simp: shape_def pc_groups)
next
  case (update p')
  then show ?thesis using assms(2) UpdateHeap_no_copies by (auto simp: shape_def pc_groups)
next
  case (lock)
  then show ?thesis using assms(2) by (auto simp: shape_def pc_groups)
qed (use assms(2) in \<open>auto simp: shape_def pc_groups\<close>)

definition shape_inv :: "heap_globals \<Rightarrow> sys \<Rightarrow> bool" where
  "shape_inv G s \<longleftrightarrow> heap_aligned G \<and> (\<forall>i t. procs s i = Some t \<longrightarrow> shape G t)"

lemma shape_inv_step:
  assumes "shape_inv G s" and "sys_step no_order G vp s s'"
  shows "shape_inv G s'"
  using assms(2)
proof (cases rule: sys_step.cases)
  case (thread i t t' sh')
  then have "shape G t'" using assms(1) tstep_shape by (auto simp: shape_inv_def)
  with thread(1) assms(1) show ?thesis by (simp add: shape_inv_def)
next
  case (waited i t)
  then have "shape G (t\<lparr>pc := Commit_Lock\<rparr>)"
    using assms(1) by (auto simp: shape_inv_def) (fastforce simp: shape_def pc_groups)
  with waited(1) assms(1) show ?thesis by (simp add: shape_inv_def)
next
  case (forked i t c k j)
  then have "no_copies (gp t)" using assms(1) by (fastforce simp: shape_inv_def shape_def)
  with forked(1) assms(1) show ?thesis by (simp add: shape_inv_def) (simp add: shape_def pc_groups)
next
  case (joined i t j c)
  then have "no_copies (gp t)" using assms(1) by (fastforce simp: shape_inv_def shape_def)
  with joined(1) assms(1) show ?thesis by (simp add: shape_inv_def) (simp add: shape_def pc_groups)
qed (use assms(1) in \<open>simp add: shape_inv_def\<close>)

lemma shape_inv_dies:
  assumes "shape_inv G s" and "dies s s'"
  shows "shape_inv G s'"
  using assms(2)
proof (cases rule: dies.cases)
  case (dies i t)
  then have "shape G (t\<lparr>alive := False\<rparr>)" using assms(1) by (auto simp: shape_inv_def shape_def)
  with dies(1) assms(1) show ?thesis by (simp add: shape_inv_def)
qed

section \<open>Versions\<close>

text \<open>
  Local versions never exceed the committed ones, and a page that is about to be committed is
  about to go up by one. \<open>n\<close> counts the steps so far and bounds every version.
\<close>

definition versions_ok :: "nat \<Rightarrow> version_map \<Rightarrow> thread \<Rightarrow> bool" where
  "versions_ok n global t \<longleftrightarrow>
     (pc t \<in> {Unlock, Protect} \<or> in_section (pc t) \<longrightarrow>
        (\<forall>page. unat (version_of (local_page_version (gp t)) page) \<le> unat (version_of global page)))
     \<and> (\<forall>es. pc t = Committing es \<longrightarrow> distinct (map fst es)
        \<and> (\<forall>(page, v) \<in> set es. page_of page = page
             \<and> unat v = Suc (unat (version_of global page)) \<and> unat v \<le> n))"

definition version_inv :: "nat \<Rightarrow> sys \<Rightarrow> bool" where
  "version_inv n s \<longleftrightarrow> vm_wf (global_page_version (shd s))
     \<and> (\<forall>page. unat (version_of (global_page_version (shd s)) page) \<le> n)
     \<and> (\<forall>i t. procs s i = Some t \<longrightarrow> versions_ok n (global_page_version (shd s)) t)"

lemma unat_plus_1: "unat (v :: u64) \<le> n \<Longrightarrow> Suc n < 2 ^ 64 \<Longrightarrow> unat (v + 1) = Suc (unat v)"
  by (simp add: unat_add_no_wrap)

text \<open>A consistent section's write set is one version ahead of the committed versions.\<close>

lemma consistent_write_set:
  assumes "sets_ok G p" and "IsHeapConsistent sh p"
    and "\<forall>page. unat (version_of (local_page_version p) page) \<le> unat (version_of (global_page_version sh) page)"
    and "vm_find (write_set_version p) page = Some v"
  shows "page_of page = page" and "v = version_of (global_page_version sh) page + 1"
proof -
  obtain r where r: "vm_find (read_set_version p) page = Some r"
      and v: "v = version_of (local_page_version p) page + 1"
    using sets_okD_write [OF assms(1,4)] by blast
  then have "(page, r) \<in> set (read_set_version p)" by (simp add: map_of_SomeD)
  with assms(2) have global: "vm_find (global_page_version sh) page = None \<or>
      version_of (global_page_version sh) page = r"
    by (auto dest: consistent_version)
  have local: "r = version_of (local_page_version p) page" and "page_of page = page"
    using sets_okD_read [OF assms(1) r] by simp_all
  then show "page_of page = page" by simp
  show "v = version_of (global_page_version sh) page + 1"
  proof (cases "vm_find (global_page_version sh) page")
    case None
    then have "version_of (global_page_version sh) page = 0" by (simp add: version_of_def)
    with assms(3) have "version_of (local_page_version p) page = 0"
      by (metis le_zero_eq unat_0 unat_eq_0)
    with v \<open>version_of (global_page_version sh) page = 0\<close> show ?thesis by simp
  next
    case (Some w)
    with global local v show ?thesis by simp
  qed
qed

lemma consistent_read_set:
  assumes "sets_ok G p" and "IsHeapConsistent sh p"
    and "\<forall>page. unat (version_of (local_page_version p) page) \<le> unat (version_of (global_page_version sh) page)"
    and "vm_find (read_set_version p) page = Some v"
  shows "v = version_of (global_page_version sh) page"
proof -
  have "(page, v) \<in> set (read_set_version p)" using assms(4) by (rule map_of_SomeD)
  with assms(2) have "version_of (global_page_version sh) page = v
      \<or> vm_find (global_page_version sh) page = None"
    by (rule consistent_version)
  moreover have "v = version_of (local_page_version p) page" using sets_okD_read [OF assms(1,4)] by simp
  ultimately show ?thesis
    using assms(3) by (auto simp: version_of_def [of "global_page_version sh"])
      (metis le_zero_eq option.simps(4) unat_0 unat_eq_0 version_of_def)
qed

lemma fault_versions:
  "SegfaultHandler G ok a p = Inr p' \<Longrightarrow> local_page_version p' = local_page_version p"
  by (erule SegfaultHandler_Inr) (auto simp: handler_simps)

lemma versions_mono:
  assumes "versions_ok n global t" and "\<forall>es. pc t \<noteq> Committing es"
    and "\<forall>page. unat (version_of global page) \<le> unat (version_of global' page)"
  shows "versions_ok m global' t"
  using assms unfolding versions_ok_def by (meson le_trans)

lemma versions_Suc: "versions_ok n global t \<Longrightarrow> versions_ok (Suc n) global t"
  by (fastforce simp: versions_ok_def)

lemma tstep_versions_same:
  assumes "tstep G vp i (t, sh) (t', sh')"
  shows "global_page_version sh' = global_page_version sh
    \<or> (\<exists>e es. pc t = Committing (e # es) \<and> t' = t\<lparr>pc := Committing es\<rparr> \<and> sh' = CommitPage vp G (gp t) e sh)"
  using assms by (cases rule: tstep.cases) auto

lemma tstep_versions_ok:
  assumes "tstep G vp i (t, sh) (t', sh')" and "shape G t"
    and "versions_ok n (global_page_version sh) t"
    and "vm_wf (global_page_version sh)"
    and "\<forall>page. unat (version_of (global_page_version sh) page) \<le> n" and "Suc n < 2 ^ 64"
  shows "versions_ok (Suc n) (global_page_version sh') t'"
  using assms(1)
proof (cases rule: tstep.cases)
  case copy
  then have "vm_find (local_page_version (gp t')) = vm_find (global_page_version sh)"
    using assms(2,4) by (simp add: copied_versions shape_def)
  with copy show ?thesis by (simp add: versions_ok_def pc_groups version_of_def)
next
  case (fault a p')
  with assms(3) show ?thesis
    by (simp add: versions_ok_def pc_groups fault_versions)
next
  case consistent
  have ok: "sets_ok G (gp t)" and
    le: "\<forall>page. unat (version_of (local_page_version (gp t)) page) \<le> unat (version_of (global_page_version sh) page)"
    using consistent assms(2,3) by (simp_all add: shape_def versions_ok_def pc_groups)
  have wf: "distinct (map fst (write_set_version (gp t)))"
    using ok by (simp add: sets_ok_def vm_wf_def)
  have "page_of page = page \<and> unat v = Suc (unat (version_of (global_page_version sh) page)) \<and> unat v \<le> Suc n"
    if "(page, v) \<in> set (write_set_version (gp t))" for page v
  proof -
    have "vm_find (write_set_version (gp t)) page = Some v" using wf that by simp
    from consistent_write_set [OF ok consistent(4) le this] show ?thesis
      using unat_plus_1 [OF spec [OF assms(5), of page] assms(6)] assms(5) by simp
  qed
  then show ?thesis using consistent wf by (auto simp: versions_ok_def pc_groups)
next
  case (copied e es)
  obtain page v where e: "e = (page, v)" by (cases e)
  have "page \<notin> fst ` set es" using assms(3) copied(3) e by (auto simp: versions_ok_def)
  then show ?thesis using copied assms(3) e by (auto simp: versions_ok_def pc_groups) force+
next
  case (store a v c)
  with assms(3) show ?thesis by (simp add: versions_ok_def pc_groups)
qed (use assms(3) in \<open>auto simp: versions_ok_def pc_groups\<close>)

lemma commit_page_versions:
  assumes "versions_ok n (global_page_version sh) t" and "pc t = Committing (e # es)"
    and "vm_wf (global_page_version sh)"
    and "\<forall>page. unat (version_of (global_page_version sh) page) \<le> n"
  shows "vm_wf (global_page_version (CommitPage vp G p e sh))"
    and "unat (version_of (global_page_version sh) page)
      \<le> unat (version_of (global_page_version (CommitPage vp G p e sh)) page)"
    and "unat (version_of (global_page_version (CommitPage vp G p e sh)) page) \<le> n"
proof -
  obtain pg v where e: "e = (pg, v)" by (cases e)
  then have v: "unat v = Suc (unat (version_of (global_page_version sh) pg))" "unat v \<le> n"
    using assms(1,2) by (auto simp: versions_ok_def)
  show "vm_wf (global_page_version (CommitPage vp G p e sh))"
    using assms(3) by (simp add: e vm.wf_assign)
  show "unat (version_of (global_page_version sh) page)
      \<le> unat (version_of (global_page_version (CommitPage vp G p e sh)) page)"
    using v by (simp add: e)
  show "unat (version_of (global_page_version (CommitPage vp G p e sh)) page) \<le> n"
    using v assms(4) by (simp add: e)
qed

lemma tstep_global_versions:
  assumes "tstep G vp i (t, sh) (t', sh')" and "versions_ok n (global_page_version sh) t"
    and "vm_wf (global_page_version sh)"
    and "\<forall>page. unat (version_of (global_page_version sh) page) \<le> n"
  shows "vm_wf (global_page_version sh')
    \<and> (\<forall>page. unat (version_of (global_page_version sh) page) \<le> unat (version_of (global_page_version sh') page))
    \<and> (\<forall>page. unat (version_of (global_page_version sh') page) \<le> n)"
  using tstep_versions_same [OF assms(1)] assms(3,4) commit_page_versions [OF assms(2) _ assms(3,4)]
  by auto

lemma version_inv_thread:
  assumes "version_inv n s" and "mutex_inv s" and "shape_inv G s" and "Suc n < 2 ^ 64"
    and "procs s i = Some t" and "tstep G vp i (t, shd s) (t', sh')"
  shows "version_inv (Suc n) (set_proc i t' (s\<lparr>shd := sh'\<rparr>))"
proof -
  let ?g = "global_page_version (shd s)"
  have wf: "vm_wf ?g" and bound: "\<forall>page. unat (version_of ?g page) \<le> n"
    and ok: "\<And>j u. procs s j = Some u \<Longrightarrow> versions_ok n ?g u"
    using assms(1) by (simp_all add: version_inv_def)
  have shape: "shape G t" using assms(3,5) by (simp add: shape_inv_def)
  have mine: "versions_ok (Suc n) (global_page_version sh') t'"
    using tstep_versions_ok [OF assms(6) shape ok [OF assms(5)] wf bound assms(4)] .
  have global: "vm_wf (global_page_version sh')"
    "\<forall>page. unat (version_of ?g page) \<le> unat (version_of (global_page_version sh') page)"
    "\<forall>page. unat (version_of (global_page_version sh') page) \<le> n"
    using tstep_global_versions [OF assms(6) ok [OF assms(5)] wf bound] by blast+
  have others: "versions_ok (Suc n) (global_page_version sh') u" if "procs s j = Some u" "j \<noteq> i" for j u
  proof (cases "global_page_version sh' = ?g")
    case True
    then show ?thesis using ok [OF that(1)] by (simp add: versions_Suc)
  next
    case False
    then have "holds (pc t)" using tstep_versions_same [OF assms(6)] by auto
    then have "\<not> holds (pc u)" using one_holder [OF assms(2,5) _ that(1)] that(2) by blast
    then have "\<forall>es. pc u \<noteq> Committing es" by auto
    then show ?thesis by (rule versions_mono [OF ok [OF that(1)] _ global(2)])
  qed
  have "versions_ok (Suc n) (global_page_version sh') u"
    if "procs (set_proc i t' (s\<lparr>shd := sh'\<rparr>)) j = Some u" for j u
    using mine others that by (cases "j = i") simp_all
  moreover have "\<forall>page. unat (version_of (global_page_version sh') page) \<le> Suc n"
    using global(3) le_SucI by blast
  ultimately show ?thesis
    using global(1) by (simp add: version_inv_def)
qed

lemma version_inv_step:
  assumes "version_inv n s" and "mutex_inv s" and "shape_inv G s" and "Suc n < 2 ^ 64"
    and "sys_step no_order G vp s s'"
  shows "version_inv (Suc n) s'"
  using assms(5)
proof (cases rule: sys_step.cases)
  case (thread i t t' sh')
  show ?thesis unfolding thread(1) by (rule version_inv_thread [OF assms(1-4) thread(2,4)])
next
  case (waited i t)
  then have "versions_ok n (global_page_version (shd s)) (t\<lparr>pc := Commit_Lock\<rparr>)"
    using assms(1) by (auto simp: version_inv_def versions_ok_def pc_groups)
  with waited(1) assms(1) show ?thesis by (auto simp: version_inv_def versions_Suc le_SucI)
next
  case (forked i t c k j)
  with assms(1) show ?thesis
    by (auto simp: version_inv_def versions_Suc le_SucI) (simp_all add: versions_ok_def pc_groups)
next
  case (joined i t j c)
  with assms(1) show ?thesis
    by (auto simp: version_inv_def versions_Suc le_SucI) (simp_all add: versions_ok_def pc_groups)
next
  case (adopted i t)
  with assms(1) show ?thesis by (auto simp: version_inv_def versions_Suc le_SucI)
qed

lemma version_inv_dies:
  assumes "version_inv n s" and "dies s s'"
  shows "version_inv (Suc n) s'"
  using assms(2)
proof (cases rule: dies.cases)
  case (dies i t)
  then have "versions_ok n (global_page_version (shd s)) (t\<lparr>alive := False\<rparr>)"
    using assms(1) by (auto simp: version_inv_def versions_ok_def)
  with dies(1) assms(1) show ?thesis by (auto simp: version_inv_def versions_Suc le_SucI)
qed

section \<open>The invariant of counted runs\<close>

definition sys_inv :: "heap_globals \<Rightarrow> nat \<times> sys \<Rightarrow> bool" where
  "sys_inv G c \<longleftrightarrow> mutex_inv (snd c) \<and> shape_inv G (snd c) \<and> version_inv (fst c) (snd c)"

lemma sys_inv_step:
  assumes "sys_inv G c" and "counted_step no_order G vp c c'"
  shows "sys_inv G c'"
proof -
  obtain n s n' s' where c: "c = (n, s)" "c' = (n', s')" by (cases c, cases c')
  then have inv: "mutex_inv s" "shape_inv G s" "version_inv n s" using assms(1) by (simp_all add: sys_inv_def)
  have n: "n' = Suc n" "Suc n < 2 ^ 64" and step: "sys_step no_order G vp s s' \<or> dies s s'"
    using assms(2) by (simp_all add: c counted_step_def)
  from step show ?thesis
  proof
    assume "sys_step no_order G vp s s'"
    then show ?thesis
      using inv n mutex_inv_step shape_inv_step version_inv_step by (auto simp: c sys_inv_def)
  next
    assume "dies s s'"
    then show ?thesis
      using inv n mutex_inv_dies shape_inv_dies version_inv_dies by (auto simp: c sys_inv_def)
  qed
qed

interpretation sys: invariant "counted_step no_order G vp" "sys_inv G"
  by unfold_locales (rule sys_inv_step)

lemma initial_inv:
  assumes "initial c s" and "heap_aligned G"
  shows "sys_inv G (0, s)"
proof -
  obtain i t where s: "procs s = [i \<mapsto> t]" "pc t = Save" "no_copies (gp t)"
    using assms(1) by (auto simp: initial_def no_copies_def)
  have "mutex_inv s"
    using s assms(1) by (auto simp: mutex_inv_def initial_def split: if_splits)
  moreover have "shape_inv G s"
    using s assms(2) by (auto simp: shape_inv_def shape_def pc_groups split: if_splits)
  moreover have "version_inv 0 s"
    using s assms(1) by (auto simp: version_inv_def versions_ok_def pc_groups initial_def vm_wf_def
        version_of_def split: if_splits)
  ultimately show ?thesis by (simp add: sys_inv_def)
qed

lemma run_inv:
  assumes "initial c s0" and "heap_aligned G" and "sys_run no_order G vp s0 n s"
  shows "mutex_inv s" and "shape_inv G s" and "version_inv n s"
  using sys.reachable [OF assms(3) [unfolded sys_run_def] initial_inv [OF assms(1,2)]]
  by (simp_all add: sys_inv_def)

end
