(* ===== verification/Serializability.thy ===== *)
theory Serializability
  imports Invariants
begin

text \<open>
  The system implements the atomic machine. The abstract heap is the shared heap with the pages
  a committing process has still to copy already in place, so the whole commit happens at the
  moment its read set is found consistent. A section in progress is \<open>faithful\<close>: as long as
  the versions it has read are current, running its code alone from its beginning on the
  abstract heap would have brought it where it is.
\<close>

section \<open>The abstract heap\<close>

definition live :: "view_policy \<Rightarrow> bool" where
  "live vp \<longleftrightarrow> (\<forall>b c. vp b c = c)"

definition overlay :: "gproc \<Rightarrow> memory \<Rightarrow> memory" where
  "overlay p m a = (if copied p (page_of a) then own p a else m a)"

lemma load_live: "live vp \<Longrightarrow> load vp G sh p a = overlay p (heap_view G sh) a"
  by (simp add: live_def load_heap_view overlay_def)

lemma overlay_no_copies [simp]: "no_copies p \<Longrightarrow> overlay p m = m"
  by (simp add: no_copies_def overlay_def fun_eq_iff)

type_synonym commit = "gproc \<times> (addr \<times> u64) list"

definition committing :: "thread \<Rightarrow> commit option" where
  "committing t = (case pc t of Committing es \<Rightarrow> Some (gp t, es) | _ \<Rightarrow> None)"

definition pending :: "sys \<Rightarrow> commit option" where
  "pending s = (case mutex (shd s) of None \<Rightarrow> None | Some i \<Rightarrow> Option.bind (procs s i) committing)"

definition final_heap :: "heap_globals \<Rightarrow> shared \<Rightarrow> commit option \<Rightarrow> memory" where
  "final_heap G sh c a =
     (case c of
        None \<Rightarrow> heap_view G sh a
      | Some (p, es) \<Rightarrow>
          if page_of a \<in> fst ` set es then overlay p (heap_view G sh) a else heap_view G sh a)"

definition final_version :: "shared \<Rightarrow> commit option \<Rightarrow> addr \<Rightarrow> u64" where
  "final_version sh c page =
     (case c of
        None \<Rightarrow> version_of (global_page_version sh) page
      | Some (p, es) \<Rightarrow>
          (case vm_find es page of None \<Rightarrow> version_of (global_page_version sh) page | Some v \<Rightarrow> v))"

lemma committing_simps [simp]:
  "pc t = Committing es \<Longrightarrow> committing t = Some (gp t, es)"
  "\<forall>es. pc t \<noteq> Committing es \<Longrightarrow> committing t = None"
  by (auto simp: committing_def split: pc.splits)

lemma committing_holds: "\<not> holds (pc t) \<Longrightarrow> committing t = None"
  by (auto simp: committing_def split: pc.splits)

lemma committing_Some: "committing t = Some (p, es) \<Longrightarrow> pc t = Committing es \<and> p = gp t"
  by (auto simp: committing_def split: pc.splits)

lemma final_shared:
  "shm sh' = shm sh \<Longrightarrow> final_heap G sh' c = final_heap G sh c"
  "global_page_version sh' = global_page_version sh \<Longrightarrow> final_version sh' c = final_version sh c"
  by (auto simp: final_heap_def final_version_def heap_view_def overlay_def fun_eq_iff split: option.splits)

lemma final_frame [simp]:
  "final_heap G (lock i sh) c = final_heap G sh c" "final_version (lock i sh) c = final_version sh c"
  "final_heap G (unlock sh) c = final_heap G sh c" "final_version (unlock sh) c = final_version sh c"
  "final_heap G (count_rollback sh) c = final_heap G sh c"
  "final_version (count_rollback sh) c = final_version sh c"
  "final_version (copy_part vp G p page part sh) c = final_version sh c"
  by (rule final_shared; simp)+

section \<open>What is pending\<close>

lemma tstep_lock:
  assumes "tstep G vp i (t, sh) (t', sh')"
  shows "holds (pc t) \<Longrightarrow> \<not> holds (pc t') \<Longrightarrow> mutex sh' = None"
    and "\<not> holds (pc t) \<Longrightarrow> \<not> holds (pc t') \<Longrightarrow> mutex sh' = mutex sh"
    and "\<not> holds (pc t) \<Longrightarrow> holds (pc t') \<Longrightarrow> mutex sh = None \<and> committing t' = None"
  using assms by (auto elim!: tstep_elim)

lemma pending_holder:
  "mutex_inv s \<Longrightarrow> procs s i = Some t \<Longrightarrow> holds (pc t) \<Longrightarrow> pending s = committing t"
  by (simp add: pending_def mutex_holder)

lemma pending_free: "mutex (shd s) = None \<Longrightarrow> pending s = None"
  by (simp add: pending_def)

lemma pending_Some:
  assumes "pending s = Some (p, es)"
  obtains i t where "procs s i = Some t" and "pc t = Committing es" and "p = gp t"
  using assms by (auto simp: pending_def dest!: committing_Some split: option.splits bind_splits)

lemma pending_thread:
  assumes "mutex_inv s" and "procs s i = Some t" and "tstep G vp i (t, shd s) (t', sh')"
  shows "pending (set_proc i t' (s\<lparr>shd := sh'\<rparr>))
    = (if holds (pc t) \<or> holds (pc t') then committing t' else pending s)"
proof -
  have mine: "holds (pc t) \<Longrightarrow> mutex (shd s) = Some i" using assms(1,2) by (rule mutex_holder)
  then have held: "holds (pc t') \<Longrightarrow> mutex sh' = Some i" using tstep_mutex(1) [OF assms(3)] by blast
  consider "holds (pc t')" | "holds (pc t)" "\<not> holds (pc t')" | "\<not> holds (pc t)" "\<not> holds (pc t')"
    by blast
  then show ?thesis
  proof cases
    case 1
    then show ?thesis using held by (simp add: pending_def)
  next
    case 2
    then show ?thesis using tstep_lock(1) [OF assms(3)] by (simp add: pending_free committing_holds)
  next
    case 3
    then have "mutex sh' = mutex (shd s)" using tstep_lock(2) [OF assms(3)] by blast
    with 3 assms(2) show ?thesis
      by (auto simp: pending_def committing_holds split: option.splits)
  qed
qed

lemma pending_frame:
  assumes "shd s' = shd s" and "\<And>j. Option.bind (procs s' j) committing = Option.bind (procs s j) committing"
  shows "pending s' = pending s"
  using assms by (simp add: pending_def split: option.split)

section \<open>Quiet steps\<close>

text \<open>
  Every step of a process except the one that finds its read set consistent leaves the abstract
  heap and the final versions as they are.
\<close>

definition decides :: "thread \<Rightarrow> shared \<Rightarrow> bool" where
  "decides t sh \<longleftrightarrow> pc t = Check \<and> IsHeapConsistent sh (gp t)"

lemma heap_view_copy_part:
  "heap_view G (copy_part vp G p page part sh) a
    = (if page_of a = page \<and> a \<in> part then load vp G sh p a else heap_view G sh a)"
  by (simp add: heap_view_def copy_part_def)

lemma final_heap_copying:
  assumes "live vp"
  shows "final_heap G (copy_part vp G p (fst e) part sh) (Some (p, e # es)) a
    = final_heap G sh (Some (p, e # es)) a"
  by (simp add: final_heap_def heap_view_copy_part overlay_def load_live [OF assms])

lemma final_heap_copied:
  assumes "live vp" and "page_of (fst e) = fst e" and "fst e \<notin> fst ` set es"
  shows "final_heap G (CommitPage vp G p e sh) (Some (p, es)) a = final_heap G sh (Some (p, e # es)) a"
proof -
  obtain page v where e: "e = (page, v)" by (cases e)
  show ?thesis
    using assms(2,3) by (auto simp: final_heap_def e heap_view_CommitPage load_live [OF assms(1)] overlay_def)
qed

lemma final_version_copied:
  assumes "fst e \<notin> fst ` set es"
  shows "final_version (CommitPage vp G p e sh) (Some (p, es)) page = final_version sh (Some (p, e # es)) page"
proof -
  obtain pg v where e: "e = (pg, v)" by (cases e)
  have "vm_find es pg = None" using assms by (auto simp: e map_of_eq_None_iff)
  then show ?thesis by (auto simp: final_version_def e split: option.splits)
qed

lemma quiet_step:
  assumes "tstep G vp i (t, sh) (t', sh')" and "\<not> decides t sh" and "live vp"
    and "versions_ok n (global_page_version sh) t"
  shows "final_heap G sh' (committing t') = final_heap G sh (committing t)
    \<and> final_version sh' (committing t') = final_version sh (committing t)"
  using assms(1)
proof (cases rule: tstep.cases)
  case (copying e es part)
  then show ?thesis
    by (simp add: fun_eq_iff final_heap_copying [OF assms(3)])
next
  case (copied e es)
  then have "page_of (fst e) = fst e" "fst e \<notin> fst ` set es"
    using assms(4) by (auto simp: versions_ok_def)
  with copied assms(3) show ?thesis
    by (simp add: fun_eq_iff final_heap_copied final_version_copied)
next
  case (update p')
  then show ?thesis by (simp add: final_heap_def final_version_def fun_eq_iff)
next
  case consistent
  then show ?thesis using assms(2) by (simp add: decides_def)
qed (simp_all add: committing_def)

lemma tstep_heap_same:
  assumes "tstep G vp i (t, sh) (t', sh')" and "\<not> holds (pc t)"
  shows "shm sh' = shm sh" and "global_page_version sh' = global_page_version sh"
  using assms by (auto elim!: tstep_elim)

lemma quiet_system:
  assumes "tstep G vp i (t, shd s) (t', sh')" and "\<not> decides t (shd s)" and "live vp"
    and "version_inv n s" and "mutex_inv s" and "procs s i = Some t"
  shows "final_heap G sh' (pending (set_proc i t' (s\<lparr>shd := sh'\<rparr>))) = final_heap G (shd s) (pending s)"
    and "final_version sh' (pending (set_proc i t' (s\<lparr>shd := sh'\<rparr>))) = final_version (shd s) (pending s)"
proof -
  have ok: "versions_ok n (global_page_version (shd s)) t"
    using assms(4,6) by (simp add: version_inv_def)
  note pend = pending_thread [OF assms(5,6,1)]
  have "final_heap G sh' (pending (set_proc i t' (s\<lparr>shd := sh'\<rparr>))) = final_heap G (shd s) (pending s)
    \<and> final_version sh' (pending (set_proc i t' (s\<lparr>shd := sh'\<rparr>))) = final_version (shd s) (pending s)"
  proof (cases "holds (pc t)")
    case True
    then show ?thesis
      using quiet_step [OF assms(1-3) ok] pend pending_holder [OF assms(5,6)] by simp
  next
    case False
    have "pending (set_proc i t' (s\<lparr>shd := sh'\<rparr>)) = pending s"
    proof (cases "holds (pc t')")
      case True
      with False tstep_lock(3) [OF assms(1)] have "mutex (shd s) = None" "committing t' = None" by blast+
      with True pend show ?thesis by (simp add: pending_free)
    qed (use False pend in simp)
    then show ?thesis using False tstep_heap_same [OF assms(1)] final_shared by metis
  qed
  then show "final_heap G sh' (pending (set_proc i t' (s\<lparr>shd := sh'\<rparr>))) = final_heap G (shd s) (pending s)"
    and "final_version sh' (pending (set_proc i t' (s\<lparr>shd := sh'\<rparr>))) = final_version (shd s) (pending s)"
    by blast+
qed

section \<open>Faithful sections\<close>

definition current :: "(addr \<Rightarrow> u64) \<Rightarrow> gproc \<Rightarrow> bool" where
  "current fv p \<longleftrightarrow> (\<forall>page v. vm_find (read_set_version p) page = Some v \<longrightarrow> v = fv page)"

definition agrees :: "gproc \<Rightarrow> memory \<Rightarrow> memory \<Rightarrow> bool" where
  "agrees p m H \<longleftrightarrow> (\<forall>a. vm_find (read_set_version p) (page_of a) \<noteq> None \<longrightarrow> m a = H a)"

definition faithful :: "heap_globals \<Rightarrow> memory \<Rightarrow> (addr \<Rightarrow> u64) \<Rightarrow> thread \<Rightarrow> bool" where
  "faithful G H fv t \<longleftrightarrow>
     (in_section (pc t) \<longrightarrow> current fv (gp t) \<longrightarrow>
        (\<forall>m. agrees (gp t) m H \<longrightarrow> runs G (ctx t) m (cur t) (overlay (gp t) m)))"

lemma faithfulD:
  "faithful G H fv t \<Longrightarrow> in_section (pc t) \<Longrightarrow> current fv (gp t) \<Longrightarrow> agrees (gp t) m H \<Longrightarrow>
    runs G (ctx t) m (cur t) (overlay (gp t) m)"
  unfolding faithful_def by blast

lemma faithful_outside: "\<not> in_section (pc t) \<Longrightarrow> faithful G H fv t"
  by (simp add: faithful_def)

lemma faithful_same:
  "faithful G H fv t \<Longrightarrow> in_section (pc t) \<Longrightarrow> gp t' = gp t \<Longrightarrow> cur t' = cur t \<Longrightarrow> ctx t' = ctx t \<Longrightarrow>
    faithful G H fv t'"
  by (simp add: faithful_def)

lemma overlay_store:
  assumes "live vp" and "\<And>x. page_of x = page_of a \<Longrightarrow> heap_view G sh x = m x"
  shows "overlay (store vp G sh a v p) m = (overlay p m)(a := v)"
  using assms(2)
  by (auto simp: fun_eq_iff overlay_def store_def Let_def load_live [OF assms(1)])

lemma readable:
  assumes "sets_ok G p" and "heap_aligned G" and "in_heap G a" and "prot_of p (page_of a) \<noteq> PROT_NONE"
  shows "vm_find (read_set_version p) (page_of a) \<noteq> None"
  using assms by (simp add: sets_ok_def in_heap_page)

lemma fault_overlay:
  assumes "SegfaultHandler G True a p = Inr p'"
  shows "overlay p' m = overlay p m"
  using assms by (elim SegfaultHandler_Inr) (auto simp: handler_simps overlay_def fun_eq_iff)

lemma fault_reads:
  assumes "SegfaultHandler G True a p = Inr p'"
  shows "vm_find (read_set_version p) page = Some v \<Longrightarrow> vm_find (read_set_version p') page = Some v"
  using assms by (elim SegfaultHandler_Inr) (auto simp: handler_simps)

lemma faithful_fault:
  assumes "faithful G H fv t" and "in_section (pc t)" and "SegfaultHandler G True a (gp t) = Inr p'"
  shows "faithful G H fv (t\<lparr>gp := p'\<rparr>)"
proof -
  have "current fv (gp t)" if "current fv p'"
    using that fault_reads [OF assms(3)] unfolding current_def by blast
  moreover have "agrees (gp t) m H" if "agrees p' m H" for m
    using that fault_reads [OF assms(3)] unfolding agrees_def by blast
  ultimately show ?thesis
    using faithfulD [OF assms(1,2)] by (simp add: faithful_def fault_overlay [OF assms(3)])
qed

text \<open>
  One step of a process keeps its section faithful, if the pages it has read at current versions
  hold what the abstract heap does.
\<close>

lemma faithful_tstep:
  assumes "tstep G vp i (t, sh) (t', sh')" and "shape G t" and "heap_aligned G" and "live vp"
    and "faithful G H fv t"
    and seen: "\<And>a v. in_section (pc t) \<Longrightarrow> vm_find (read_set_version (gp t)) (page_of a) = Some v \<Longrightarrow>
      v = fv (page_of a) \<Longrightarrow> heap_view G sh a = H a"
  shows "faithful G H fv t'"
  using assms(1)
proof (cases rule: tstep.cases)
  case protect
  then have "no_copies (gp t)" "cur t = ctx t" using assms(2) by (simp_all add: shape_def pc_groups)
  with protect show ?thesis by (simp add: faithful_def)
next
  case (load a k)
  have ok: "in_section (pc t)" "sets_ok G (gp t)" using load(3) assms(2) by (simp_all add: shape_def pc_groups)
  obtain v where v: "vm_find (read_set_version (gp t)) (page_of a) = Some v"
    using readable [OF ok(2) assms(3) load(5)] load(4,5,6) faults_None(1) by fastforce
  have "runs G (ctx t) m (k (load vp G sh (gp t) a)) (overlay (gp t) m)"
    if "current fv (gp t)" "agrees (gp t) m H" for m
  proof -
    have "heap_view G sh a = H a" using seen [OF ok(1) v] that(1) v by (simp add: current_def)
    moreover have "m a = H a" using that(2) v by (simp add: agrees_def)
    ultimately have "overlay (gp t) m a = load vp G sh (gp t) a"
      by (simp add: load_live [OF assms(4)] overlay_def)
    then show ?thesis
      using faithfulD [OF assms(5) ok(1) that] load(4,5) by (auto intro: runs_load)
  qed
  with load show ?thesis by (simp add: faithful_def)
next
  case (store a v c)
  have ok: "in_section (pc t)" "sets_ok G (gp t)" using store(3) assms(2) by (simp_all add: shape_def pc_groups)
  obtain r where r: "vm_find (read_set_version (gp t)) (page_of a) = Some r"
    using readable [OF ok(2) assms(3) store(5)] store(4,5,6) faults_None(2) by fastforce
  have "runs G (ctx t) m c (overlay (store vp G sh a v (gp t)) m)"
    if "current fv (gp t)" "agrees (gp t) m H" for m
  proof -
    have "heap_view G sh x = m x" if "page_of x = page_of a" for x
      using seen [OF ok(1), of x r] \<open>current fv (gp t)\<close> \<open>agrees (gp t) m H\<close> r that
      by (simp add: current_def agrees_def)
    then have "overlay (store vp G sh a v (gp t)) m = (overlay (gp t) m)(a := v)"
      by (rule overlay_store [OF assms(4)])
    then show ?thesis
      using faithfulD [OF assms(5) ok(1) that] store(4,5) by (auto intro: runs_store)
  qed
  with store show ?thesis by (simp add: faithful_def current_def agrees_def)
next
  case (fault a p')
  then show ?thesis using faithful_fault [OF assms(5)] by (simp add: pc_groups)
qed (use assms(5) in \<open>auto simp: faithful_def pc_groups\<close>)

text \<open>
  A commit by another process keeps it faithful too: if the section has read a page that is
  being committed, its versions are no longer current.
\<close>

lemma faithful_commit:
  assumes "faithful G H fv t" and "shape G t" and "versions_ok n global t"
    and same: "\<And>page. page \<notin> W \<Longrightarrow> fv' page = fv page"
    and heap: "\<And>a. page_of a \<notin> W \<Longrightarrow> H' a = H a"
    and newer: "\<And>page. page \<in> W \<Longrightarrow> unat (version_of global page) < unat (fv' page)"
  shows "faithful G H' fv' t"
  unfolding faithful_def
proof (intro impI allI)
  fix m
  assume sec: "in_section (pc t)" and cur: "current fv' (gp t)" and m: "agrees (gp t) m H'"
  have ok: "sets_ok G (gp t)" using assms(2) sec by (simp add: shape_def)
  have untouched: "page \<notin> W" if "vm_find (read_set_version (gp t)) page = Some v" for page v
  proof
    assume "page \<in> W"
    have "v = version_of (local_page_version (gp t)) page" using sets_okD_read [OF ok that] by blast
    then have "unat v \<le> unat (version_of global page)" using assms(3) sec by (simp add: versions_ok_def)
    moreover have "v = fv' page" using cur that by (simp add: current_def)
    ultimately show False using newer [OF \<open>page \<in> W\<close>] by simp
  qed
  have "current fv (gp t)" using cur untouched same unfolding current_def by metis
  moreover have "agrees (gp t) m H" using m untouched heap unfolding agrees_def by (metis not_Some_eq)
  ultimately show "runs G (ctx t) m (cur t) (overlay (gp t) m)"
    by (rule faithfulD [OF assms(1) sec])
qed

section \<open>The simulation\<close>

abbreviation heap_of :: "heap_globals \<Rightarrow> sys \<Rightarrow> memory" where
  "heap_of G s \<equiv> final_heap G (shd s) (pending s)"

abbreviation versions_in :: "sys \<Rightarrow> addr \<Rightarrow> u64" where
  "versions_in s \<equiv> final_version (shd s) (pending s)"

definition all_faithful :: "heap_globals \<Rightarrow> sys \<Rightarrow> bool" where
  "all_faithful G s \<longleftrightarrow> (\<forall>i t. procs s i = Some t \<longrightarrow> faithful G (heap_of G s) (versions_in s) t)"

definition where_is :: "thread \<Rightarrow> athread" where
  "where_is t =
     (if pc t = Save then Running (cur t)
      else if at_start (pc t) \<or> in_section (pc t) \<or> pc t = Unlock_Failed \<or> pc t = Abort_Section
      then Running (ctx t)
      else Committed (cur t))"

definition abs_thread :: "thread \<Rightarrow> athread" where
  "abs_thread t =
     (if alive t then where_is t
      else case (pc t, cur t) of (After, Return) \<Rightarrow> Exited | _ \<Rightarrow> Crashed)"

lemma abs_thread_alive: "alive t \<Longrightarrow> abs_thread t = where_is t"
  by (simp add: abs_thread_def)

lemma abs_thread_dead: "\<not> alive t \<Longrightarrow> abs_thread t = Exited \<or> abs_thread t = Crashed"
  by (simp add: abs_thread_def split: pc.split prog.split)

lemma abs_thread_dies:
  "abs_thread (t\<lparr>alive := False\<rparr>) = Crashed
    \<or> abs_thread (t\<lparr>alive := False\<rparr>) = Exited \<and> where_is t = Committed Return"
  by (simp add: abs_thread_def where_is_def pc_groups split: pc.split prog.split)

lemma where_is_live [simp]: "\<not> ended (Some (where_is t))"
  by (simp add: where_is_def ended_def)

definition abs_sys :: "heap_globals \<Rightarrow> sys \<Rightarrow> atomic" where
  "abs_sys G s = \<lparr>heap = heap_of G s, threads = (\<lambda>i. map_option abs_thread (procs s i))\<rparr>"

lemma seen_heap:
  assumes "version_inv n s" and "procs s i = Some t" and "shape G t" and "in_section (pc t)"
    and "vm_find (read_set_version (gp t)) (page_of a) = Some v" and "v = versions_in s (page_of a)"
  shows "heap_view G (shd s) a = heap_of G s a"
proof (cases "pending s")
  case None
  then show ?thesis by (simp add: final_heap_def)
next
  case (Some commit)
  then obtain p es where pend: "pending s = Some (p, es)" by (cases commit) auto
  then obtain j u where u: "procs s j = Some u" "pc u = Committing es" by (rule pending_Some)
  have "page_of a \<notin> fst ` set es"
  proof
    assume "page_of a \<in> fst ` set es"
    then obtain w where w: "(page_of a, w) \<in> set es" by auto
    have ok: "versions_ok n (global_page_version (shd s)) u" using assms(1) u(1) by (simp add: version_inv_def)
    then have "distinct (map fst es)" "unat w = Suc (unat (version_of (global_page_version (shd s)) (page_of a)))"
      using u(2) w by (auto simp: versions_ok_def)
    moreover from this w have "versions_in s (page_of a) = w" by (simp add: pend final_version_def)
    moreover have "v = version_of (local_page_version (gp t)) (page_of a)"
      using sets_okD_read [OF shape_sets [OF assms(3,4)] assms(5)] by blast
    moreover have "unat (version_of (local_page_version (gp t)) (page_of a))
        \<le> unat (version_of (global_page_version (shd s)) (page_of a))"
      using assms(1,2,4) by (simp add: version_inv_def versions_ok_def)
    ultimately show False using assms(6) by simp
  qed
  then show ?thesis by (simp add: pend final_heap_def)
qed

text \<open>The step that decides a commit.\<close>

lemma decided:
  assumes "mutex_inv s" and "procs s i = Some t" and "decides t (shd s)"
    and "tstep G vp i (t, shd s) (t', sh')"
  shows "t' = t\<lparr>pc := Committing (write_set_version (gp t))\<rparr>" and "sh' = shd s" and "pending s = None"
    and "pending (set_proc i t' (s\<lparr>shd := sh'\<rparr>)) = Some (gp t, write_set_version (gp t))"
proof -
  have pc: "pc t = Check" "IsHeapConsistent (shd s) (gp t)" using assms(3) by (simp_all add: decides_def)
  show eqs: "t' = t\<lparr>pc := Committing (write_set_version (gp t))\<rparr>" "sh' = shd s"
    using assms(4) pc by (auto elim!: tstep_elim)
  show "pending s = None"
    using pending_holder [OF assms(1,2)] pc by (simp add: committing_def)
  show "pending (set_proc i t' (s\<lparr>shd := sh'\<rparr>)) = Some (gp t, write_set_version (gp t))"
    using pending_thread [OF assms(1,2,4)] pc eqs by (simp add: committing_def)
qed

lemma decided_heap:
  assumes "sets_ok G p"
  shows "final_heap G sh (Some (p, write_set_version p)) = overlay p (heap_view G sh)"
proof
  fix a
  have "page_of a \<in> fst ` set (write_set_version p)" if "copied p (page_of a)"
    using assms that unfolding sets_ok_def by (metis domIff dom_map_of_conv_image_fst)
  then show "final_heap G sh (Some (p, write_set_version p)) a = overlay p (heap_view G sh) a"
    by (auto simp: final_heap_def overlay_def)
qed

lemma decided_versions:
  assumes "vm_wf es" and "(page, v) \<in> set es"
  shows "final_version sh (Some (p, es)) page = v"
  using assms by (simp add: final_version_def vm_wf_def)

lemma faithful_system:
  assumes "all_faithful G s" and "mutex_inv s" and "shape_inv G s" and "version_inv n s"
    and "Suc n < 2 ^ 64" and "live vp" and "procs s i = Some t" and "tstep G vp i (t, shd s) (t', sh')"
  shows "all_faithful G (set_proc i t' (s\<lparr>shd := sh'\<rparr>))"
proof -
  let ?s' = "set_proc i t' (s\<lparr>shd := sh'\<rparr>)"
  have aligned: "heap_aligned G" and shape: "\<And>j u. procs s j = Some u \<Longrightarrow> shape G u"
    using assms(3) by (simp_all add: shape_inv_def)
  have versions: "\<And>j u. procs s j = Some u \<Longrightarrow> versions_ok n (global_page_version (shd s)) u"
    and wf: "vm_wf (global_page_version (shd s))"
    and bound: "\<forall>page. unat (version_of (global_page_version (shd s)) page) \<le> n"
    using assms(4) by (simp_all add: version_inv_def)
  have old: "\<And>j u. procs s j = Some u \<Longrightarrow> faithful G (heap_of G s) (versions_in s) u"
    using assms(1) by (simp add: all_faithful_def)
  have "faithful G (heap_of G ?s') (versions_in ?s') u" if "procs ?s' j = Some u" for j u
  proof (cases "decides t (shd s)")
    case False
    note same = quiet_system [OF assms(8) False assms(6,4,2,7)]
    have "faithful G (heap_of G s) (versions_in s) t'"
      using faithful_tstep [OF assms(8) shape [OF assms(7)] aligned assms(6) old [OF assms(7)]]
        seen_heap [OF assms(4,7) shape [OF assms(7)]] by blast
    then show ?thesis using same old that by (cases "j = i") simp_all
  next
    case True
    note dec = decided [OF assms(2,7) True assms(8)]
    let ?W = "write_set_version (gp t)"
    have "in_section (pc t)" using True by (simp add: decides_def pc_groups)
    then have ok: "sets_ok G (gp t)" using shape [OF assms(7)] by (simp add: shape_def)
    then have wfW: "vm_wf ?W" by (simp add: sets_ok_def)
    show ?thesis
    proof (cases "j = i")
      case True
      with that dec(1) show ?thesis by (intro faithful_outside) (auto simp: pc_groups)
    next
      case False
      with that have u: "procs s j = Some u" by simp
      show ?thesis
      proof (rule faithful_commit [OF old [OF u] shape [OF u] versions [OF u]])
        show "versions_in ?s' page = versions_in s page" if "page \<notin> fst ` set ?W" for page
        proof -
          have "vm_find ?W page = None" using that by (simp add: map_of_eq_None_iff)
          then show ?thesis using dec by (simp add: final_version_def)
        qed
        show "heap_of G ?s' a = heap_of G s a" if "page_of a \<notin> fst ` set ?W" for a
          using dec that by (simp add: final_heap_def)
        show "unat (version_of (global_page_version (shd s)) page) < unat (versions_in ?s' page)"
          if written: "page \<in> fst ` set ?W" for page
        proof -
          obtain v where v: "(page, v) \<in> set ?W" using written by auto
          have "versions_ok (Suc n) (global_page_version sh') t'"
            by (rule tstep_versions_ok [OF assms(8) shape [OF assms(7)] versions [OF assms(7)] wf bound assms(5)])
          then have "unat v = Suc (unat (version_of (global_page_version (shd s)) page))"
            using v dec(1,2) by (auto simp: versions_ok_def)
          moreover have "versions_in ?s' page = v"
            using decided_versions [OF wfW v] dec(2,4) by simp
          ultimately show ?thesis by simp
        qed
      qed
    qed
  qed
  then show ?thesis by (simp add: all_faithful_def)
qed

section \<open>The other steps\<close>

lemma pending_set:
  assumes "committing u = None" and "Option.bind (procs s i) committing = None"
  shows "pending (set_proc i u s) = pending s"
  by (rule pending_frame) (use assms in \<open>simp_all\<close>)

lemma pending_reaped [simp]: "pending (s\<lparr>reaped := r\<rparr>) = pending s"
  by (simp add: pending_def split: option.split)

lemma all_faithful_set:
  assumes "all_faithful G s" and "pending (set_proc i u s) = pending s"
    and "faithful G (heap_of G s) (versions_in s) u"
  shows "all_faithful G (set_proc i u s)"
  using assms by (simp add: all_faithful_def)

lemma all_faithful_reaped [simp]: "all_faithful G (s\<lparr>reaped := r\<rparr>) = all_faithful G s"
  by (simp add: all_faithful_def)

lemma abs_set:
  "pending (set_proc i u s) = pending s \<Longrightarrow>
    abs_sys G (set_proc i u s)
      = (abs_sys G s)\<lparr>threads := (threads (abs_sys G s))(i \<mapsto> abs_thread u)\<rparr>"
  by (simp add: abs_sys_def fun_eq_iff)

lemma abs_reaped [simp]: "abs_sys G (s\<lparr>reaped := r\<rparr>) = abs_sys G s"
  by (simp add: abs_sys_def)

lemma abs_threads: "procs s i = Some t \<Longrightarrow> threads (abs_sys G s) i = Some (abs_thread t)"
  by (simp add: abs_sys_def)

lemma abs_set_same:
  "procs s i = Some t \<Longrightarrow> abs_thread u = abs_thread t \<Longrightarrow> pending (set_proc i u s) = pending s \<Longrightarrow>
    abs_sys G (set_proc i u s) = abs_sys G s"
  by (simp add: abs_sys_def fun_eq_iff)

lemma committing_None [simp]:
  "pc t \<in> {Save, Wait, Commit_Lock, After, Join_Wait} \<Longrightarrow> committing t = None"
  by (auto simp: committing_def)

lemma faithful_other_steps:
  assumes "all_faithful G s" and "sys_step no_order G vp s s'"
    and "\<And>i t t' sh'. procs s i = Some t \<Longrightarrow> tstep G vp i (t, shd s) (t', sh') \<Longrightarrow>
      all_faithful G (set_proc i t' (s\<lparr>shd := sh'\<rparr>))"
  shows "all_faithful G s'"
  using assms(2)
proof (cases rule: sys_step.cases)
  case (thread i t t' sh')
  with assms(3) show ?thesis by blast
next
  case (waited i t)
  have "faithful G (heap_of G s) (versions_in s) t" using assms(1) waited(2) by (simp add: all_faithful_def)
  then have "faithful G (heap_of G s) (versions_in s) (t\<lparr>pc := Commit_Lock\<rparr>)"
    by (rule faithful_same) (simp_all add: waited pc_groups)
  with waited assms(1) show ?thesis
    unfolding waited(1) by (intro all_faithful_set pending_set) simp_all
next
  case (forked i t c k j)
  let ?child = "t\<lparr>gp := child_side no_order j (gp t), cur := c, pc := Save, parent := i\<rparr>"
  have "pending (set_proc j ?child s) = pending s" using forked by (intro pending_set) simp_all
  moreover from this have "all_faithful G (set_proc j ?child s)"
    using assms(1) by (intro all_faithful_set faithful_outside) (simp_all add: pc_groups)
  moreover have "Option.bind (procs (set_proc j ?child s) i) committing = None"
    using forked by auto
  ultimately show ?thesis
    unfolding forked(1) by (intro all_faithful_set [of G "set_proc j ?child s"] pending_set
        faithful_outside) (simp_all add: pc_groups)
next
  case (joined i t j c)
  with assms(1) show ?thesis
    unfolding joined(1) by (intro all_faithful_set pending_set faithful_outside) (simp_all add: pc_groups)
next
  case (adopted i t)
  with assms(1) show ?thesis by simp
qed

lemma pending_dies:
  "procs s i = Some t \<Longrightarrow> pending (set_proc i (t\<lparr>alive := False\<rparr>) s) = pending s"
  by (rule pending_frame) (auto simp: committing_def split: pc.split)

lemma faithful_dies:
  assumes "all_faithful G s" and "dies s s'"
  shows "all_faithful G s'"
  using assms(2)
proof (cases rule: dies.cases)
  case (dies i t)
  have "faithful G (heap_of G s) (versions_in s) (t\<lparr>alive := False\<rparr>)"
    using assms(1) dies(2) by (simp add: all_faithful_def faithful_def)
  with assms(1) pending_dies [OF dies(2)] show ?thesis
    unfolding dies(1) by (intro all_faithful_set)
qed

text \<open>Steps of one process: a commit, an exit, or nothing on the atomic machine.\<close>

lemma abs_set_proc:
  "abs_sys G (set_proc i t (s\<lparr>shd := sh\<rparr>)) = \<lparr>heap = heap_of G (set_proc i t (s\<lparr>shd := sh\<rparr>)),
     threads = (threads (abs_sys G s))(i \<mapsto> abs_thread t)\<rparr>"
  by (simp add: abs_sys_def fun_eq_iff)

lemma section_ran:
  assumes "all_faithful G s" and "procs s i = Some t" and "in_section (pc t)" and "current (versions_in s) (gp t)"
  shows "runs G (ctx t) (heap_of G s) (cur t) (overlay (gp t) (heap_of G s))"
proof -
  have "faithful G (heap_of G s) (versions_in s) t" using assms(1,2) by (simp add: all_faithful_def)
  from faithfulD [OF this assms(3,4)] show ?thesis by (simp add: agrees_def)
qed

lemma simulated_commit:
  assumes "all_faithful G s" and "mutex_inv s" and "shape_inv G s" and "version_inv n s"
    and "procs s i = Some t" and "alive t" and "tstep G vp i (t, shd s) (t', sh')" and "decides t (shd s)"
  shows "astep G (abs_sys G s) (abs_sys G (set_proc i t' (s\<lparr>shd := sh'\<rparr>)))"
proof -
  note dec = decided [OF assms(2,5,8,7)]
  have shape: "shape G t" using assms(3,5) by (simp add: shape_inv_def)
  have sec: "in_section (pc t)" and consistent: "IsHeapConsistent (shd s) (gp t)" and ends: "ends_section (cur t)"
    using assms(8) shape by (simp_all add: decides_def pc_groups shape_def)
  note ok = shape_sets [OF shape sec]
  have "\<forall>page. unat (version_of (local_page_version (gp t)) page)
      \<le> unat (version_of (global_page_version (shd s)) page)"
    using assms(4,5) sec by (simp add: version_inv_def versions_ok_def)
  then have "current (versions_in s) (gp t)"
    using consistent_read_set [OF ok consistent] dec(3) by (simp add: current_def final_version_def)
  note run = section_ran [OF assms(1,5) sec this]
  have "heap_of G s = heap_view G (shd s)" using dec(3) by (simp add: fun_eq_iff final_heap_def)
  with dec(2,4) ok have heap: "heap_of G (set_proc i t' (s\<lparr>shd := sh'\<rparr>)) = overlay (gp t) (heap_of G s)"
    by (simp add: decided_heap)
  have "abs_thread t = Running (ctx t)" using assms(6) sec assms(8) by (simp add: abs_thread_def where_is_def decides_def)
  moreover have "abs_thread t' = Committed (cur t)" using dec(1) assms(6) by (simp add: abs_thread_def where_is_def pc_groups)
  ultimately show ?thesis
    using astep.run_section [of "abs_sys G s" i "ctx t" G "cur t" "overlay (gp t) (heap_of G s)"]
      abs_threads [OF assms(5)] run ends
    unfolding abs_set_proc heap by (simp add: abs_sys_def)
qed

text \<open>A section that touched nothing commits without a decision, and leaves the heap as it is.\<close>

lemma simulated_untouched:
  assumes "all_faithful G s" and "shape_inv G s" and "procs s i = Some t" and "alive t"
    and "pc t = Entry" and "nothing_accessed (gp t)"
  shows "astep G (abs_sys G s) ((abs_sys G s)\<lparr>threads := (threads (abs_sys G s))(i \<mapsto> Committed (cur t))\<rparr>)"
proof -
  have shape: "shape G t" using assms(2,3) by (simp add: shape_inv_def)
  have sec: "in_section (pc t)" and ends: "ends_section (cur t)"
    using assms(5) shape by (simp_all add: pc_groups shape_def)
  have "no_copies (gp t)" "current (versions_in s) (gp t)"
    using shape_sets [OF shape sec] assms(6)
    by (auto simp: sets_ok_def nothing_accessed_def no_copies_def current_def)
  then have run: "runs G (ctx t) (heap_of G s) (cur t) (heap_of G s)"
    using section_ran [OF assms(1,3) sec] by simp
  have "abs_thread t = Running (ctx t)" using assms(4,5) by (simp add: abs_thread_def where_is_def pc_groups)
  then show ?thesis
    using astep.run_section [of "abs_sys G s" i "ctx t" G "cur t" "heap_of G s"] abs_threads [OF assms(3)] run ends
    by (simp add: abs_sys_def)
qed

lemma simulated_thread:
  assumes "all_faithful G s" and "mutex_inv s" and "shape_inv G s" and "version_inv n s" and "live vp"
    and "procs s i = Some t" and "alive t" and "tstep G vp i (t, shd s) (t', sh')"
  shows "abs_sys G (set_proc i t' (s\<lparr>shd := sh'\<rparr>)) = abs_sys G s
    \<or> astep G (abs_sys G s) (abs_sys G (set_proc i t' (s\<lparr>shd := sh'\<rparr>)))"
proof (cases "decides t (shd s)")
  case True
  then show ?thesis using simulated_commit [OF assms(1-4,6-8)] by blast
next
  case False
  let ?s' = "set_proc i t' (s\<lparr>shd := sh'\<rparr>)"
  have heap: "abs_sys G ?s' = (abs_sys G s)\<lparr>threads := (threads (abs_sys G s))(i \<mapsto> abs_thread t')\<rparr>"
    unfolding abs_set_proc using quiet_system [OF assms(8) False assms(5,4,2,6)] by (simp add: abs_sys_def)
  have idle: "abs_thread t' = abs_thread t \<Longrightarrow> abs_sys G ?s' = abs_sys G s"
    unfolding heap using abs_threads [OF assms(6), of G] by (simp add: fun_upd_idem)
  note thread = abs_thread_def where_is_def pc_groups
  show ?thesis
    using assms(8)
  proof (cases rule: tstep.cases)
    case (untouched p')
    then have "abs_thread t' = Committed (cur t)" using assms(7) by (simp add: thread)
    then show ?thesis
      using simulated_untouched [OF assms(1,3,6,7)] untouched(3,4) unfolding heap by simp
  next
    case exit
    then have "abs_thread t = Committed Return" "abs_thread t' = Exited" using assms(7) by (simp_all add: thread)
    then have "astep G (abs_sys G s) (abs_sys G ?s')"
      using abs_threads [OF assms(6)] unfolding heap by (auto intro: astep.exit)
    then show ?thesis ..
  next
    case quit
    then have "abs_thread t' = Crashed" using assms(7) by (simp add: abs_thread_def)
    then have "astep G (abs_sys G s) (abs_sys G ?s')"
      using abs_threads [OF assms(6)] abs_thread_alive [OF assms(7)] unfolding heap by (auto intro: astep.crash)
    then show ?thesis ..
  next
    case save
    with assms(7) show ?thesis by (intro disjI1 idle) (simp add: thread)
  next
    case consistent
    with False show ?thesis by (simp add: decides_def)
  next
    case abort
    with assms(7) show ?thesis by (intro disjI1 idle) (simp add: thread)
  qed ((intro disjI1 idle, simp add: assms(7) thread)+)
qed

lemma abs_forked:
  assumes "procs s i = Some t" and "alive t" and "pc t = After" and "cur t = Spawn c k" and "procs s j = None"
  shows "threads (abs_sys G s) i = Some (Committed (Spawn c k))" and "threads (abs_sys G s) j = None"
    and "abs_sys G (set_proc i (t\<lparr>gp := parent_side j (gp t), cur := k j, pc := Save\<rparr>)
        (set_proc j (t\<lparr>gp := child_side no_order j (gp t), cur := c, pc := Save, parent := i\<rparr>) s))
      = (abs_sys G s)\<lparr>threads := (threads (abs_sys G s))(j \<mapsto> Running c, i \<mapsto> Running (k j))\<rparr>"
proof -
  let ?child = "t\<lparr>gp := child_side no_order j (gp t), cur := c, pc := Save, parent := i\<rparr>"
  let ?parent = "t\<lparr>gp := parent_side j (gp t), cur := k j, pc := Save\<rparr>"
  have threads: "abs_thread ?child = Running c" "abs_thread ?parent = Running (k j)"
      "abs_thread t = Committed (Spawn c k)"
    using assms(2-4) by (simp_all add: abs_thread_def where_is_def pc_groups)
  then show "threads (abs_sys G s) i = Some (Committed (Spawn c k))" using abs_threads [OF assms(1)] by simp
  show "threads (abs_sys G s) j = None" using assms(5) by (simp add: abs_sys_def)
  have "pending (set_proc j ?child s) = pending s" using assms(5) by (intro pending_set) simp_all
  moreover have "pending (set_proc i ?parent (set_proc j ?child s)) = pending (set_proc j ?child s)"
    by (rule pending_set) (use assms in auto)
  ultimately show "abs_sys G (set_proc i ?parent (set_proc j ?child s))
      = (abs_sys G s)\<lparr>threads := (threads (abs_sys G s))(j \<mapsto> Running c, i \<mapsto> Running (k j))\<rparr>"
    by (simp add: abs_set threads)
qed

lemma simulated_other_steps:
  assumes "mutex_inv s" and "sys_step no_order G vp s s'"
    and "\<And>i t t' sh'. procs s i = Some t \<Longrightarrow> alive t \<Longrightarrow> tstep G vp i (t, shd s) (t', sh') \<Longrightarrow>
      abs_sys G (set_proc i t' (s\<lparr>shd := sh'\<rparr>)) = abs_sys G s
      \<or> astep G (abs_sys G s) (abs_sys G (set_proc i t' (s\<lparr>shd := sh'\<rparr>)))"
  shows "abs_sys G s' = abs_sys G s \<or> astep G (abs_sys G s) (abs_sys G s')"
  using assms(2)
proof (cases rule: sys_step.cases)
  case (thread i t t' sh')
  with assms(3) show ?thesis by blast
next
  case (waited i t)
  let ?s = "s\<lparr>reaped := collect s i (predecessor (gp t))\<rparr>"
  have "abs_sys G (set_proc i (t\<lparr>pc := Commit_Lock\<rparr>) ?s) = abs_sys G ?s"
    using waited by (intro abs_set_same [of _ _ t] pending_set) (simp_all add: abs_thread_def where_is_def pc_groups)
  then show ?thesis unfolding waited(1) by simp
next
  case (forked i t c k j)
  note abs = abs_forked [OF forked(2-5,7)]
  have "j \<noteq> i" using forked(2,7) by auto
  then have "astep G (abs_sys G s) (abs_sys G s')"
    using astep.spawn [OF abs(1) forked(6) _ abs(2)] unfolding forked(1) abs(3) by blast
  then show ?thesis ..
next
  case (joined i t j c)
  let ?s = "s\<lparr>reaped := collect s i j\<rparr>"
  have "abs_sys G s' = (abs_sys G ?s)\<lparr>threads := (threads (abs_sys G ?s))
      (i \<mapsto> abs_thread (t\<lparr>cur := c, pc := Save\<rparr>))\<rparr>"
    unfolding joined(1) by (intro abs_set pending_set) (simp_all add: joined)
  moreover have "abs_thread t = Committed (Await j c)" "abs_thread (t\<lparr>cur := c, pc := Save\<rparr>) = Running c"
    using joined(3-5) by (simp_all add: abs_thread_def where_is_def pc_groups)
  moreover have "j = 0 \<or> ended (threads (abs_sys G s) j)"
    using wait_returns_dead [OF joined(6)] assms(1) abs_thread_dead
    by (fastforce simp: abs_sys_def ended_def mutex_inv_def)
  ultimately have "astep G (abs_sys G s) (abs_sys G s')"
    using astep.await [of "abs_sys G s" i j c G] abs_threads [OF joined(2), of G] by simp
  then show ?thesis ..
next
  case (adopted i t)
  then show ?thesis by simp
qed

lemma simulated_dies:
  assumes "dies s s'"
  shows "astep G (abs_sys G s) (abs_sys G s')"
  using assms
proof (cases rule: dies.cases)
  case (dies i t)
  have "abs_sys G s' = (abs_sys G s)\<lparr>threads := (threads (abs_sys G s))(i \<mapsto> abs_thread (t\<lparr>alive := False\<rparr>))\<rparr>"
    unfolding dies(1) using abs_set [OF pending_dies [OF dies(2)]] by simp
  moreover have "threads (abs_sys G s) i = Some (where_is t)"
    using abs_threads [OF dies(2), of G] dies(3) by (simp add: abs_thread_alive)
  ultimately show ?thesis
    using abs_thread_dies [of t] by (auto intro: astep.crash [OF _ where_is_live] astep.exit)
qed

definition serial_inv :: "heap_globals \<Rightarrow> view_policy \<Rightarrow> nat \<times> sys \<Rightarrow> bool" where
  "serial_inv G vp c \<longleftrightarrow> sys_inv G c \<and> live vp \<and> all_faithful G (snd c)"

lemma serial_inv_step:
  assumes "serial_inv G vp c" and "counted_step no_order G vp c c'"
  shows "serial_inv G vp c'"
proof -
  obtain n s n' s' where c: "c = (n, s)" "c' = (n', s')" by (cases c, cases c')
  have inv: "mutex_inv s" "shape_inv G s" "version_inv n s" "live vp" "all_faithful G s"
    using assms(1) by (simp_all add: c serial_inv_def sys_inv_def)
  have n: "Suc n < 2 ^ 64" and step: "sys_step no_order G vp s s' \<or> dies s s'"
    using assms(2) by (simp_all add: c counted_step_def)
  from step have "all_faithful G s'"
  proof
    assume "sys_step no_order G vp s s'"
    then show ?thesis
      by (rule faithful_other_steps [OF inv(5)]) (rule faithful_system [OF inv(5,1,2,3) n inv(4)])
  next
    assume "dies s s'"
    then show ?thesis by (rule faithful_dies [OF inv(5)])
  qed
  moreover have "sys_inv G c'" using assms(1,2) sys.preserved unfolding serial_inv_def by blast
  ultimately show ?thesis using inv(4) by (simp add: serial_inv_def c)
qed

lemma serial_simulated:
  assumes "serial_inv G vp c" and "counted_step no_order G vp c c'"
  shows "abs_sys G (snd c') = abs_sys G (snd c) \<or> astep G (abs_sys G (snd c)) (abs_sys G (snd c'))"
proof -
  obtain n s n' s' where c: "c = (n, s)" "c' = (n', s')" by (cases c, cases c')
  have inv: "mutex_inv s" "shape_inv G s" "version_inv n s" "live vp" "all_faithful G s"
    using assms(1) by (simp_all add: c serial_inv_def sys_inv_def)
  have "sys_step no_order G vp s s' \<or> dies s s'" using assms(2) by (simp add: c counted_step_def)
  then show ?thesis
  proof
    assume "sys_step no_order G vp s s'"
    then have "abs_sys G s' = abs_sys G s \<or> astep G (abs_sys G s) (abs_sys G s')"
      by (rule simulated_other_steps [OF inv(1)]) (rule simulated_thread [OF inv(5,1,2,3,4)])
    then show ?thesis by (simp add: c)
  next
    assume "dies s s'"
    then show ?thesis using simulated_dies by (simp add: c)
  qed
qed

interpretation serial: simulation "counted_step no_order G vp" "serial_inv G vp" "astep G"
  "\<lambda>c. abs_sys G (snd c)"
  by unfold_locales (fact serial_inv_step, fact serial_simulated)

lemma initial_serial:
  assumes "initial c s" and "heap_aligned G" and "live vp"
  shows "serial_inv G vp (0, s)" and "\<exists>i. abs_sys G s = \<lparr>heap = heap_view G (shd s), threads = [i \<mapsto> Running c]\<rparr>"
proof -
  obtain i t where s: "procs s = [i \<mapsto> t]" "alive t" "pc t = Save" "cur t = c" and free: "mutex (shd s) = None"
    using assms(1) by (auto simp: initial_def)
  have "all_faithful G s"
    using s by (auto simp: all_faithful_def faithful_outside pc_groups split: if_splits)
  then show "serial_inv G vp (0, s)"
    using initial_inv [OF assms(1,2)] assms(3) by (simp add: serial_inv_def)
  have "heap_of G s = heap_view G (shd s)"
    using pending_free [OF free] by (simp add: fun_eq_iff final_heap_def)
  moreover have "(\<lambda>j. map_option abs_thread (procs s j)) = [i \<mapsto> Running c]"
    using s by (auto simp: abs_thread_def where_is_def fun_eq_iff)
  ultimately show "\<exists>i. abs_sys G s = \<lparr>heap = heap_view G (shd s), threads = [i \<mapsto> Running c]\<rparr>"
    unfolding abs_sys_def by (intro exI [of _ i]) simp
qed

section \<open>Properties\<close>

text \<open>
  C1: Serializability. Whatever the interleaving of the processes' steps, with pages torn in
  the middle of a copy and processes dying at any point, and whether or not predecessors are
  waited for: the run implements a run of the atomic machine from the initial heap and the one
  initial thread, in which every committed section ran alone and at once on the heap. When the
  mutex is free, the shared heap is the atomic machine's heap. The private mapping is taken to
  show the object's current bytes on pages without a private copy.
\<close>

theorem serializable:
  assumes "initial c s0" and "heap_aligned G" and "live vp" and "sys_run no_order G vp s0 n s"
  shows "(\<exists>i. (astep G)\<^sup>*\<^sup>* \<lparr>heap = heap_view G (shd s0), threads = [i \<mapsto> Running c]\<rparr> (abs_sys G s))
    \<and> (mutex (shd s) = None \<longrightarrow> heap (abs_sys G s) = heap_view G (shd s))"
proof
  have "(astep G)\<^sup>*\<^sup>* (abs_sys G s0) (abs_sys G s)"
    using serial.refines [OF assms(4) [unfolded sys_run_def] initial_serial(1) [OF assms(1-3)]] by simp
  then show "\<exists>i. (astep G)\<^sup>*\<^sup>* \<lparr>heap = heap_view G (shd s0), threads = [i \<mapsto> Running c]\<rparr> (abs_sys G s)"
    using initial_serial(2) [OF assms(1-3)] by metis
  show "mutex (shd s) = None \<longrightarrow> heap (abs_sys G s) = heap_view G (shd s)"
    by (simp add: abs_sys_def pending_free fun_eq_iff final_heap_def)
qed

text \<open>
  C3: Mutual exclusion. In every reachable state at most one process is in the part of its code
  that copies the versions, checks, or commits, and that process owns the mutex.
\<close>

theorem mutual_exclusion:
  assumes "initial c s0" and "heap_aligned G" and "sys_run no_order G vp s0 n s"
    and "procs s i = Some t" and "holds (pc t)" and "procs s j = Some u" and "holds (pc u)"
  shows "i = j \<and> mutex (shd s) = Some i"
  using run_inv(1) [OF assms(1-3)] one_holder [OF _ assms(4-7)] mutex_holder [OF _ assms(4,5)] by blast

text \<open>
  C4: A rollback is always somebody's commit. If a process finds its read set inconsistent,
  then some page it has read has been committed by another process since the section took its
  versions: the committed version of the page is higher than the one the section started from.
\<close>

theorem rollback_blames_commit:
  assumes "initial c s0" and "heap_aligned G" and "sys_run no_order G vp s0 n s"
    and "procs s i = Some t" and "pc t = Check" and "\<not> IsHeapConsistent (shd s) (gp t)"
  shows "\<exists>page v w. vm_find (read_set_version (gp t)) page = Some v
    \<and> v = version_of (local_page_version (gp t)) page
    \<and> vm_find (global_page_version (shd s)) page = Some w \<and> unat v < unat w"
proof -
  note inv = run_inv [OF assms(1-3)]
  have sec: "in_section (pc t)" using assms(5) by (simp add: pc_groups)
  have ok: "sets_ok G (gp t)" using inv(2) assms(4) sec by (simp add: shape_inv_def shape_def)
  have wf: "vm_wf (read_set_version (gp t))" using inv(2) assms(4) sec by (simp add: shape_inv_def shape_def sets_ok_def)
  obtain page v where "(page, v) \<in> set (read_set_version (gp t))"
    and differ: "vm_find (global_page_version (shd s)) page \<noteq> None"
      "vm_find (global_page_version (shd s)) page \<noteq> Some v"
    using assms(6) unfolding IsHeapConsistent_def consistent_loop_iff by blast
  then have read: "vm_find (read_set_version (gp t)) page = Some v" using wf by (simp add: vm_wf_def)
  obtain w where w: "vm_find (global_page_version (shd s)) page = Some w" "w \<noteq> v"
    using differ by auto
  have v: "v = version_of (local_page_version (gp t)) page" using sets_okD_read [OF ok read] by blast
  have "unat v \<le> unat (version_of (global_page_version (shd s)) page)"
    using inv(3) assms(4) sec v by (simp add: version_inv_def versions_ok_def)
  moreover have "version_of (global_page_version (shd s)) page = w" using w(1) by (simp add: version_of_def)
  ultimately have "unat v \<le> unat w" by simp
  moreover have "unat v \<noteq> unat w" using w(2) by (simp add: word_unat_eq_iff)
  ultimately show ?thesis using read v w(1) by (metis le_neq_implies_less)
qed

end
