(* ===== verification/Runs.thy ===== *)
theory Runs
  imports Serializability
begin

text \<open>
  Runs that exist: the uninterrupted steps of one process do what the functions of
  \<open>GThread\<close> compute, and a process whose predecessor has exited commits its section when it
  is left alone. Runs are counted, so that they are runs of the bounded system too.
\<close>

section \<open>Counted runs\<close>

definition within :: "nat \<Rightarrow> ('s \<Rightarrow> 's \<Rightarrow> bool) \<Rightarrow> 's \<Rightarrow> 's \<Rightarrow> bool" where
  "within b R x y \<longleftrightarrow> (\<exists>k\<le>b. (R ^^ k) x y)"

lemma within_refl [simp]: "within b R x x"
  unfolding within_def by (intro exI [of _ 0]) simp

lemma within_step: "R x y \<Longrightarrow> within (Suc b) R x y"
  unfolding within_def by (intro exI [of _ 1]) (simp add: eq_OO)

lemma within_one: "R x y \<Longrightarrow> 1 \<le> b \<Longrightarrow> within b R x y"
  using within_step [of R x y "b - 1"] by simp

lemma within_trans:
  assumes "within b R x y" and "within c R y z"
  shows "within (b + c) R x z"
proof -
  obtain k l where k: "k \<le> b" "(R ^^ k) x y" and l: "l \<le> c" "(R ^^ l) y z"
    using assms by (auto simp: within_def)
  then have "(R ^^ (k + l)) x z" by (auto simp: relpowp_add)
  with k(1) l(1) show ?thesis unfolding within_def by (intro exI [of _ "k + l"]) simp
qed

lemma within_mono: "within b R x y \<Longrightarrow> b \<le> c \<Longrightarrow> within c R x y"
  unfolding within_def using le_trans by blast

lemma within_next: "within b R x y \<Longrightarrow> R y z \<Longrightarrow> within (Suc b) R x z"
  using within_trans [of b R x y 1 z] within_step [of R y z 0] by simp

lemma within_first: "R x y \<Longrightarrow> within b R y z \<Longrightarrow> within (Suc b) R x z"
  using within_trans [of 1 R x y b z] within_step [of R x y 0] by simp

lemma within_rtranclp: "within b R x y \<Longrightarrow> R\<^sup>*\<^sup>* x y"
  unfolding within_def by (auto dest: relpowp_imp_rtranclp)

lemma sys_run_start: "sys_run no_order G vp s0 0 s0"
  by (simp add: sys_run_def)

lemma sys_run_power:
  "((sys_step no_order G vp) ^^ k) s s' \<Longrightarrow> sys_run no_order G vp s0 n s \<Longrightarrow> n + k < 2 ^ 64 \<Longrightarrow>
    sys_run no_order G vp s0 (n + k) s'"
proof (induction k arbitrary: s')
  case (Suc k)
  obtain u where u: "((sys_step no_order G vp) ^^ k) s u" "sys_step no_order G vp u s'"
    using Suc.prems(1) by auto
  have "sys_run no_order G vp s0 (n + k) u" using Suc u by simp
  then show ?case
    unfolding sys_run_def using u(2) Suc.prems(3)
    by (auto simp: counted_step_def intro: rtranclp.rtrancl_into_rtrancl)
qed simp

lemma sys_run_within:
  assumes "within b (sys_step no_order G vp) s s'" and "\<exists>n\<le>a. sys_run no_order G vp s0 n s"
    and "a + b < 2 ^ 64"
  shows "\<exists>n\<le>a + b. sys_run no_order G vp s0 n s'"
proof -
  obtain k n where "k \<le> b" "((sys_step no_order G vp) ^^ k) s s'" "n \<le> a" "sys_run no_order G vp s0 n s"
    using assms(1,2) by (auto simp: within_def)
  moreover from this have "sys_run no_order G vp s0 (n + k) s'" using assms(3) by (intro sys_run_power) auto
  ultimately show ?thesis by (intro exI [of _ "n + k"]) simp
qed

section \<open>One process among others\<close>

definition moved :: "pid_t \<Rightarrow> thread \<times> shared \<Rightarrow> sys \<Rightarrow> sys" where
  "moved i c s = set_proc i (fst c) (s\<lparr>shd := snd c\<rparr>)"

lemma moved_simps [simp]:
  "procs (moved i c s) = (procs s)(i \<mapsto> fst c)" "shd (moved i c s) = snd c"
  "reaped (moved i c s) = reaped s" "moved i d (moved i c s) = moved i d s"
  by (simp_all add: moved_def set_proc_def)

lemma moved_same: "procs s i = Some t \<Longrightarrow> moved i (t, shd s) s = s"
  by (simp add: moved_def set_proc_def fun_upd_idem)

lemma tstep_alive: "tstep G vp i c d \<Longrightarrow> alive (fst d) \<Longrightarrow> alive (fst c)"
  by (cases c; cases d) (auto elim!: tstep_elim)

lemma one_move:
  assumes "procs s i = Some t" and "alive t" and "tstep G vp i (t, shd s) d"
  shows "sys_step no_order G vp s (moved i d s)"
  unfolding moved_def using sys_step.thread [OF assms(1,2), of G vp "fst d" "snd d"] assms(3) by simp

lemma lift_power:
  "((tstep G vp i) ^^ k) (t, shd s) d \<Longrightarrow> procs s i = Some t \<Longrightarrow> alive t \<Longrightarrow> alive (fst d) \<Longrightarrow>
    ((sys_step no_order G vp) ^^ k) s (moved i d s)"
proof (induction k arbitrary: d)
  case 0
  then show ?case by (auto simp: moved_same)
next
  case (Suc k)
  obtain e where e: "((tstep G vp i) ^^ k) (t, shd s) e" "tstep G vp i e d" using Suc.prems(1) by auto
  have alive: "alive (fst e)" using tstep_alive [OF e(2) Suc.prems(4)] .
  have "((sys_step no_order G vp) ^^ k) s (moved i e s)"
    using Suc.IH [OF e(1) Suc.prems(2,3) alive] .
  moreover have "sys_step no_order G vp (moved i e s) (moved i d s)"
    using sys_step.thread [of "moved i e s" i "fst e" G vp "fst d" "snd d" no_order] e(2) alive
    by (simp add: moved_def set_proc_def)
  ultimately show ?case by auto
qed

lemma lift_within:
  assumes "within b (tstep G vp i) (t, shd s) d" and "procs s i = Some t" and "alive t" and "alive (fst d)"
  shows "within b (sys_step no_order G vp) s (moved i d s)"
  using assms lift_power unfolding within_def by blast

section \<open>Beginning a section\<close>

lemma lock_unlock [simp]: "mutex sh = None \<Longrightarrow> unlock (lock i sh) = sh"
  by (simp add: lock_def unlock_def)

text \<open>\<open>AtomicBegin\<close> behind \<open>SaveContext\<close>, which is where a rollback comes out too.\<close>

lemma begin_cleared:
  assumes "pc t = Clear" and "mutex sh = None" and "begin_section G True sh (gp t) = Inr p'"
  shows "within 5 (tstep G vp i) (t, sh) (t\<lparr>gp := p', pc := Body\<rparr>, sh)"
proof -
  let ?R = "tstep G vp i"
  let ?p2 = "clear_sets (gp t)" and ?p4 = "copy_versions (global_page_version sh) (clear_sets (gp t))"
  let ?t2 = "t\<lparr>gp := ?p2, pc := Lock\<rparr>" and ?t3 = "t\<lparr>gp := ?p2, pc := Copy_Versions\<rparr>"
  let ?t4 = "t\<lparr>gp := ?p4, pc := Unlock\<rparr>" and ?t5 = "t\<lparr>gp := ?p4, pc := Protect\<rparr>"
  have s2: "?R (t, sh) (?t2, sh)" using tstep.clear [OF assms(1)] by simp
  have s3: "?R (?t2, sh) (?t3, lock i sh)" using tstep.lock [of ?t2 sh] assms(2) by simp
  have s4: "?R (?t3, lock i sh) (?t4, lock i sh)" using tstep.copy [of ?t3 G vp i "lock i sh"] by simp
  have s5: "?R (?t4, lock i sh) (?t5, sh)" using tstep.unlock [of ?t4 G vp i "lock i sh"] assms(2) by simp
  have s6: "?R (?t5, sh) (t\<lparr>gp := p', pc := Body\<rparr>, sh)"
    using tstep.protect [of ?t5] assms(3) by (simp add: begin_section_Inr)
  have "within (Suc (Suc (Suc (Suc (Suc 0))))) ?R (t, sh) (t\<lparr>gp := p', pc := Body\<rparr>, sh)"
    by (intro within_first [where R = ?R, OF s2] within_first [where R = ?R, OF s3] within_first [where R = ?R, OF s4]
        within_first [where R = ?R, OF s5] within_step [where R = ?R, OF s6])
  then show ?thesis by (simp add: eval_nat_numeral)
qed

lemma begin_within:
  assumes "pc t = Save" and "mutex sh = None" and "begin_section G True sh (gp t) = Inr p'"
  shows "within 6 (tstep G vp i) (t, sh) (t\<lparr>ctx := cur t, gp := p', pc := Body\<rparr>, sh)"
proof -
  let ?t = "t\<lparr>ctx := cur t, pc := Clear\<rparr>"
  have "tstep G vp i (t, sh) (?t, sh)" by (rule tstep.save [OF assms(1)])
  from within_first [where R = "tstep G vp i", OF this begin_cleared [of ?t sh G p']] assms(2,3)
  show ?thesis by simp
qed

section \<open>Running a section\<close>

text \<open>
  A section that began in \<open>t0\<close> stands at program \<open>c\<close> and sees memory \<open>m\<close>; pages it has
  read are accessible.
\<close>

definition section_at :: "heap_globals \<Rightarrow> shared \<Rightarrow> thread \<Rightarrow> prog \<Rightarrow> memory \<Rightarrow> thread \<Rightarrow> bool" where
  "section_at G sh t0 c m t \<longleftrightarrow>
     pc t = Body \<and> cur t = c \<and> overlay (gp t) (heap_view G sh) = m \<and> sets_ok G (gp t)
     \<and> (\<forall>page. in_heap G page \<longrightarrow> vm_find (read_set_version (gp t)) page \<noteq> None \<longrightarrow>
          prot_of (gp t) page \<noteq> PROT_NONE)
     \<and> ctx t = ctx t0 \<and> alive t = alive t0 \<and> parent t = parent t0 \<and> tid (gp t) = tid (gp t0)
     \<and> predecessor (gp t) = predecessor (gp t0)
     \<and> local_page_version (gp t) = local_page_version (gp t0)"

lemma SegfaultHandler_in_heap:
  assumes "heap_aligned G" and "in_heap G a"
  shows "SegfaultHandler G True a p =
    (if vm_find (read_set_version p) (page_of a) \<noteq> None then HandleWrites True (page_of a) p
     else HandleReads True (page_of a) p)"
proof -
  have "in_heap G (page_of a)" using assms by (simp add: in_heap_page)
  note range = in_heap_bounds [OF assms(1) this]
  then show ?thesis
    by (simp add: SegfaultHandler_def page_of_def [symmetric] Let_def linorder_not_less [symmetric])
qed

definition next_prot :: "prot \<Rightarrow> prot" where
  "next_prot p = (if p = PROT_NONE then PROT_READ else PROT_READ_WRITE)"

lemma section_fault:
  assumes "section_at G sh t0 c m t" and "heap_aligned G" and "faults G (gp t) c = Some a" and "in_heap G a"
    and "prot_of (gp t) (page_of a) \<noteq> PROT_READ_WRITE"
  obtains p where "tstep G vp i (t, sh) (t\<lparr>gp := p\<rparr>, sh)" and "section_at G sh t0 c m (t\<lparr>gp := p\<rparr>)"
    and "prot_of p = (prot_of (gp t))(page_of a := next_prot (prot_of (gp t) (page_of a)))"
    and "copied p = copied (gp t)"
proof -
  let ?page = "page_of a"
  have page: "in_heap G ?page" using assms(2,4) by (simp add: in_heap_page)
  have known: "vm_find (read_set_version (gp t)) ?page \<noteq> None \<longleftrightarrow> prot_of (gp t) ?page \<noteq> PROT_NONE"
    using assms(1) page unfolding section_at_def sets_ok_def by blast
  obtain p where p: "SegfaultHandler G True a (gp t) = Inr p"
    using SegfaultHandler_in_heap [OF assms(2,4), of "gp t"]
    by (auto simp: HandleReads_eq HandleWrites_eq require_def split: if_splits)
  have cur: "pc t = Body" "cur t = c" using assms(1) by (simp_all add: section_at_def)
  have prot: "prot_of p = (prot_of (gp t))(?page := next_prot (prot_of (gp t) ?page))"
    using p known SegfaultHandler_in_heap [OF assms(2,4), of "gp t"]
    by (auto simp: next_prot_def HandleReads_Inr HandleWrites_Inr split: if_splits)
  have "sets_ok G p" using assms(1) sets_ok_fault [OF _ p] by (simp add: section_at_def)
  moreover have "\<forall>page. in_heap G page \<longrightarrow> vm_find (read_set_version p) page \<noteq> None \<longrightarrow> prot_of p page \<noteq> PROT_NONE"
    using p assms(1) known SegfaultHandler_in_heap [OF assms(2,4), of "gp t"]
    by (auto simp: section_at_def HandleReads_Inr HandleWrites_Inr split: if_splits)
  moreover have "tid p = tid (gp t)" "predecessor p = predecessor (gp t)"
      "local_page_version p = local_page_version (gp t)" and same: "copied p = copied (gp t)"
    using p SegfaultHandler_in_heap [OF assms(2,4), of "gp t"]
    by (auto simp: HandleReads_Inr HandleWrites_Inr split: if_splits)
  ultimately have "section_at G sh t0 c m (t\<lparr>gp := p\<rparr>)"
    using assms(1) fault_overlay [OF p] by (simp add: section_at_def)
  moreover have "tstep G vp i (t, sh) (t\<lparr>gp := p\<rparr>, sh)"
    using tstep.fault [OF cur(1) _ p] assms(3) cur(2) by simp
  ultimately show ?thesis using that prot same by blast
qed

lemma section_load:
  assumes "section_at G sh t0 (Load a k) m t" and "heap_aligned G" and "live vp" and "in_heap G a"
  shows "\<exists>t'. within 2 (tstep G vp i) (t, sh) (t', sh) \<and> section_at G sh t0 (k (m a)) m t'
      \<and> vm_find (read_set_version (gp t')) (page_of a) \<noteq> None \<and> copied (gp t') = copied (gp t)"
proof -
  have access: "\<exists>t'. tstep G vp i (u, sh) (t', sh) \<and> section_at G sh t0 (k (m a)) m t'
      \<and> vm_find (read_set_version (gp t')) (page_of a) \<noteq> None \<and> copied (gp t') = copied (gp u)"
    if "section_at G sh t0 (Load a k) m u" "faults G (gp u) (Load a k) = None" for u
  proof -
    have u: "pc u = Body" "cur u = Load a k" "overlay (gp u) (heap_view G sh) = m"
      using that(1) by (simp_all add: section_at_def)
    then have "load vp G sh (gp u) a = m a" by (simp add: load_live [OF assms(3)])
    then have "tstep G vp i (u, sh) (u\<lparr>cur := k (m a)\<rparr>, sh)"
      using tstep.load [OF u(1,2) assms(4)] that(2) u(2) by metis
    moreover have "section_at G sh t0 (k (m a)) m (u\<lparr>cur := k (m a)\<rparr>)"
      using that(1) by (simp add: section_at_def)
    moreover have "vm_find (read_set_version (gp u)) (page_of a) \<noteq> None"
      by (rule readable [OF _ assms(2,4)])
        (use that(1) faults_None(1) [OF that(2) assms(4)] in \<open>simp_all add: section_at_def\<close>)
    ultimately show ?thesis by (intro exI [of _ "u\<lparr>cur := k (m a)\<rparr>"]) simp
  qed
  show ?thesis
  proof (cases "faults G (gp t) (Load a k)")
    case None
    from access [OF assms(1) None] obtain t' where
      "tstep G vp i (t, sh) (t', sh)" "section_at G sh t0 (k (m a)) m t'
      \<and> vm_find (read_set_version (gp t')) (page_of a) \<noteq> None" "copied (gp t') = copied (gp t)" by blast
    then show ?thesis by (intro exI [of _ t']) (simp add: within_one)
  next
    case (Some b)
    then have "b = a" and none: "prot_of (gp t) (page_of a) = PROT_NONE"
      by (auto simp: faults_def split: if_splits)
    with Some have fault: "faults G (gp t) (Load a k) = Some a" by simp
    obtain p where p: "tstep G vp i (t, sh) (t\<lparr>gp := p\<rparr>, sh)" "section_at G sh t0 (Load a k) m (t\<lparr>gp := p\<rparr>)"
      and prot: "prot_of p = (prot_of (gp t))(page_of a := next_prot (prot_of (gp t) (page_of a)))"
      and copied: "copied p = copied (gp t)"
      by (rule section_fault [OF assms(1,2) fault assms(4)]) (use none in auto)
    have "faults G (gp (t\<lparr>gp := p\<rparr>)) (Load a k) = None"
      using none prot by (simp add: faults_def next_prot_def)
    from access [OF p(2) this] obtain t' where
      "tstep G vp i (t\<lparr>gp := p\<rparr>, sh) (t', sh)" "section_at G sh t0 (k (m a)) m t'
      \<and> vm_find (read_set_version (gp t')) (page_of a) \<noteq> None" "copied (gp t') = copied (gp (t\<lparr>gp := p\<rparr>))" by blast
    then show ?thesis
      using within_first [where R = "tstep G vp i", OF p(1) within_step [where b = 0]] copied
      by (auto simp: numeral_2_eq_2)
  qed
qed

lemma section_store_now:
  assumes "section_at G sh t0 (Store a v c) m t" and "heap_aligned G" and "live vp" and "in_heap G a"
    and "prot_of (gp t) (page_of a) = PROT_READ_WRITE"
  shows "\<exists>t'. tstep G vp i (t, sh) (t', sh) \<and> section_at G sh t0 c (m(a := v)) t'
      \<and> vm_find (write_set_version (gp t')) (page_of a) \<noteq> None"
proof -
  have u: "pc t = Body" "cur t = Store a v c" and m: "overlay (gp t) (heap_view G sh) = m"
    using assms(1) by (simp_all add: section_at_def)
  have "faults G (gp t) (cur t) = None" using assms(5) u(2) by (simp add: faults_def)
  then have "tstep G vp i (t, sh) (t\<lparr>gp := store vp G sh a v (gp t), cur := c\<rparr>, sh)"
    by (rule tstep.store [OF u assms(4)])
  moreover have "sets_ok G (store vp G sh a v (gp t))"
    using assms(1,2,4,5) by (intro sets_ok_store) (simp_all add: section_at_def)
  moreover have "overlay (store vp G sh a v (gp t)) (heap_view G sh) = m(a := v)"
    using overlay_store [OF assms(3), where G = G and sh = sh and m = "heap_view G sh"] m by simp
  moreover have "tid (store vp G sh a v (gp t)) = tid (gp t)"
      "predecessor (store vp G sh a v (gp t)) = predecessor (gp t)"
    by (simp_all add: store_def Let_def)
  moreover have "vm_find (write_set_version (gp t)) (page_of a) \<noteq> None"
    using assms(1,2,4,5) by (simp add: section_at_def sets_ok_def in_heap_page)
  ultimately show ?thesis using assms(1)
    by (intro exI [of _ "t\<lparr>gp := store vp G sh a v (gp t), cur := c\<rparr>"]) (simp add: section_at_def)
qed

lemma section_store:
  assumes "section_at G sh t0 (Store a v c) m t" and "heap_aligned G" and "live vp" and "in_heap G a"
  shows "\<exists>t'. within 3 (tstep G vp i) (t, sh) (t', sh) \<and> section_at G sh t0 c (m(a := v)) t'
      \<and> vm_find (write_set_version (gp t')) (page_of a) \<noteq> None"
proof -
  let ?R = "tstep G vp i"
  have writable: "\<exists>t'. within 1 ?R (u, sh) (t', sh) \<and> section_at G sh t0 c (m(a := v)) t'
      \<and> vm_find (write_set_version (gp t')) (page_of a) \<noteq> None"
    if "section_at G sh t0 (Store a v c) m u" "prot_of (gp u) (page_of a) = PROT_READ_WRITE" for u
    using section_store_now [OF that(1) assms(2-4) that(2)] within_step [of ?R _ _ 0] by fastforce
  have fault: "\<exists>w. ?R (u, sh) (w, sh) \<and> section_at G sh t0 (Store a v c) m w
      \<and> prot_of (gp w) (page_of a) = next_prot (prot_of (gp u) (page_of a))"
    if "section_at G sh t0 (Store a v c) m u" "prot_of (gp u) (page_of a) \<noteq> PROT_READ_WRITE" for u
  proof -
    have "faults G (gp u) (Store a v c) = Some a" using that(2) assms(4) by (simp add: faults_def)
    from section_fault [OF that(1) assms(2) this assms(4) that(2)] show ?thesis by (metis fun_upd_same thread.select_convs(1) thread.surjective thread.update_convs(1))
  qed
  have readable: "\<exists>t'. within 2 ?R (u, sh) (t', sh) \<and> section_at G sh t0 c (m(a := v)) t'
      \<and> vm_find (write_set_version (gp t')) (page_of a) \<noteq> None"
    if u: "section_at G sh t0 (Store a v c) m u" "prot_of (gp u) (page_of a) \<noteq> PROT_NONE" for u
  proof (cases "prot_of (gp u) (page_of a) = PROT_READ_WRITE")
    case True
    then show ?thesis using writable [OF u(1)] within_mono [of 1 ?R _ _ 2] by fastforce
  next
    case False
    then obtain w where w: "?R (u, sh) (w, sh)" "section_at G sh t0 (Store a v c) m w"
        "prot_of (gp w) (page_of a) = PROT_READ_WRITE"
      using fault [OF u(1)] u(2) by (auto simp: next_prot_def)
    then obtain t' where "within 1 ?R (w, sh) (t', sh)" "section_at G sh t0 c (m(a := v)) t'
      \<and> vm_find (write_set_version (gp t')) (page_of a) \<noteq> None"
      using writable by blast
    then show ?thesis using within_first [where R = ?R, OF w(1), of 1] by (auto simp: numeral_2_eq_2)
  qed
  show ?thesis
  proof (cases "prot_of (gp t) (page_of a) = PROT_NONE")
    case True
    then obtain w where w: "?R (t, sh) (w, sh)" "section_at G sh t0 (Store a v c) m w"
        "prot_of (gp w) (page_of a) = PROT_READ"
      using fault [OF assms(1)] by (auto simp: next_prot_def)
    then obtain t' where "within 2 ?R (w, sh) (t', sh)" "section_at G sh t0 c (m(a := v)) t'
      \<and> vm_find (write_set_version (gp t')) (page_of a) \<noteq> None"
      using readable [of w] by auto
    then show ?thesis using within_first [where R = ?R, OF w(1), of 2] by (auto simp: numeral_3_eq_3 numeral_2_eq_2)
  next
    case False
    then show ?thesis using readable [OF assms(1)] within_mono [of 2 ?R _ _ 3] by fastforce
  qed
qed

lemma section_runs:
  "((local_step G) ^^ k) (c, m) (d, m') \<Longrightarrow> section_at G sh t0 c m t \<Longrightarrow> heap_aligned G \<Longrightarrow> live vp \<Longrightarrow>
    \<exists>t'. within (3 * k) (tstep G vp i) (t, sh) (t', sh) \<and> section_at G sh t0 d m' t'"
proof (induction k arbitrary: d m')
  case 0
  then have "section_at G sh t0 d m' t" by simp
  then show ?case by (intro exI [of _ t]) simp
next
  case (Suc k)
  obtain e me where e: "((local_step G) ^^ k) (c, m) (e, me)" "local_step G (e, me) (d, m')"
    using Suc.prems(1) by auto
  obtain u where u: "within (3 * k) (tstep G vp i) (t, sh) (u, sh)" "section_at G sh t0 e me u"
    using Suc.IH [OF e(1) Suc.prems(2-4)] by blast
  have "\<exists>t'. within 3 (tstep G vp i) (u, sh) (t', sh) \<and> section_at G sh t0 d m' t'"
    using e(2)
  proof (cases rule: local_step.cases)
    case (load a k)
    then show ?thesis
      using section_load [of G sh t0 a k me u vp i] u(2) Suc.prems(3,4) within_mono [of 2 _ _ _ 3] by fastforce
  next
    case (store a v)
    then show ?thesis using section_store [of G sh t0 a v d me u vp i] u(2) Suc.prems(3,4) by auto
  qed
  then show ?case using within_trans [OF u(1)] by (metis mult_Suc_right add.commute)
qed

section \<open>Committing\<close>

lemma committing_within:
  "within (length es) (tstep G vp i) (t\<lparr>pc := Committing es\<rparr>, sh)
    (t\<lparr>pc := Committing []\<rparr>, fold (CommitPage vp G (gp t)) es sh)"
proof (induction es arbitrary: sh)
  case (Cons e es)
  have "tstep G vp i (t\<lparr>pc := Committing (e # es)\<rparr>, sh)
      (t\<lparr>pc := Committing es\<rparr>, CommitPage vp G (gp t) e sh)"
    using tstep.copied [of "t\<lparr>pc := Committing (e # es)\<rparr>" e es G vp i sh] by simp
  from within_first [where R = "tstep G vp i", OF this Cons] show ?case by simp
qed simp

lemma check_within:
  assumes "pc t = Check" and "IsHeapConsistent sh (gp t)"
    and "CommitHeap vp G True True (local_heap G) (gp t) sh = (sh', Inr p')"
  shows "within (length (write_set_version (gp t)) + 3) (tstep G vp i) (t, sh)
    (t\<lparr>gp := p', pc := After\<rparr>, unlock sh')"
proof -
  let ?R = "tstep G vp i" and ?W = "write_set_version (gp t)"
  have sh': "sh' = fold (CommitPage vp G (gp t)) ?W sh"
    and p': "UpdateHeap G True (local_heap G) sh' (gp t) = Inr p'"
    using assms(3) by (auto simp: CommitHeap_def Let_def)
  have s1: "?R (t, sh) (t\<lparr>pc := Committing ?W\<rparr>, sh)" by (rule tstep.consistent [OF assms(1,2)])
  have s2: "within (length ?W) ?R (t\<lparr>pc := Committing ?W\<rparr>, sh) (t\<lparr>pc := Committing []\<rparr>, sh')"
    unfolding sh' by (rule committing_within)
  have s3: "?R (t\<lparr>pc := Committing []\<rparr>, sh') (t\<lparr>gp := p', pc := Unlock_Committed\<rparr>, sh')"
    using tstep.update [of "t\<lparr>pc := Committing []\<rparr>" G sh' p' vp i] p' by simp
  have s4: "?R (t\<lparr>gp := p', pc := Unlock_Committed\<rparr>, sh') (t\<lparr>gp := p', pc := After\<rparr>, unlock sh')"
    using tstep.unlock_committed [of "t\<lparr>gp := p', pc := Unlock_Committed\<rparr>" G vp i sh'] by simp
  from within_next [where R = ?R, OF within_next [where R = ?R, OF within_first [where R = ?R, OF s1 s2] s3] s4]
  show ?thesis by (simp add: numeral_3_eq_3)
qed

lemma commit_within:
  assumes "pc t = Commit_Lock" and "mutex sh = None" and "tid (gp t) = i" and "\<not> nothing_accessed (gp t)"
    and "AtomicCommit vp G env (gp t) sh = (sh', Some (Inr (committed, p')))"
  shows "within (length (write_set_version (gp t)) + 4) (tstep G vp i) (t, sh)
    (t\<lparr>gp := p', pc := if committed then After else Abort_Section\<rparr>, sh')"
proof -
  let ?R = "tstep G vp i" and ?t = "t\<lparr>pc := Check\<rparr>" and ?sh = "lock i sh"
  have s1: "?R (t, sh) (?t, ?sh)" by (rule tstep.commit_lock [OF assms(1,2)])
  show ?thesis
    using assms(5,4)
  proof (cases rule: AtomicCommit_returns)
    case (commit sh1)
    have "within (length (write_set_version (gp t)) + 3) ?R (?t, ?sh) (t\<lparr>gp := p', pc := After\<rparr>, unlock sh1)"
      using check_within [of ?t ?sh vp G sh1 p' i] commit(2,3) assms(3) by simp
    from within_first [where R = ?R, OF s1 this] commit(1,4) show ?thesis by (simp add: eval_nat_numeral)
  next
    case rollback
    have s2: "?R (?t, ?sh) (t\<lparr>pc := Unlock_Failed\<rparr>, count_rollback ?sh)"
      using tstep.inconsistent [of ?t ?sh G vp i] rollback(2) by simp
    have s3: "?R (t\<lparr>pc := Unlock_Failed\<rparr>, count_rollback ?sh)
        (t\<lparr>pc := Abort_Section\<rparr>, unlock (count_rollback ?sh))"
      using tstep.unlock_failed [of "t\<lparr>pc := Unlock_Failed\<rparr>" G vp i "count_rollback ?sh"] by simp
    have "within 3 ?R (t, sh) (t\<lparr>pc := Abort_Section\<rparr>, unlock (count_rollback ?sh))"
      using within_next [where R = ?R, OF within_next [where R = ?R, OF within_one [where R = ?R, OF s1, of 1] s2] s3]
      by (simp add: numeral_3_eq_3)
    then show ?thesis using rollback assms(3) within_mono by fastforce
  qed
qed

section \<open>A process left alone\<close>

lemma wait_returns_moved:
  assumes "procs s i = Some t" and "parent (fst c) = parent t" and "alive (fst c) = alive t"
  shows "wait_returns (moved i c s) i j = wait_returns s i j"
  using assms by (auto simp: wait_returns_def waitpid_def kill0_def split: option.split)

lemma section_begun:
  assumes "vm_wf (global_page_version sh)" and "no_copies p"
    and "begin_section G True sh p = Inr p'"
  shows "section_at G sh (t\<lparr>ctx := cur t, gp := p', pc := Body\<rparr>) (cur t) (heap_view G sh)
      (t\<lparr>ctx := cur t, gp := p', pc := Body\<rparr>)"
    and "vm_find (local_page_version p') = vm_find (global_page_version sh)"
    and "tid p' = tid p" and "predecessor p' = predecessor p"
proof -
  let ?p = "copy_versions (global_page_version sh) (clear_sets p)"
  have p': "p' = protect_heap G ?p" using assms(3) by (simp add: begin_section_Inr)
  have clean: "nothing_accessed ?p" "no_copies ?p" using assms(2) by simp_all
  have "vm_find (read_set_version p') = Map.empty" by (simp add: p')
  moreover have "sets_ok G p'" unfolding p' by (rule sets_ok_start) (fact clean)+
  ultimately show "section_at G sh (t\<lparr>ctx := cur t, gp := p', pc := Body\<rparr>) (cur t) (heap_view G sh)
      (t\<lparr>ctx := cur t, gp := p', pc := Body\<rparr>)"
    using clean(2) by (simp add: section_at_def p')
  show "vm_find (local_page_version p') = vm_find (global_page_version sh)"
    using copied_versions [OF assms(1), of "clear_sets p"] by (simp add: p')
  show "tid p' = tid p" and "predecessor p' = predecessor p" by (simp_all add: p')
qed

text \<open>A section whose local versions are the committed ones is consistent.\<close>

lemma same_versions_consistent:
  assumes "sets_ok G p" and same: "version_of (local_page_version p) = version_of (global_page_version sh)"
  shows "IsHeapConsistent sh p"
proof -
  have "vm_find (global_page_version sh) page = None \<or> vm_find (global_page_version sh) page = Some v"
    if "(page, v) \<in> set (read_set_version p)" for page v
  proof -
    have "vm_wf (read_set_version p)" using assms(1) by (simp add: sets_ok_def)
    with that have "vm_find (read_set_version p) page = Some v" by (simp add: vm_wf_def)
    then have "v = version_of (global_page_version sh) page"
      using sets_okD_read [OF assms(1)] same by metis
    then show ?thesis by (auto simp: version_of_def split: option.splits)
  qed
  then show ?thesis by (auto simp: IsHeapConsistent_def consistent_loop_iff)
qed

lemma current_consistent:
  assumes "sets_ok G p" and "vm_find (local_page_version p) = vm_find (global_page_version sh)"
  shows "IsHeapConsistent sh p"
  using same_versions_consistent [OF assms(1)] assms(2) by (simp add: version_of_def fun_eq_iff)

lemma sets_ok_pages:
  assumes "sets_ok G p"
  shows "\<forall>page \<in> dom (vm_find (write_set_version p)). page_of page = page"
  using sets_okD_write [OF assms] sets_okD_read [OF assms] by blast

lemma commit_view:
  assumes "sets_ok G p" and "live vp" and "overlay p (heap_view G sh) = m"
  shows "heap_view G (fold (CommitPage vp G p) (write_set_version p) sh) = m"
proof
  fix a
  have "vm_wf (write_set_version p)" using assms(1) by (simp add: sets_ok_def)
  note view = commit_heap_view [OF this sets_ok_pages [OF assms(1)], of G vp sh a]
  have copied: "page_of a \<in> dom (vm_find (write_set_version p))" if "copied p (page_of a)"
    using assms(1) that unfolding sets_ok_def by blast
  show "heap_view G (fold (CommitPage vp G p) (write_set_version p) sh) a = m a"
  proof (cases "copied p (page_of a)")
    case True
    with copied view assms(2,3) show ?thesis by (simp add: load_live)
  next
    case False
    with view assms(2,3) show ?thesis by (auto simp: load_live overlay_def)
  qed
qed

lemma wf_commits:
  "vm_wf (global_page_version sh) \<Longrightarrow> vm_wf (global_page_version (fold (CommitPage vp G p) es sh))"
proof (induction es arbitrary: sh)
  case (Cons e es)
  obtain page v where "e = (page, v)" by (cases e)
  with Cons.prems have "vm_wf (global_page_version (CommitPage vp G p e sh))" by (simp add: vm.wf_assign)
  from Cons.IH [OF this] show ?case by simp
qed simp

text \<open>The write set grows by at most one entry per step.\<close>

lemma length_assign: "length (vm_assign k v m) \<le> Suc (length m)"
  by (induction m) (auto simp: vm_assign_def)

lemma fault_writes:
  "SegfaultHandler G ok a p = Inr p' \<Longrightarrow> length (write_set_version p') \<le> Suc (length (write_set_version p))"
  by (erule SegfaultHandler_Inr) (auto simp: HandleReads_Inr HandleWrites_Inr length_assign)

lemma tstep_writes:
  assumes "tstep G vp i c d"
  shows "length (write_set_version (gp (fst d))) \<le> Suc (length (write_set_version (gp (fst c))))"
  using assms
  by (cases rule: tstep.cases) (auto simp: fault_writes UpdateHeap_Inr discard_copies_def)

lemma within_writes:
  assumes "within b (tstep G vp i) c d"
  shows "length (write_set_version (gp (fst d))) \<le> length (write_set_version (gp (fst c))) + b"
proof -
  have "((tstep G vp i) ^^ k) c d \<Longrightarrow>
      length (write_set_version (gp (fst d))) \<le> length (write_set_version (gp (fst c))) + k" for k
  proof (induction k arbitrary: d)
    case (Suc k)
    obtain e where e: "((tstep G vp i) ^^ k) c e" "tstep G vp i e d" using Suc.prems by auto
    show ?case using Suc.IH [OF e(1)] tstep_writes [OF e(2)] by simp
  qed simp
  then show ?thesis using assms unfolding within_def by (meson add_left_mono le_trans)
qed

text \<open>The section's end: with nothing touched, or waiting and committing.\<close>

lemma end_untouched:
  assumes "section_at G sh t0 d m t" and "ends_section d" and "nothing_accessed (gp t)"
  shows "m = heap_view G sh" and "\<exists>p'. within 2 (tstep G vp i) (t, sh) (t\<lparr>gp := p', pc := After\<rparr>, sh)
    \<and> no_copies p' \<and> tid p' = tid (gp t) \<and> predecessor p' = predecessor (gp t)"
proof -
  have t: "pc t = Body" "cur t = d" "sets_ok G (gp t)" and m: "overlay (gp t) (heap_view G sh) = m"
    using assms(1) by (simp_all add: section_at_def)
  have "no_copies (gp t)" using t(3) assms(3) by (auto simp: sets_ok_def nothing_accessed_def no_copies_def)
  with m show "m = heap_view G sh" by simp
  have s1: "tstep G vp i (t, sh) (t\<lparr>pc := Entry\<rparr>, sh)"
    using tstep.section_end [OF t(1)] t(2) assms(2) by metis
  obtain p' where p': "UpdateHeap G True (local_heap G) sh (gp t) = Inr p'"
    by (auto simp: UpdateHeap_def require_def)
  have s2: "tstep G vp i (t\<lparr>pc := Entry\<rparr>, sh) (t\<lparr>gp := p', pc := After\<rparr>, sh)"
    using tstep.untouched [of "t\<lparr>pc := Entry\<rparr>" G sh p' vp i] p' assms(3) by simp
  have "within 2 (tstep G vp i) (t, sh) (t\<lparr>gp := p', pc := After\<rparr>, sh)"
    using within_next [where R = "tstep G vp i", OF within_one [where R = "tstep G vp i", OF s1, of 1] s2]
    by (simp add: numeral_2_eq_2)
  moreover have "no_copies p'" "tid p' = tid (gp t)" "predecessor p' = predecessor (gp t)"
    using p' by (auto simp: UpdateHeap_Inr no_copies_def)
  ultimately show "\<exists>p'. within 2 (tstep G vp i) (t, sh) (t\<lparr>gp := p', pc := After\<rparr>, sh)
      \<and> no_copies p' \<and> tid p' = tid (gp t) \<and> predecessor p' = predecessor (gp t)"
    by blast
qed

lemma end_waiting:
  assumes "section_at G sh t0 d m t" and "ends_section d" and "\<not> nothing_accessed (gp t)"
  shows "within 2 (tstep G vp i) (t, sh) (t\<lparr>pc := Wait\<rparr>, sh)"
proof -
  have t: "pc t = Body" "cur t = d" using assms(1) by (simp_all add: section_at_def)
  have s1: "tstep G vp i (t, sh) (t\<lparr>pc := Entry\<rparr>, sh)"
    using tstep.section_end [OF t(1)] t(2) assms(2) by metis
  have s2: "tstep G vp i (t\<lparr>pc := Entry\<rparr>, sh) (t\<lparr>pc := Wait\<rparr>, sh)"
    using tstep.touched [of "t\<lparr>pc := Entry\<rparr>"] assms(3) by simp
  show ?thesis
    using within_next [where R = "tstep G vp i", OF within_one [where R = "tstep G vp i", OF s1, of 1] s2]
    by (simp add: numeral_2_eq_2)
qed

lemma commits_uncounted: "rollback_count (fold (CommitPage vp G p) es sh) = rollback_count sh"
  by (induction es arbitrary: sh) (auto simp: CommitPage_def Let_def split: prod.splits)

lemma end_commit:
  assumes "section_at G sh t0 d m t" and "live vp" and "mutex sh = None"
    and "vm_find (local_page_version (gp t)) = vm_find (global_page_version sh)"
    and "vm_wf (global_page_version sh)"
  shows "\<exists>p' sh'. within (length (write_set_version (gp t)) + 4) (tstep G vp i) (t\<lparr>pc := Commit_Lock\<rparr>, sh)
      (t\<lparr>gp := p', pc := After\<rparr>, sh')
    \<and> heap_view G sh' = m \<and> mutex sh' = None \<and> vm_wf (global_page_version sh')
    \<and> rollback_count sh' = rollback_count sh
    \<and> vm_find (global_page_version sh') = vm_find (global_page_version sh) ++ vm_find (write_set_version (gp t))
    \<and> no_copies p' \<and> tid p' = tid (gp t) \<and> predecessor p' = predecessor (gp t)"
proof -
  let ?p = "gp t" and ?t = "t\<lparr>pc := Check\<rparr>" and ?sh = "lock i sh"
  let ?sh1 = "fold (CommitPage vp G (gp t)) (write_set_version (gp t)) ?sh"
  have ok: "sets_ok G ?p" and m: "overlay ?p (heap_view G ?sh) = m"
    using assms(1) by (simp_all add: section_at_def)
  obtain p' where p': "CommitHeap vp G True True (local_heap G) ?p ?sh = (?sh1, Inr p')"
    by (simp add: CommitHeap_done Let_def)
  have s1: "tstep G vp i (t\<lparr>pc := Commit_Lock\<rparr>, sh) (?t, ?sh)"
    using tstep.commit_lock [of "t\<lparr>pc := Commit_Lock\<rparr>" sh G vp i] assms(3) by simp
  have "IsHeapConsistent ?sh ?p" using current_consistent [OF ok, of ?sh] assms(4) by simp
  from check_within [of ?t ?sh vp G ?sh1 p' i] this p'
  have s2: "within (length (write_set_version ?p) + 3) (tstep G vp i) (?t, ?sh)
      (t\<lparr>gp := p', pc := After\<rparr>, unlock ?sh1)" by simp
  have run: "within (length (write_set_version ?p) + 4) (tstep G vp i) (t\<lparr>pc := Commit_Lock\<rparr>, sh)
      (t\<lparr>gp := p', pc := After\<rparr>, unlock ?sh1)"
    using within_first [where R = "tstep G vp i", OF s1 s2] by (simp add: eval_nat_numeral)
  have "heap_view G (unlock ?sh1) = m" using commit_view [OF ok assms(2) m] by simp
  moreover have "vm_wf (global_page_version (unlock ?sh1))" using wf_commits [of ?sh] assms(5) by simp
  moreover have "vm_find (global_page_version (unlock ?sh1))
      = vm_find (global_page_version sh) ++ vm_find (write_set_version ?p)"
    using ok by (simp add: commit_loop_versions vm.find_assign_all sets_ok_def vm_wf_def)
  moreover have "no_copies p'" "tid p' = tid ?p" "predecessor p' = predecessor ?p"
    using p' by (auto simp: CommitHeap_done Let_def no_copies_def)
  moreover have "rollback_count (unlock ?sh1) = rollback_count sh" by (simp add: commits_uncounted)
  ultimately show ?thesis using run by (intro exI [of _ p'] exI [of _ "unlock ?sh1"]) simp
qed

text \<open>A process at the beginning of a section, with the mutex free.\<close>

definition ready :: "sys \<Rightarrow> pid_t \<Rightarrow> thread \<Rightarrow> bool" where
  "ready s i t \<longleftrightarrow> procs s i = Some t \<and> alive t \<and> pc t = Save \<and> no_copies (gp t)
     \<and> mutex (shd s) = None \<and> vm_wf (global_page_version (shd s))"

text \<open>It has run to a point of its section, with everything else as it was.\<close>

definition reached :: "heap_globals \<Rightarrow> sys \<Rightarrow> thread \<Rightarrow> prog \<Rightarrow> memory \<Rightarrow> thread \<Rightarrow> bool" where
  "reached G s t d m u \<longleftrightarrow> section_at G (shd s) u d m u \<and> alive u \<and> parent u = parent t
     \<and> tid (gp u) = tid (gp t) \<and> predecessor (gp u) = predecessor (gp t)
     \<and> vm_find (local_page_version (gp u)) = vm_find (global_page_version (shd s))"

definition started :: "heap_globals \<Rightarrow> shared \<Rightarrow> thread \<Rightarrow> thread" where
  "started G sh t = t\<lparr>ctx := cur t, pc := Body,
     gp := protect_heap G (copy_versions (global_page_version sh) (clear_sets (gp t)))\<rparr>"

lemma ready_started:
  assumes "ready s i t"
  shows "section_at G (shd s) (started G (shd s) t) (cur t) (heap_view G (shd s)) (started G (shd s) t)"
    and "nothing_accessed (gp (started G (shd s) t))"
    and "within 6 (tstep G vp i) (t, shd s) (started G (shd s) t, shd s)"
proof -
  let ?sh = "shd s"
  have r: "pc t = Save" "no_copies (gp t)" "mutex ?sh = None" "vm_wf (global_page_version ?sh)"
    using assms by (simp_all add: ready_def)
  obtain p where p: "begin_section G True ?sh (gp t) = Inr p" by (simp add: begin_section_Inr)
  then have t0: "started G ?sh t = t\<lparr>ctx := cur t, gp := p, pc := Body\<rparr>"
    by (simp add: started_def begin_section_Inr)
  show "section_at G ?sh (started G ?sh t) (cur t) (heap_view G ?sh) (started G ?sh t)"
    unfolding t0 by (rule section_begun(1) [OF r(4,2) p])
  show "nothing_accessed (gp (started G ?sh t))" by (simp add: started_def)
  show "within 6 (tstep G vp i) (t, ?sh) (started G ?sh t, ?sh)"
    unfolding t0 by (rule begin_within [OF r(1,3) p])
qed

lemma reached_from_start:
  assumes "ready s i t" and "within b (tstep G vp i) (started G (shd s) t, shd s) (u, shd s)"
    and "section_at G (shd s) (started G (shd s) t) d m u"
  shows "within (6 + b) (sys_step no_order G vp) s (moved i (u, shd s) s)" and "reached G s t d m u"
proof -
  have r: "procs s i = Some t" "alive t" "vm_wf (global_page_version (shd s))"
    using assms(1) by (simp_all add: ready_def)
  have u: "alive u" using assms(3) r(2) by (simp add: section_at_def started_def)
  have "within (6 + b) (tstep G vp i) (t, shd s) (u, shd s)"
    by (rule within_trans [OF ready_started(3) [OF assms(1)] assms(2)])
  then show "within (6 + b) (sys_step no_order G vp) s (moved i (u, shd s) s)"
    using lift_within r(1,2) u by (metis fst_conv)
  have "vm_find (local_page_version (gp (started G (shd s) t))) = vm_find (global_page_version (shd s))"
    using copied_versions [OF r(3), of "clear_sets (gp t)"] by (simp add: started_def)
  then show "reached G s t d m u" using assms(3) u by (simp add: reached_def section_at_def started_def)
qed

lemma section_reached:
  assumes "ready s i t" and "heap_aligned G" and "live vp"
    and "((local_step G) ^^ k) (cur t, heap_view G (shd s)) (d, m)"
  shows "\<exists>u. within (6 + 3 * k) (sys_step no_order G vp) s (moved i (u, shd s) s) \<and> reached G s t d m u
    \<and> length (write_set_version (gp u)) \<le> 3 * k \<and> (k = 0 \<longrightarrow> nothing_accessed (gp u))"
proof -
  let ?t0 = "started G (shd s) t"
  note start = ready_started [OF assms(1), of G]
  obtain u where u: "within (3 * k) (tstep G vp i) (?t0, shd s) (u, shd s)" "section_at G (shd s) ?t0 d m u"
    using section_runs [OF assms(4) start(1) assms(2,3)] by blast
  have "length (write_set_version (gp u)) \<le> 3 * k"
    using within_writes [OF u(1)] start(2) by (simp add: nothing_accessed_def)
  moreover have "k = 0 \<longrightarrow> nothing_accessed (gp u)"
    using u(1) start(2) by (auto simp: within_def)
  ultimately show ?thesis using reached_from_start [OF assms(1) u] by blast
qed

lemma first_load:
  assumes "ready s i t" and "heap_aligned G" and "live vp" and "cur t = Load a c" and "in_heap G a"
  shows "\<exists>u. within 8 (sys_step no_order G vp) s (moved i (u, shd s) s)
    \<and> reached G s t (c (heap_view G (shd s) a)) (heap_view G (shd s)) u
    \<and> vm_find (read_set_version (gp u)) (page_of a) \<noteq> None \<and> no_copies (gp u)"
proof -
  let ?t0 = "started G (shd s) t" and ?m = "heap_view G (shd s)"
  have "section_at G (shd s) ?t0 (Load a c) ?m ?t0" using ready_started(1) [OF assms(1), of G] assms(4) by simp
  then obtain u where u: "within 2 (tstep G vp i) (?t0, shd s) (u, shd s)"
      "section_at G (shd s) ?t0 (c (?m a)) ?m u" "vm_find (read_set_version (gp u)) (page_of a) \<noteq> None"
      "copied (gp u) = copied (gp ?t0)"
    using section_load [OF _ assms(2,3,5)] by blast
  have "no_copies (gp ?t0)" using assms(1) by (simp add: ready_def started_def)
  then have "no_copies (gp u)" using u(4) by (simp add: no_copies_def)
  then show ?thesis using reached_from_start [OF assms(1) u(1,2)] u(3) by auto
qed

lemma first_store:
  assumes "ready s i t" and "heap_aligned G" and "live vp" and "cur t = Store a v c" and "in_heap G a"
  shows "\<exists>u. within 9 (sys_step no_order G vp) s (moved i (u, shd s) s)
    \<and> reached G s t c ((heap_view G (shd s))(a := v)) u
    \<and> vm_find (write_set_version (gp u)) (page_of a) \<noteq> None \<and> length (write_set_version (gp u)) \<le> 3"
proof -
  let ?t0 = "started G (shd s) t" and ?m = "heap_view G (shd s)"
  note start = ready_started [OF assms(1), of G]
  have "section_at G (shd s) ?t0 (Store a v c) ?m ?t0" using start(1) assms(4) by simp
  then obtain u where u: "within 3 (tstep G vp i) (?t0, shd s) (u, shd s)"
      "section_at G (shd s) ?t0 c (?m(a := v)) u" "vm_find (write_set_version (gp u)) (page_of a) \<noteq> None"
    using section_store [OF _ assms(2,3,5)] by blast
  moreover have "length (write_set_version (gp u)) \<le> 3"
    using within_writes [OF u(1)] start(2) by (simp add: nothing_accessed_def)
  ultimately show ?thesis using reached_from_start [OF assms(1) u(1,2)] by auto
qed

text \<open>The section has ended: the process is behind it, and the heap is \<open>m\<close>.\<close>

definition section_over :: "heap_globals \<Rightarrow> sys \<Rightarrow> pid_t \<Rightarrow> thread \<Rightarrow> prog \<Rightarrow> memory \<Rightarrow> sys \<Rightarrow> thread \<Rightarrow> bool" where
  "section_over G s i t d m s' t' \<longleftrightarrow>
     procs s' = (procs s)(i \<mapsto> t') \<and> pc t' = After \<and> cur t' = d \<and> alive t' \<and> parent t' = parent t
     \<and> no_copies (gp t') \<and> tid (gp t') = tid (gp t) \<and> predecessor (gp t') = predecessor (gp t)
     \<and> heap_view G (shd s') = m \<and> mutex (shd s') = None \<and> vm_wf (global_page_version (shd s'))
    \<and> rollback_count (shd s') = rollback_count (shd s)"

lemma section_over_untouched:
  assumes "ready s i t" and "reached G s t d m u" and "ends_section d" and "nothing_accessed (gp u)"
  shows "\<exists>s' t'. within 2 (sys_step no_order G vp) (moved i (u, shd s) s) s'
    \<and> section_over G s i t d m s' t' \<and> shd s' = shd s \<and> reaped s' = reaped s"
proof -
  have at: "section_at G (shd s) u d m u" "alive u" using assms(2) by (simp_all add: reached_def)
  obtain p' where p': "within 2 (tstep G vp i) (u, shd s) (u\<lparr>gp := p', pc := After\<rparr>, shd s)"
      "no_copies p'" "tid p' = tid (gp u)" "predecessor p' = predecessor (gp u)"
    using end_untouched(2) [OF at(1) assms(3,4)] by blast
  let ?s = "moved i (u, shd s) s" and ?t' = "u\<lparr>gp := p', pc := After\<rparr>"
  have "within 2 (sys_step no_order G vp) ?s (moved i (?t', shd s) ?s)"
    by (rule lift_within) (use p'(1) at(2) in simp_all)
  then have "within 2 (sys_step no_order G vp) ?s (moved i (?t', shd s) s)" by simp
  moreover have "section_over G s i t d m (moved i (?t', shd s) s) ?t'"
    using p'(2-4) at assms(1,2) end_untouched(1) [OF at(1) assms(3,4)]
    by (simp add: section_over_def reached_def section_at_def ready_def)
  ultimately show ?thesis by force
qed

lemma section_over_touched:
  assumes "ready s i t" and "reached G s t d m u" and "ends_section d" and "\<not> nothing_accessed (gp u)"
    and "live vp" and "wait_returns s i (predecessor (gp t))"
  shows "\<exists>s' t'. within (length (write_set_version (gp u)) + 7) (sys_step no_order G vp) (moved i (u, shd s) s) s'
    \<and> section_over G s i t d m s' t' \<and> reaped s' = collect s i (predecessor (gp t))
    \<and> vm_find (global_page_version (shd s'))
        = vm_find (global_page_version (shd s)) ++ vm_find (write_set_version (gp u))"
proof -
  have at: "section_at G (shd s) u d m u" "alive u" "parent u = parent t" "cur u = d"
      "predecessor (gp u) = predecessor (gp t)"
      "vm_find (local_page_version (gp u)) = vm_find (global_page_version (shd s))"
    using assms(2) by (simp_all add: reached_def section_at_def)
  have r: "procs s i = Some t" "alive t" "mutex (shd s) = None" "vm_wf (global_page_version (shd s))"
    using assms(1) by (simp_all add: ready_def)
  let ?R = "sys_step no_order G vp" and ?w = "(u\<lparr>pc := Wait\<rparr>, shd s)" and ?l = "(u\<lparr>pc := Commit_Lock\<rparr>, shd s)"
  let ?s = "moved i (u, shd s) s" and ?s1 = "s\<lparr>reaped := collect s i (predecessor (gp t))\<rparr>"
  have "within 2 ?R ?s (moved i ?w ?s)"
    by (rule lift_within) (use end_waiting [OF at(1) assms(3,4)] at(2) in simp_all)
  then have w1: "within 2 ?R ?s (moved i ?w s)" by simp
  have "wait_returns (moved i ?w s) i (predecessor (gp t))"
    using assms(6) wait_returns_moved [OF r(1), of ?w] at(2,3) r(2) by simp
  moreover have "collect (moved i ?w s) i (predecessor (gp t)) = collect s i (predecessor (gp t))"
    using r(1,2) at(2,3) by (auto simp: collect_def waitpid_def split: option.splits)
  ultimately have "?R (moved i ?w s) (moved i ?l ?s1)"
    using sys_step.waited [of "moved i ?w s" i "u\<lparr>pc := Wait\<rparr>" no_order G vp] at(2,5)
    by (simp add: moved_def set_proc_def)
  from within_next [where R = ?R, OF w1 this]
  have w2: "within 3 ?R ?s (moved i ?l ?s1)" by (simp add: eval_nat_numeral)
  obtain p' sh' where c: "within (length (write_set_version (gp u)) + 4) (tstep G vp i)
        (u\<lparr>pc := Commit_Lock\<rparr>, shd s) (u\<lparr>gp := p', pc := After\<rparr>, sh')"
      and heap: "heap_view G sh' = m" "mutex sh' = None" "vm_wf (global_page_version sh')"
        "rollback_count sh' = rollback_count (shd s)"
      and versions: "vm_find (global_page_version sh')
        = vm_find (global_page_version (shd s)) ++ vm_find (write_set_version (gp u))"
      and p': "no_copies p'" "tid p' = tid (gp u)" "predecessor p' = predecessor (gp u)"
    using end_commit [OF at(1) assms(5) r(3) at(6) r(4)] by blast
  let ?t' = "u\<lparr>gp := p', pc := After\<rparr>"
  have "within (length (write_set_version (gp u)) + 4) ?R (moved i ?l ?s1) (moved i (?t', sh') (moved i ?l ?s1))"
    by (rule lift_within [where t = "u\<lparr>pc := Commit_Lock\<rparr>"]) (use c at(2) in simp_all)
  then have w3: "within (length (write_set_version (gp u)) + 4) ?R (moved i ?l ?s1) (moved i (?t', sh') ?s1)"
    by simp
  have "within (length (write_set_version (gp u)) + 7) ?R ?s (moved i (?t', sh') ?s1)"
    using within_trans [OF w2 w3] by (simp add: add.commute add.left_commute)
  moreover have "section_over G s i t d m (moved i (?t', sh') ?s1) ?t'"
    using heap p' at assms(2) by (simp add: section_over_def reached_def)
  moreover have "reaped (moved i (?t', sh') ?s1) = collect s i (predecessor (gp t))" by simp
  moreover have "vm_find (global_page_version (shd (moved i (?t', sh') ?s1)))
      = vm_find (global_page_version (shd s)) ++ vm_find (write_set_version (gp u))"
    using versions by simp
  ultimately show ?thesis by blast
qed

section \<open>Sections of one access, and forks\<close>

lemma reached_versions:
  assumes "reached G s t d m u"
  shows "vm_find (read_set_version (gp u)) page \<noteq> None \<Longrightarrow>
      vm_find (read_set_version (gp u)) page = Some (version_of (global_page_version (shd s)) page)"
    and "vm_find (write_set_version (gp u)) page \<noteq> None \<Longrightarrow>
      vm_find (write_set_version (gp u)) page = Some (version_of (global_page_version (shd s)) page + 1)"
proof -
  have ok: "sets_ok G (gp u)" and
    same: "version_of (local_page_version (gp u)) = version_of (global_page_version (shd s))"
    using assms by (simp_all add: reached_def section_at_def version_of_def fun_eq_iff)
  show "vm_find (read_set_version (gp u)) page = Some (version_of (global_page_version (shd s)) page)"
    if "vm_find (read_set_version (gp u)) page \<noteq> None"
    using that sets_okD_read [OF ok] same by fastforce
  show "vm_find (write_set_version (gp u)) page = Some (version_of (global_page_version (shd s)) page + 1)"
    if "vm_find (write_set_version (gp u)) page \<noteq> None"
    using that sets_okD_write [OF ok] same by fastforce
qed

lemma store_section:
  assumes "ready s i t" and "heap_aligned G" and "live vp" and "cur t = Store a v c" and "in_heap G a"
    and "ends_section c" and "wait_returns s i (predecessor (gp t))"
  shows "\<exists>s' t'. within 19 (sys_step no_order G vp) s s'
    \<and> section_over G s i t c ((heap_view G (shd s))(a := v)) s' t'
    \<and> reaped s' = collect s i (predecessor (gp t))
    \<and> vm_find (global_page_version (shd s')) (page_of a)
        = Some (version_of (global_page_version (shd s)) (page_of a) + 1)"
proof -
  let ?R = "sys_step no_order G vp" and ?m = "(heap_view G (shd s))(a := v)"
  obtain u where u: "within 9 ?R s (moved i (u, shd s) s)" "reached G s t c ?m u"
      "vm_find (write_set_version (gp u)) (page_of a) \<noteq> None" "length (write_set_version (gp u)) \<le> 3"
    using first_store [OF assms(1-5)] by blast
  have touched: "\<not> nothing_accessed (gp u)" using u(3) by (auto simp: nothing_accessed_def)
  obtain s' t' where s': "within (length (write_set_version (gp u)) + 7) ?R (moved i (u, shd s) s) s'"
      "section_over G s i t c ?m s' t'" "reaped s' = collect s i (predecessor (gp t))"
      "vm_find (global_page_version (shd s'))
        = vm_find (global_page_version (shd s)) ++ vm_find (write_set_version (gp u))"
    using section_over_touched [OF assms(1) u(2) assms(6) touched assms(3,7)] by blast
  have "within 19 ?R s s'"
    by (rule within_mono [OF within_trans [OF u(1) s'(1)]]) (use u(4) in simp)
  moreover have "vm_find (global_page_version (shd s')) (page_of a)
      = Some (version_of (global_page_version (shd s)) (page_of a) + 1)"
    using s'(4) reached_versions(2) [OF u(2,3)] by (simp add: map_add_def)
  ultimately show ?thesis using s'(2,3) by blast
qed

lemma load_waits:
  assumes "ready s i t" and "heap_aligned G" and "live vp" and "cur t = Load a c" and "in_heap G a"
    and "ends_section (c (heap_view G (shd s) a))"
  shows "\<exists>u. within 10 (sys_step no_order G vp) s (moved i (u, shd s) s) \<and> pc u = Wait \<and> alive u
    \<and> parent u = parent t \<and> predecessor (gp u) = predecessor (gp t)
    \<and> vm_find (read_set_version (gp u)) (page_of a)
        = Some (version_of (global_page_version (shd s)) (page_of a))"
proof -
  let ?R = "sys_step no_order G vp" and ?d = "c (heap_view G (shd s) a)"
  obtain u where u: "within 8 ?R s (moved i (u, shd s) s)"
      "reached G s t ?d (heap_view G (shd s)) u" "vm_find (read_set_version (gp u)) (page_of a) \<noteq> None"
    using first_load [OF assms(1-5)] by blast
  have at: "section_at G (shd s) u ?d (heap_view G (shd s)) u" "alive u"
    using u(2) by (simp_all add: reached_def)
  have "\<not> nothing_accessed (gp u)" using u(3) by (auto simp: nothing_accessed_def)
  then have "within 2 ?R (moved i (u, shd s) s) (moved i (u\<lparr>pc := Wait\<rparr>, shd s) (moved i (u, shd s) s))"
    by (intro lift_within) (use end_waiting [OF at(1) assms(6)] at(2) in simp_all)
  then have "within 10 ?R s (moved i (u\<lparr>pc := Wait\<rparr>, shd s) s)"
    using within_trans [OF u(1)] by fastforce
  moreover have "parent u = parent t" "predecessor (gp u) = predecessor (gp t)"
    using u(2) by (simp_all add: reached_def)
  ultimately show ?thesis
    using reached_versions(1) [OF u(2,3)] at(2) by (intro exI [of _ "u\<lparr>pc := Wait\<rparr>"]) simp
qed

lemma idle_section:
  assumes "ready s i t" and "heap_aligned G" and "live vp" and "ends_section (cur t)"
  shows "\<exists>s' t'. within 8 (sys_step no_order G vp) s s'
    \<and> section_over G s i t (cur t) (heap_view G (shd s)) s' t' \<and> shd s' = shd s \<and> reaped s' = reaped s"
proof -
  have "((local_step G) ^^ 0) (cur t, heap_view G (shd s)) (cur t, heap_view G (shd s))" by simp
  from section_reached [OF assms(1-3) this] obtain u
    where u: "within 6 (sys_step no_order G vp) s (moved i (u, shd s) s)"
      "reached G s t (cur t) (heap_view G (shd s)) u" "nothing_accessed (gp u)" by auto
  obtain s' t' where s': "within 2 (sys_step no_order G vp) (moved i (u, shd s) s) s'"
      "section_over G s i t (cur t) (heap_view G (shd s)) s' t'" "shd s' = shd s" "reaped s' = reaped s"
    using section_over_untouched [OF assms(1) u(2) assms(4) u(3)] by blast
  have "within 8 (sys_step no_order G vp) s s'" using within_trans [OF u(1) s'(1)] by simp
  with s'(2-4) show ?thesis by blast
qed

definition parent_thread :: "pid_t \<Rightarrow> prog \<Rightarrow> thread \<Rightarrow> thread" where
  "parent_thread j c t = t\<lparr>gp := parent_side j (gp t), cur := c, pc := Save\<rparr>"

definition child_thread :: "bool \<Rightarrow> pid_t \<Rightarrow> pid_t \<Rightarrow> prog \<Rightarrow> thread \<Rightarrow> thread" where
  "child_thread no_order i j c t =
     t\<lparr>gp := child_side no_order j (gp t), cur := c, pc := Save, parent := i\<rparr>"

lemma fork_simps [simp]:
  "cur (parent_thread j c t) = c" "parent (parent_thread j c t) = parent t"
  "predecessor (gp (parent_thread j c t)) = j"
  "cur (child_thread no_order i j c t) = c" "parent (child_thread no_order i j c t) = i"
  "predecessor (gp (child_thread no_order i j c t)) = (if no_order then 0 else predecessor (gp t))"
  by (simp_all add: parent_thread_def child_thread_def parent_side_def child_side_def Let_def)

lemma fork_ready:
  assumes "section_over G s0 i t0 (Spawn c k) m s t" and "j \<noteq> 0" and "procs s j = None"
  shows "sys_step no_order G vp s
      (set_proc i (parent_thread j (k j) t) (set_proc j (child_thread no_order i j c t) s))"
    and "ready (set_proc i (parent_thread j (k j) t) (set_proc j (child_thread no_order i j c t) s)) i
      (parent_thread j (k j) t)"
    and "ready (set_proc i (parent_thread j (k j) t) (set_proc j (child_thread no_order i j c t) s)) j
      (child_thread no_order i j c t)"
proof -
  have t: "procs s i = Some t" "alive t" "pc t = After" "cur t = Spawn c k" "no_copies (gp t)"
      "mutex (shd s) = None" "vm_wf (global_page_version (shd s))"
    using assms(1) by (simp_all add: section_over_def)
  show "sys_step no_order G vp s
      (set_proc i (parent_thread j (k j) t) (set_proc j (child_thread no_order i j c t) s))"
    using sys_step.forked [OF t(1-4) assms(2,3)] by (simp add: parent_thread_def child_thread_def)
  show "ready (set_proc i (parent_thread j (k j) t) (set_proc j (child_thread no_order i j c t) s)) i
      (parent_thread j (k j) t)"
    using t by (simp add: ready_def parent_thread_def)
  have "i \<noteq> j" using t(1) assms(3) by auto
  then show "ready (set_proc i (parent_thread j (k j) t) (set_proc j (child_thread no_order i j c t) s)) j
      (child_thread no_order i j c t)"
    using t by (simp add: ready_def child_thread_def)
qed

lemma exit_step:
  assumes "section_over G s0 i t0 Return m s t"
  shows "sys_step no_order G vp s (set_proc i (t\<lparr>alive := False\<rparr>) s)"
proof -
  have t: "procs s i = Some t" "alive t" "pc t = After" "cur t = Return"
    using assms by (simp_all add: section_over_def)
  show ?thesis
    using sys_step.thread [OF t(1,2) tstep.exit [OF t(3,4)], of no_order G vp] by simp
qed

lemma section_commits:
  assumes "ready s i t" and "heap_aligned G" and "live vp" and "wait_returns s i (predecessor (gp t))"
    and "((local_step G) ^^ k) (cur t, heap_view G (shd s)) (d, m)" and "ends_section d"
  shows "\<exists>s' t'. within (6 * k + 13) (sys_step no_order G vp) s s' \<and> section_over G s i t d m s' t'
    \<and> reaped s \<subseteq> reaped s'"
proof -
  let ?R = "sys_step no_order G vp"
  obtain u where u: "within (6 + 3 * k) ?R s (moved i (u, shd s) s)" "reached G s t d m u"
      "length (write_set_version (gp u)) \<le> 3 * k"
    using section_reached [OF assms(1-3,5)] by blast
  show ?thesis
  proof (cases "nothing_accessed (gp u)")
    case True
    then obtain s' t' where "within 2 ?R (moved i (u, shd s) s) s'" "section_over G s i t d m s' t'"
        "reaped s' = reaped s"
      using section_over_untouched [OF assms(1) u(2) assms(6)] by blast
    moreover from within_trans [OF u(1) this(1)] have "within (6 * k + 13) ?R s s'"
      by (rule within_mono) simp
    ultimately show ?thesis by auto
  next
    case False
    then obtain s' t' where "within (length (write_set_version (gp u)) + 7) ?R (moved i (u, shd s) s) s'"
        "section_over G s i t d m s' t'" "reaped s' = collect s i (predecessor (gp t))"
      using section_over_touched [OF assms(1) u(2) assms(6) _ assms(3,4)] by blast
    moreover from within_trans [OF u(1) this(1)] have "within (6 * k + 13) ?R s s'"
      by (rule within_mono) (use u(3) in simp)
    ultimately show ?thesis by (auto simp: collect_def)
  qed
qed

section \<open>Runs without a rollback\<close>

lemma tstep_rollback_count:
  assumes "tstep G vp i (t, sh) (t', sh')"
  shows "rollback_count sh' = rollback_count sh + of_bool (pc t = Check \<and> pc t' = Unlock_Failed)"
  using assms by (cases rule: tstep.cases) auto

lemma sys_step_rollback_count:
  assumes "sys_step no_order G vp s s'"
  shows "rollback_count (shd s') \<in> {rollback_count (shd s), rollback_count (shd s) + 1}"
  using assms by (cases rule: sys_step.cases) (auto simp: set_proc_def dest: tstep_rollback_count)

text \<open>A step that counts no rollback.\<close>

definition steady_step :: "bool \<Rightarrow> heap_globals \<Rightarrow> view_policy \<Rightarrow> sys \<Rightarrow> sys \<Rightarrow> bool" where
  "steady_step no_order G vp s s' \<longleftrightarrow>
     sys_step no_order G vp s s' \<and> rollback_count (shd s') = rollback_count (shd s)"

lemma run_rollback_count:
  assumes "((sys_step no_order G vp) ^^ n) s s'"
  shows "\<exists>m\<le>n. rollback_count (shd s') = rollback_count (shd s) + of_nat m
    \<and> (m = 0 \<longrightarrow> ((steady_step no_order G vp) ^^ n) s s')"
  using assms
proof (induction n arbitrary: s')
  case (Suc n)
  then obtain u where u: "((sys_step no_order G vp) ^^ n) s u" "sys_step no_order G vp u s'" by auto
  from Suc.IH [OF u(1)] obtain m where m: "m \<le> n" "rollback_count (shd u) = rollback_count (shd s) + of_nat m"
      "m = 0 \<longrightarrow> ((steady_step no_order G vp) ^^ n) s u"
    by blast
  show ?case
  proof (cases "rollback_count (shd s') = rollback_count (shd u)")
    case True
    then have "steady_step no_order G vp u s'" using u(2) by (simp add: steady_step_def)
    then have "m = 0 \<longrightarrow> ((steady_step no_order G vp) ^^ Suc n) s s'" using m(3) by auto
    then show ?thesis using m(1,2) True by (intro exI [of _ m]) simp
  next
    case False
    then have "rollback_count (shd s') = rollback_count (shd u) + 1" using sys_step_rollback_count [OF u(2)] by simp
    then show ?thesis using m(1,2) by (intro exI [of _ "Suc m"]) simp
  qed
qed (simp add: relpowp_0_I)

lemma within_steady:
  assumes "within b (sys_step no_order G vp) s s'" and "rollback_count (shd s') = rollback_count (shd s)" and "b < 2 ^ 64"
  shows "within b (steady_step no_order G vp) s s'"
proof -
  obtain n where n: "n \<le> b" "((sys_step no_order G vp) ^^ n) s s'" using assms(1) by (auto simp: within_def)
  from run_rollback_count [OF n(2)] obtain m where m: "m \<le> n" "of_nat m = (0 :: u64)"
      "m = 0 \<longrightarrow> ((steady_step no_order G vp) ^^ n) s s'"
    using assms(2) by auto
  have "unat (of_nat m :: u64) = m" using m(1) n(1) assms(3) by (simp add: unat_of_nat take_bit_nat_eq_self)
  then have "m = 0" using m(2) by simp
  then show ?thesis using m(3) n(1) by (auto simp: within_def)
qed

section \<open>The end of a section, as a run of the system\<close>

text \<open>The calls of \<open>WaitExited\<close> return in \<open>env\<close> what the kernel answers in state \<open>s\<close>.\<close>

definition answered :: "sys \<Rightarrow> pid_t \<Rightarrow> pid_t \<Rightarrow> os \<Rightarrow> bool" where
  "answered s i j env \<longleftrightarrow> waitpid s i j = Some (wait_ret env, wait_errno env) \<and> kills env = [kill0 s j]"

lemma answered_returns:
  "answered s i j env \<Longrightarrow>
    wait_returns s i j \<longleftrightarrow> WaitExited j (wait_ret env) (wait_errno env) (kills env) = Some (Inr ())"
  by (simp add: answered_def wait_returns_def)

text \<open>From the commit's entry to the lock, if the section has touched the heap.\<close>

lemma enter_commit:
  assumes "procs s i = Some t" and "alive t" and "pc t = Entry" and "\<not> nothing_accessed (gp t)"
  shows "(sys_step no_order G vp)\<^sup>*\<^sup>* s (moved i (t\<lparr>pc := Wait\<rparr>, shd s) s)"
    and "wait_returns s i (predecessor (gp t)) \<Longrightarrow> (sys_step no_order G vp)\<^sup>*\<^sup>* s
      (moved i (t\<lparr>pc := Commit_Lock\<rparr>, shd s) (s\<lparr>reaped := collect s i (predecessor (gp t))\<rparr>))"
proof -
  let ?R = "sys_step no_order G vp" and ?w = "(t\<lparr>pc := Wait\<rparr>, shd s)" and ?j = "predecessor (gp t)"
  have "tstep G vp i (t, shd s) ?w" by (rule tstep.touched [OF assms(3,4)])
  then have w: "?R s (moved i ?w s)" by (rule one_move [OF assms(1,2)])
  then show "?R\<^sup>*\<^sup>* s (moved i ?w s)" by blast
  assume "wait_returns s i ?j"
  then have "wait_returns (moved i ?w s) i ?j" using wait_returns_moved [OF assms(1), of ?w] assms(2) by simp
  moreover have "collect (moved i ?w s) i ?j = collect s i ?j"
    using assms(1,2) by (auto simp: collect_def waitpid_def split: option.splits)
  ultimately have "?R (moved i ?w s) (moved i (t\<lparr>pc := Commit_Lock\<rparr>, shd s) (s\<lparr>reaped := collect s i ?j\<rparr>))"
    using sys_step.waited [of "moved i ?w s" i "t\<lparr>pc := Wait\<rparr>" no_order G vp] assms(2)
    by (simp add: moved_def set_proc_def)
  with w show "?R\<^sup>*\<^sup>* s (moved i (t\<lparr>pc := Commit_Lock\<rparr>, shd s) (s\<lparr>reaped := collect s i ?j\<rparr>))" by auto
qed

lemma lift_run:
  assumes "within b (tstep G vp i) (t, shd s) d" and "procs s i = Some t" and "alive t" and "alive (fst d)"
  shows "(sys_step no_order G vp)\<^sup>*\<^sup>* s (moved i d s)"
  by (rule within_rtranclp [OF lift_within [OF assms]])

definition reaped_by :: "sys \<Rightarrow> pid_t \<Rightarrow> thread \<Rightarrow> sys" where
  "reaped_by s i t = (if nothing_accessed (gp t) then s else s\<lparr>reaped := collect s i (predecessor (gp t))\<rparr>)"

lemma commit_run:
  assumes "procs s i = Some t" and "alive t" and "pc t = Entry" and "mutex (shd s) = None" and "tid (gp t) = i"
    and "answered s i (predecessor (gp t)) env"
    and "AtomicCommit vp G env (gp t) (shd s) = (sh', Some (Inr (committed, p)))"
  shows "(sys_step no_order G vp)\<^sup>*\<^sup>* s
    (moved i (t\<lparr>gp := p, pc := if committed then After else Abort_Section\<rparr>, sh') (reaped_by s i t))"
proof (cases "nothing_accessed (gp t)")
  case True
  then have "committed" "sh' = shd s" "UpdateHeap G True (local_heap G) (shd s) (gp t) = Inr p"
    using assms(7) by (auto simp: AtomicCommit_def bind_result_Inr_iff UpdateHeap_def require_def split: if_splits)
  moreover from this have "tstep G vp i (t, shd s) (t\<lparr>gp := p, pc := After\<rparr>, shd s)"
    using tstep.untouched [OF assms(3) True] by simp
  from one_move [OF assms(1,2) this] have "sys_step no_order G vp s (moved i (t\<lparr>gp := p, pc := After\<rparr>, shd s) s)" .
  ultimately show ?thesis using True by (simp add: reaped_by_def r_into_rtranclp)
next
  case False
  let ?s = "s\<lparr>reaped := collect s i (predecessor (gp t))\<rparr>" and ?t = "t\<lparr>pc := Commit_Lock\<rparr>"
  let ?d = "(t\<lparr>gp := p, pc := if committed then After else Abort_Section\<rparr>, sh')"
  have "wait_returns s i (predecessor (gp t))"
    using assms(7) False answered_returns [OF assms(6)]
    by (auto simp: AtomicCommit_def split: option.splits sum.splits)
  from enter_commit(2) [OF assms(1-3) False this]
  have enter: "(sys_step no_order G vp)\<^sup>*\<^sup>* s (moved i (?t, shd s) ?s)" .
  have "within (length (write_set_version (gp ?t)) + 4) (tstep G vp i) (?t, shd s)
      (?t\<lparr>gp := p, pc := if committed then After else Abort_Section\<rparr>, sh')"
    by (rule commit_within [of ?t "shd s" i vp G env sh' committed p]) (use assms(4,5,7) False in simp_all)
  then have "within (length (write_set_version (gp t)) + 4) (tstep G vp i) (?t, shd s) ?d" by simp
  then have "within (length (write_set_version (gp t)) + 4) (tstep G vp i) (?t, shd (moved i (?t, shd s) ?s)) ?d"
    by simp
  then have "(sys_step no_order G vp)\<^sup>*\<^sup>* (moved i (?t, shd s) ?s) (moved i ?d (moved i (?t, shd s) ?s))"
    by (rule lift_run) (use assms(2) in simp_all)
  with enter show ?thesis by (simp add: reaped_by_def False)
qed

section \<open>Properties\<close>

text \<open>
  C22: The steps of a process are its code. Uninterrupted, with the mutex free and \<open>waitpid\<close> and
  \<open>kill\<close> answering as the kernel does in the state: from the beginning of a section the steps
  lead to the state \<open>AtomicBegin\<close> computes; from the section's end they lead to the result and the
  shared state of \<open>AtomicEnd\<close>, whether it returns, with or without a touched heap, or rolls
  back and begins the section again with the program that was saved; and where it does not return,
  they lead to the wait for the predecessor, which the process cannot leave.
\<close>

theorem steps_compute_section_code:
  assumes "procs s i = Some t" and "alive t" and "mutex (shd s) = None" and "tid (gp t) = i"
    and "answered s i (predecessor (gp t)) env"
  shows "(pc t = Save \<longrightarrow> AtomicBegin G env (shd s) (gp t, m) = Inr (p, m') \<longrightarrow>
      (sys_step no_order G vp)\<^sup>*\<^sup>* s (moved i (t\<lparr>ctx := cur t, gp := p, pc := Body\<rparr>, shd s) s))
    \<and> (pc t = Entry \<longrightarrow> AtomicEnd vp G env (gp t, m) (shd s) = (sh', Some (Inr (Returned (p, m')))) \<longrightarrow>
      (sys_step no_order G vp)\<^sup>*\<^sup>* s (moved i (t\<lparr>gp := p, pc := After\<rparr>, sh') (reaped_by s i t)))
    \<and> (pc t = Entry \<longrightarrow> AtomicEnd vp G env (gp t, m) (shd s) = (sh', Some (Inr (Restarted (p, m')))) \<longrightarrow>
      (sys_step no_order G vp)\<^sup>*\<^sup>* s (moved i (t\<lparr>cur := ctx t, gp := p, pc := Body\<rparr>, sh') (reaped_by s i t)))
    \<and> (pc t = Entry \<longrightarrow> AtomicEnd vp G env (gp t, m) (shd s) = (sh', None) \<longrightarrow>
      (sys_step no_order G vp)\<^sup>*\<^sup>* s (moved i (t\<lparr>pc := Wait\<rparr>, sh') s)
      \<and> \<not> wait_returns s i (predecessor (gp t)))"
proof (intro conjI impI)
  assume "pc t = Save" and "AtomicBegin G env (shd s) (gp t, m) = Inr (p, m')"
  then have "within 6 (tstep G vp i) (t, shd s) (t\<lparr>ctx := cur t, gp := p, pc := Body\<rparr>, shd s)"
    by (intro begin_within assms) (auto simp: AtomicBegin_def bind_result_Inr_iff begin_section_Inr)
  then show "(sys_step no_order G vp)\<^sup>*\<^sup>* s (moved i (t\<lparr>ctx := cur t, gp := p, pc := Body\<rparr>, shd s) s)"
    by (rule lift_run) (use assms in simp_all)
next
  assume pc: "pc t = Entry" and "AtomicEnd vp G env (gp t, m) (shd s) = (sh', Some (Inr (Returned (p, m'))))"
  then have "AtomicCommit vp G env (gp t) (shd s) = (sh', Some (Inr (True, p)))"
    by (auto simp: AtomicEnd_def bind_result_Inr_iff split: prod.splits option.splits sum.splits if_splits)
  from commit_run [OF assms(1,2) pc assms(3-5) this]
  show "(sys_step no_order G vp)\<^sup>*\<^sup>* s (moved i (t\<lparr>gp := p, pc := After\<rparr>, sh') (reaped_by s i t))" by simp
next
  assume pc: "pc t = Entry" and "AtomicEnd vp G env (gp t, m) (shd s) = (sh', Some (Inr (Restarted (p, m'))))"
  then obtain q where commit: "AtomicCommit vp G env (gp t) (shd s) = (sh', Some (Inr (False, q)))"
      and begins: "begin_section G True sh' (discard_copies sh' q) = Inr p"
    by (auto simp: AtomicEnd_def AtomicAbort_def bind_result_Inr_iff begin_section_Inr
        split: prod.splits option.splits sum.splits if_splits)
  have free: "mutex sh' = None"
    using commit by (auto simp: AtomicCommit_def Let_def bind_result_Inr_iff split: prod.splits option.splits sum.splits if_splits)
  let ?a = "t\<lparr>gp := q, pc := Abort_Section\<rparr>" and ?c = "t\<lparr>gp := discard_copies sh' q, cur := ctx t, pc := Clear\<rparr>"
  let ?s = "moved i (?a, sh') (reaped_by s i t)" and ?d = "(t\<lparr>cur := ctx t, gp := p, pc := Body\<rparr>, sh')"
  have "tstep G vp i (?a, sh') (?c, sh')" using tstep.abort [of ?a G vp i sh'] by simp
  moreover have "within 5 (tstep G vp i) (?c, sh') ?d"
    using begin_cleared [of ?c sh' G p vp i] free begins by simp
  ultimately have "within 6 (tstep G vp i) (?a, shd ?s) ?d"
    using within_first [where R = "tstep G vp i"] by fastforce
  then have "(sys_step no_order G vp)\<^sup>*\<^sup>* ?s (moved i ?d ?s)" by (rule lift_run) (use assms(2) in simp_all)
  moreover have "(sys_step no_order G vp)\<^sup>*\<^sup>* s ?s"
    using commit_run [OF assms(1,2) pc assms(3-5) commit] by simp
  ultimately show "(sys_step no_order G vp)\<^sup>*\<^sup>* s (moved i ?d (reaped_by s i t))" by simp
next
  assume pc: "pc t = Entry" and "AtomicEnd vp G env (gp t, m) (shd s) = (sh', None)"
  then have "AtomicCommit vp G env (gp t) (shd s) = (sh', None)"
    by (auto simp: AtomicEnd_def split: prod.splits option.splits sum.splits if_splits)
  then have still: "\<not> nothing_accessed (gp t)" "sh' = shd s"
      "WaitExited (predecessor (gp t)) (wait_ret env) (wait_errno env) (kills env) = None"
    by (auto simp: AtomicCommit_def Let_def split: prod.splits option.splits sum.splits if_splits)
  show "(sys_step no_order G vp)\<^sup>*\<^sup>* s (moved i (t\<lparr>pc := Wait\<rparr>, sh') s)"
    using enter_commit(1) [OF assms(1,2) pc still(1)] still(2) by simp
  show "\<not> wait_returns s i (predecessor (gp t))"
    unfolding answered_returns [OF assms(5)] using still(3) by simp
qed

text \<open>
  C20: Sections left alone commit. From the beginning of a section, with the mutex free and the
  predecessor gone, if the section's code ends after \<open>k\<close> accesses to the heap when it runs on
  the shared heap, then the process has a run of at most \<open>6 * k + 13\<close> steps, faults, checks and
  copies included, behind the section: no step of it counts a rollback, the shared heap is what the
  code made of it, the mutex is free, and no other process has changed.
\<close>

theorem section_commits_alone:
  assumes "ready s i t" and "heap_aligned G" and "live vp" and "wait_returns s i (predecessor (gp t))"
    and "((local_step G) ^^ k) (cur t, heap_view G (shd s)) (d, m)" and "ends_section d" and "6 * k + 13 < 2 ^ 64"
  shows "\<exists>s' t'. within (6 * k + 13) (steady_step no_order G vp) s s' \<and> section_over G s i t d m s' t'"
proof -
  obtain s' t' where "within (6 * k + 13) (sys_step no_order G vp) s s'" and over: "section_over G s i t d m s' t'"
    using section_commits [OF assms(1-6)] by blast
  moreover have "rollback_count (shd s') = rollback_count (shd s)" using over by (simp add: section_over_def)
  ultimately show ?thesis using within_steady [OF _ _ assms(7)] by blast
qed

end
