(* ===== verification/Scenarios.thy ===== *)
theory Scenarios
  imports Runs
begin

text \<open>
  Concrete programs run by the system: one process that stores to the heap, two processes that
  conflict on a page, and the three processes that wait for each other for ever when
  \<open>NO_ORDER\<close> is not defined.
\<close>

section \<open>A program about to start\<close>

definition live_view :: view_policy where
  "live_view b c = c"

definition first_process :: "prog \<Rightarrow> thread" where
  "first_process c = \<lparr>gp = fresh_gproc\<lparr>tid := 1\<rparr>, pc = Save, cur = c, ctx = c, parent = 0, alive = True\<rparr>"

definition starting :: "prog \<Rightarrow> sys" where
  "starting c = \<lparr>procs = [1 \<mapsto> first_process c],
     shd = \<lparr>global_page_version = [], shm = (\<lambda>_. 0), mutex = None, rollback_count = 0\<rparr>, reaped = {}\<rparr>"

definition cell :: addr where
  "cell = 0x7ffff7e82abc"

lemma live_live_view: "live live_view"
  by (simp add: live_def live_view_def)

lemma sample_aligned: "heap_aligned sample_heap"
  by (simp add: heap_aligned_def sample_heap_def)

lemma cell_in_heap: "in_heap sample_heap cell"
  by (simp add: in_heap_def cell_def sample_heap_def HEAP_SIZE_def)

lemma starting_initial: "initial c (starting c)"
  by (auto simp: initial_def starting_def first_process_def fresh_gproc_def intro!: exI [of _ "Suc 0"])

lemma starting_ready: "ready (starting c) 1 (first_process c)"
  by (simp add: ready_def starting_def first_process_def no_copies_def fresh_gproc_def vm_wf_def)

lemma first_process_simps [simp]:
  "cur (first_process c) = c" "predecessor (gp (first_process c)) = 0" "tid (gp (first_process c)) = 1"
  "parent (first_process c) = 0"
  by (simp_all add: first_process_def fresh_gproc_def)

lemma wait_for_nobody: "procs s 0 = None \<Longrightarrow> wait_returns s i 0"
  by (simp add: wait_returns_def waitpid_def kill0_def WaitExited_def)

lemma one_store: "((local_step G) ^^ 1) (Store a v c, m) (c, m(a := v))" if "in_heap G a"
  using that by (simp add: eq_OO local_step.store)

theorem section_commits_alone_witness:
  "\<exists>s' t'. within 19 (steady_step True sample_heap live_view) (starting (Store cell 7 Return)) s'
    \<and> heap_view sample_heap (shd s') cell = 7 \<and> pc t' = After \<and> procs s' 1 = Some t'"
proof -
  let ?c = "Store cell 7 Return" and ?m = "heap_view sample_heap (shd (starting (Store cell 7 Return)))"
  have "wait_returns (starting ?c) 1 0" by (rule wait_for_nobody) (simp add: starting_def)
  then obtain s' t' where "within (6 * 1 + 13) (steady_step True sample_heap live_view) (starting ?c) s'"
      "section_over sample_heap (starting ?c) 1 (first_process ?c) Return (?m(cell := 7)) s' t'"
    using section_commits_alone [OF starting_ready sample_aligned live_live_view, of ?c 1 Return "?m(cell := 7)" True]
      one_store [OF cell_in_heap, of 7 Return ?m] by auto
  then show ?thesis by (auto simp: section_over_def)
qed

lemma reachable_bounded:
  assumes "within b (sys_step no_order sample_heap live_view) (starting c) s" and "b < 2 ^ 64"
  shows "\<exists>n\<le>b. sys_run no_order sample_heap live_view (starting c) n s"
  using sys_run_within [OF assms(1), of 0 "starting c"] assms(2) sys_run_start by auto

lemma reachable_within:
  assumes "within b (sys_step no_order sample_heap live_view) (starting c) s" and "b < 2 ^ 64"
  shows "\<exists>n. sys_run no_order sample_heap live_view (starting c) n s"
  using reachable_bounded [OF assms] by blast

text \<open>The same program, as a run of the whole system.\<close>

lemma store_run:
  "\<exists>n s. sys_run True sample_heap live_view (starting (Store cell 7 Return)) n s
    \<and> heap_view sample_heap (shd s) cell = 7 \<and> mutex (shd s) = None"
proof -
  let ?c = "Store cell 7 Return"
  have "wait_returns (starting ?c) 1 (predecessor (gp (first_process ?c)))"
    by (simp add: wait_for_nobody starting_def)
  from store_section [OF starting_ready sample_aligned live_live_view first_process_simps(1) cell_in_heap
      ends_section_simps(5) this, of True]
  obtain s t where st: "within 19 (sys_step True sample_heap live_view) (starting ?c) s"
      "section_over sample_heap (starting ?c) 1 (first_process ?c) Return
        ((heap_view sample_heap (shd (starting ?c)))(cell := 7)) s t"
    by blast
  have "heap_view sample_heap (shd s) cell = 7" "mutex (shd s) = None"
    using st(2) by (simp_all add: section_over_def)
  moreover have "\<exists>n. sys_run True sample_heap live_view (starting ?c) n s"
    by (rule reachable_within [OF st(1)]) simp
  ultimately show ?thesis by blast
qed

theorem serializable_witness:
  "\<exists>n s i. sys_run True sample_heap live_view (starting (Store cell 7 Return)) n s
    \<and> (astep sample_heap)\<^sup>*\<^sup>* \<lparr>heap = (\<lambda>a. 0), threads = [i \<mapsto> Running (Store cell 7 Return)]\<rparr> (abs_sys sample_heap s)
    \<and> heap (abs_sys sample_heap s) cell = 7"
proof -
  let ?c = "Store cell 7 Return"
  obtain n s where run: "sys_run True sample_heap live_view (starting ?c) n s"
      and s: "heap_view sample_heap (shd s) cell = 7" "mutex (shd s) = None"
    using store_run by blast
  have zero: "heap_view sample_heap (shd (starting ?c)) = (\<lambda>a. 0)"
    by (simp add: heap_view_def starting_def fun_eq_iff)
  from serializable [OF starting_initial sample_aligned live_live_view run]
  obtain i where "(astep sample_heap)\<^sup>*\<^sup>* \<lparr>heap = (\<lambda>a. 0), threads = [i \<mapsto> Running ?c]\<rparr> (abs_sys sample_heap s)"
      and "heap (abs_sys sample_heap s) = heap_view sample_heap (shd s)"
    using s(2) unfolding zero by blast
  with run s(1) show ?thesis by metis
qed

lemma holder_run:
  "\<exists>n\<le>3. \<exists>s t. sys_run True sample_heap live_view (starting Return) n s \<and> procs s 1 = Some t
    \<and> alive t \<and> holds (pc t) \<and> mutex (shd s) = Some 1"
proof -
  let ?s = "starting Return" and ?t = "first_process Return" and ?R = "tstep sample_heap live_view 1"
  let ?t3 = "?t\<lparr>gp := clear_sets (gp ?t), pc := Copy_Versions\<rparr>"
  have t: "pc ?t = Save" "ctx ?t = Return" "alive ?t" "mutex (shd ?s) = None" "procs ?s 1 = Some ?t"
    by (simp_all add: first_process_def starting_def)
  have s1: "?R (?t, shd ?s) (?t\<lparr>pc := Clear\<rparr>, shd ?s)"
    using tstep.save [OF t(1), of sample_heap live_view 1 "shd ?s"] t(2) by (simp add: first_process_def)
  have s2: "?R (?t\<lparr>pc := Clear\<rparr>, shd ?s) (?t\<lparr>gp := clear_sets (gp ?t), pc := Lock\<rparr>, shd ?s)"
    using tstep.clear [of "?t\<lparr>pc := Clear\<rparr>"] by simp
  have s3: "?R (?t\<lparr>gp := clear_sets (gp ?t), pc := Lock\<rparr>, shd ?s) (?t3, lock 1 (shd ?s))"
    using tstep.lock [of "?t\<lparr>gp := clear_sets (gp ?t), pc := Lock\<rparr>"] t(4) by simp
  have "within 3 ?R (?t, shd ?s) (?t3, lock 1 (shd ?s))"
    using within_first [where R = ?R, OF s1 within_first [where R = ?R, OF s2 within_one [where R = ?R, OF s3, of 1]]]
    by (simp add: numeral_3_eq_3)
  then have "within 3 (sys_step True sample_heap live_view) ?s (moved 1 (?t3, lock 1 (shd ?s)) ?s)"
    by (rule lift_within) (use t in simp_all)
  from reachable_bounded [OF this] obtain n
    where run: "n \<le> 3" "sys_run True sample_heap live_view ?s n (moved 1 (?t3, lock 1 (shd ?s)) ?s)" by auto
  have "mutex (lock 1 (shd ?s)) = Some 1" by (simp add: lock_def)
  with run t(3) show ?thesis
    by (intro exI [of _ n] conjI exI [of _ "moved 1 (?t3, lock 1 (shd ?s)) ?s"] exI [of _ ?t3]) simp_all
qed

theorem mutual_exclusion_witness:
  "\<exists>n s t. sys_run True sample_heap live_view (starting Return) n s \<and> procs s 1 = Some t
    \<and> holds (pc t) \<and> mutex (shd s) = Some 1"
proof -
  obtain n s t where run: "sys_run True sample_heap live_view (starting Return) n s" "procs s 1 = Some t" "holds (pc t)"
    using holder_run by blast
  with mutual_exclusion [OF starting_initial sample_aligned run run(2,3)] show ?thesis by blast
qed


text \<open>The answers of the kernel to a process without a predecessor, and calls that succeed.\<close>

definition sample_answers :: os where
  "sample_answers = \<lparr>getcontext_ok = True, stack_copy = 0x6000, frame = 0x7ffc1000, restore_frame = 0x7ffc0800,
     mprotect_ok = True, madvise_ok = True, munmap_ok = True, mapped_at = local_heap sample_heap, msync_ok = True,
     wait_ret = -1, wait_errno = ECHILD, kills = [Some ESRCH]\<rparr>"

definition ending_process :: thread where
  "ending_process = (first_process Return)\<lparr>pc := Entry\<rparr>"

definition ending_sys :: sys where
  "ending_sys = (starting Return)\<lparr>procs := [1 \<mapsto> ending_process]\<rparr>"

theorem steps_compute_section_code_witness:
  "\<exists>p. AtomicEnd live_view sample_heap sample_answers (gp ending_process, sample_machine) (shd ending_sys)
      = (shd ending_sys, Some (Inr (Returned (p, sample_machine))))
    \<and> (sys_step True sample_heap live_view)\<^sup>*\<^sup>* ending_sys
        (moved 1 (ending_process\<lparr>gp := p, pc := After\<rparr>, shd ending_sys) (reaped_by ending_sys 1 ending_process))"
proof -
  have t: "procs ending_sys 1 = Some ending_process" "alive ending_process" "mutex (shd ending_sys) = None"
      "tid (gp ending_process) = 1" "pc ending_process = Entry" "predecessor (gp ending_process) = 0"
      "nothing_accessed (gp ending_process)"
    by (simp_all add: ending_sys_def ending_process_def starting_def first_process_def fresh_gproc_def nothing_accessed_def)
  have "answered ending_sys 1 (predecessor (gp ending_process)) sample_answers"
    by (simp add: t(6)) (simp add: answered_def waitpid_def kill0_def ending_sys_def starting_def sample_answers_def)
  moreover obtain p where p: "UpdateHeap sample_heap True (local_heap sample_heap) (shd ending_sys) (gp ending_process) = Inr p"
    by (auto simp: UpdateHeap_def require_def)
  then have "AtomicEnd live_view sample_heap sample_answers (gp ending_process, sample_machine) (shd ending_sys)
      = (shd ending_sys, Some (Inr (Returned (p, sample_machine))))"
    using t(7) by (simp add: AtomicEnd_def AtomicCommit_def sample_answers_def)
  ultimately show ?thesis
    using steps_compute_section_code [OF t(1-4), where G = sample_heap and vp = live_view and no_order = True
        and m = sample_machine and m' = sample_machine and p = p and env = sample_answers] t(5)
    by blast
qed

section \<open>Two processes in conflict\<close>

definition racing :: prog where
  "racing = Spawn (Store cell 7 Return) (\<lambda>j. Load cell (\<lambda>_. Return))"

text \<open>
  The first process creates the second and reads the cell; the second stores to it, commits and
  exits; the first, which waits for its last child, then checks its read set.
\<close>

lemma race_run:
  "\<exists>n\<le>41. \<exists>s t. sys_run True sample_heap live_view (starting racing) n s \<and> procs s 1 = Some t \<and> alive t \<and> pc t = Check
    \<and> \<not> IsHeapConsistent (shd s) (gp t)"
proof -
  let ?R = "sys_step True sample_heap live_view" and ?s0 = "starting racing" and ?t0 = "first_process racing"
  let ?child = "Store cell 7 Return" and ?rest = "\<lambda>j :: pid_t. Load cell (\<lambda>_. Return)"
  have "ends_section (cur ?t0)" by (simp add: racing_def)
  from idle_section [OF starting_ready sample_aligned live_live_view this, of True]
  obtain s1 t1 where s1: "within 8 ?R ?s0 s1" "shd s1 = shd ?s0" "reaped s1 = reaped ?s0"
      and over1: "section_over sample_heap ?s0 1 ?t0 (Spawn ?child ?rest) (heap_view sample_heap (shd ?s0)) s1 t1"
    by (auto simp: racing_def)
  have free: "procs s1 2 = None" using over1 by (simp add: section_over_def starting_def)
  let ?s2 = "set_proc 1 (parent_thread 2 (?rest 2) t1) (set_proc 2 (child_thread True 1 2 ?child t1) s1)"
  note fork = fork_ready [OF over1 _ free, simplified]
  have w2: "within 9 ?R ?s0 ?s2" using within_next [where R = ?R, OF s1(1)] fork(1) by simp
  have load: "cur (parent_thread 2 (?rest 2) t1) = Load cell (\<lambda>_. Return)" by simp
  obtain u where u: "within 10 ?R ?s2 (moved 1 (u, shd ?s2) ?s2)" "pc u = Wait" "alive u"
      "predecessor (gp u) = 2"
      "vm_find (read_set_version (gp u)) (page_of cell) = Some (version_of (global_page_version (shd ?s2)) (page_of cell))"
    using load_waits [OF fork(2) sample_aligned live_live_view load cell_in_heap] by auto
  let ?s3 = "moved 1 (u, shd ?s2) ?s2" and ?t3 = "child_thread True 1 2 ?child t1"
  have w3: "within 19 ?R ?s0 ?s3" using within_trans [OF w2 u(1)] by simp
  have ready3: "ready ?s3 2 ?t3" using fork(3) [of True] by (simp add: ready_def)
  have nobody: "wait_returns ?s3 2 (predecessor (gp ?t3))"
    using over1 by (simp add: section_over_def starting_def wait_for_nobody)
  have store: "cur ?t3 = Store cell 7 Return" by simp
  from store_section [OF ready3 sample_aligned live_live_view store cell_in_heap ends_section_simps(5) nobody, of True]
  obtain s4 t4 where s4: "within 19 ?R ?s3 s4" "reaped s4 = collect ?s3 2 (predecessor (gp ?t3))"
      "vm_find (global_page_version (shd s4)) (page_of cell)
        = Some (version_of (global_page_version (shd ?s3)) (page_of cell) + 1)"
      and over4: "section_over sample_heap ?s3 2 ?t3 Return ((heap_view sample_heap (shd ?s3))(cell := 7)) s4 t4"
    by blast
  let ?s5 = "set_proc 2 (t4\<lparr>alive := False\<rparr>) s4"
  have w5: "within 39 ?R ?s0 ?s5"
    using within_next [where R = ?R, OF within_trans [OF w3 s4(1)] exit_step [OF over4]] by simp
  have p5: "procs ?s5 1 = Some u" "procs ?s5 2 = Some (t4\<lparr>alive := False\<rparr>)" "parent t4 = 1" "reaped ?s5 = {}"
    using over4 s4(2) s1(3) by (simp_all add: section_over_def collect_def starting_def)
  then have "wait_returns ?s5 1 (predecessor (gp u))"
    using u(4) by (simp add: wait_returns_def waitpid_def WaitExited_def)
  from sys_step.waited [OF p5(1) u(3,2) this, of True sample_heap live_view]
  obtain s6 where s6: "?R ?s5 s6" "procs s6 1 = Some (u\<lparr>pc := Commit_Lock\<rparr>)" "shd s6 = shd s4"
    by auto
  have free6: "mutex (shd s6) = None" using over4 s6(3) by (simp add: section_over_def)
  have "tstep sample_heap live_view 1 (u\<lparr>pc := Commit_Lock\<rparr>, shd s6) (u\<lparr>pc := Check\<rparr>, lock 1 (shd s6))"
    using tstep.commit_lock [of "u\<lparr>pc := Commit_Lock\<rparr>" "shd s6"] free6 by simp
  from sys_step.thread [OF s6(2) _ this, of True] u(3)
  obtain s7 where s7: "?R s6 s7" "procs s7 1 = Some (u\<lparr>pc := Check\<rparr>)" "shd s7 = lock 1 (shd s6)"
    by auto
  have w7: "within 41 ?R ?s0 s7"
    using within_next [where R = ?R, OF within_next [where R = ?R, OF w5 s6(1)] s7(1)] by simp
  obtain n where "n \<le> 41" "sys_run True sample_heap live_view ?s0 n s7" using reachable_bounded [OF w7] by auto
  moreover have "\<not> IsHeapConsistent (shd s7) (gp u)"
  proof -
    have "(page_of cell, version_of (global_page_version (shd ?s2)) (page_of cell)) \<in> set (read_set_version (gp u))"
      using u(5) by (rule map_of_SomeD)
    moreover have "vm_find (global_page_version (shd s7)) (page_of cell)
        = Some (version_of (global_page_version (shd ?s2)) (page_of cell) + 1)"
      using s4(3) s6(3) s7(3) by simp
    ultimately show ?thesis by (force simp: IsHeapConsistent_def consistent_loop_iff)
  qed
  ultimately show ?thesis using s7(2) u(3) by (intro exI [of _ n] conjI exI [of _ s7]) simp_all
qed

theorem rollback_blames_commit_witness:
  "\<exists>n s t page v w. sys_run True sample_heap live_view (starting racing) n s \<and> procs s 1 = Some t
    \<and> vm_find (read_set_version (gp t)) page = Some v
    \<and> vm_find (global_page_version (shd s)) page = Some w \<and> unat v < unat w"
proof -
  obtain n s t where run: "sys_run True sample_heap live_view (starting racing) n s" "procs s 1 = Some t"
      "pc t = Check" "\<not> IsHeapConsistent (shd s) (gp t)"
    using race_run by blast
  from rollback_blames_commit [OF starting_initial sample_aligned run] run(1,2) show ?thesis by blast
qed

section \<open>Waiting for ever\<close>

text \<open>
  Process \<open>p\<close> waits for its child \<open>b\<close>, which waits for its predecessor \<open>a\<close>, which has exited
  but which its parent \<open>p\<close> has not collected.
\<close>

definition waits_for :: "thread \<Rightarrow> pid_t \<Rightarrow> bool" where
  "waits_for t j \<longleftrightarrow> pc t = Wait \<and> predecessor (gp t) = j \<or> pc t = Join_Wait \<and> (\<exists>c. cur t = Await j c)"

definition stuck :: "sys \<Rightarrow> pid_t \<Rightarrow> pid_t \<Rightarrow> pid_t \<Rightarrow> bool" where
  "stuck s p a b \<longleftrightarrow> p \<noteq> b \<and> a \<noteq> 0 \<and> b \<noteq> 0
     \<and> (\<exists>tp. procs s p = Some tp \<and> alive tp \<and> waits_for tp b)
     \<and> (\<exists>tb. procs s b = Some tb \<and> alive tb \<and> parent tb = p \<and> waits_for tb a)
     \<and> (\<exists>ta. procs s a = Some ta \<and> \<not> alive ta \<and> parent ta = p)
     \<and> a \<notin> reaped s \<and> b \<notin> reaped s"

lemma no_tstep_waiting:
  assumes "tstep G vp i (t, sh) (t', sh')" and "waits_for t j"
  shows False
  using assms by (auto simp: waits_for_def elim!: tstep_elim)

lemma stuck_waits:
  assumes "stuck s p a b"
  shows "\<not> wait_returns s p b" and "\<not> wait_returns s b a"
    and "i \<noteq> p \<Longrightarrow> collect s i j \<subseteq> insert j (reaped s) - {a, b}"
  using assms
  by (auto simp: stuck_def wait_returns_def waitpid_def kill0_def WaitExited_def ECHILD_def collect_def
      split: if_splits option.splits)

lemma waiting_outside:
  assumes "stuck s p a b" and "procs s i = Some t" and "alive t" and "\<not> waits_for t b" and "\<not> waits_for t a"
  shows "i \<noteq> p" and "i \<noteq> a" and "i \<noteq> b"
  using assms by (auto simp: stuck_def)

text \<open>Changing another process and collecting others leaves the three stuck.\<close>

lemma stuck_frame:
  assumes "stuck s p a b" and "procs s' p = procs s p" and "procs s' a = procs s a"
    and "procs s' b = procs s b" and "a \<notin> reaped s'" and "b \<notin> reaped s'"
  shows "stuck s' p a b"
  using assms by (simp add: stuck_def)

lemma stuck_step:
  assumes "stuck s p a b" and "sys_step no_order G vp s s'"
  shows "stuck s' p a b"
  using assms(2)
proof (cases rule: sys_step.cases)
  case (thread i t t' sh')
  have "i \<noteq> p" "i \<noteq> a" "i \<noteq> b"
    using waiting_outside [OF assms(1) thread(2,3)] no_tstep_waiting [OF thread(4)] by blast+
  then show ?thesis using assms(1) thread(1) by (intro stuck_frame [OF assms(1)]) (auto simp: stuck_def)
next
  case (waited i t)
  have "i \<noteq> p" "i \<noteq> b"
    using waited(2,4,5) stuck_waits(1,2) [OF assms(1)] assms(1) by (auto simp: stuck_def waits_for_def)
  moreover from this have "i \<noteq> a" using assms(1) waited(2,3) by (auto simp: stuck_def)
  ultimately show ?thesis
    using waited(1) stuck_waits(3) [OF assms(1), of i "predecessor (gp t)"]
    by (intro stuck_frame [OF assms(1)]) auto
next
  case (forked i t c k j)
  have "i \<noteq> p" "i \<noteq> a" "i \<noteq> b"
    using waiting_outside [OF assms(1) forked(2,3)] forked(4) by (auto simp: waits_for_def)
  moreover have "j \<noteq> p" "j \<noteq> a" "j \<noteq> b" using assms(1) forked(7) by (auto simp: stuck_def)
  ultimately show ?thesis
    using assms(1) forked(1) by (intro stuck_frame [OF assms(1)]) (auto simp: stuck_def)
next
  case (joined i t j c)
  have "i \<noteq> p" "i \<noteq> b"
    using joined(2,4,5,6) stuck_waits(1,2) [OF assms(1)] assms(1) by (auto simp: stuck_def waits_for_def)
  moreover from this have "i \<noteq> a" using assms(1) joined(2,3) by (auto simp: stuck_def)
  ultimately show ?thesis
    using joined(1) stuck_waits(3) [OF assms(1), of i j]
    by (intro stuck_frame [OF assms(1)]) auto
next
  case (adopted i t)
  have "i \<noteq> a" "i \<noteq> b" using assms(1) adopted(2-4) by (auto simp: stuck_def)
  then show ?thesis using assms(1) adopted(1) by (intro stuck_frame [OF assms(1)]) (auto simp: stuck_def)
qed

text \<open>
  C21: The deadlock of the ordered mode. A process that waits for its child, while the child
  waits for an older sibling that has exited and that their parent has not collected, waits for
  ever: \<open>kill(pid, 0)\<close> succeeds on an exited process until its parent collects it. No steps of
  the system, short of a process being killed, let one of the two go on. The state arises when a
  program creates two threads without touching the heap in between (so that the parent does not
  wait for the first one) and then joins the second.
\<close>

theorem ordered_mode_deadlock:
  assumes "stuck s p a b" and "(sys_step no_order G vp)\<^sup>*\<^sup>* s s'"
  shows "stuck s' p a b \<and> \<not> wait_returns s' p b \<and> \<not> wait_returns s' b a"
proof -
  have "stuck s' p a b"
    using assms(2,1) by (induction rule: rtranclp_induct) (auto intro: stuck_step)
  then show ?thesis using stuck_waits by blast
qed

definition ordered_main :: prog where
  "ordered_main = Spawn Return (\<lambda>i. Spawn (Load cell (\<lambda>_. Return)) (\<lambda>j. Await j Return))"

lemma still_ready:
  assumes "ready s j u" and "section_over G s i t d m s' t'" and "i \<noteq> j"
  shows "ready s' j u"
  using assms by (simp add: ready_def section_over_def)

lemma idle_run:
  assumes "ready s i t" and "cur t = d" and "ends_section d" and "reaped s = {}"
  shows "\<exists>s' t' m. (sys_step no_order sample_heap live_view)\<^sup>*\<^sup>* s s' \<and> reaped s' = {}
    \<and> section_over sample_heap s i t d m s' t'"
  using idle_section [OF assms(1) sample_aligned live_live_view, of no_order] assms(2-4) within_rtranclp by metis

lemma deadlock_run:
  "\<exists>s. (sys_step False sample_heap live_view)\<^sup>*\<^sup>* (starting ordered_main) s \<and> stuck s 1 2 3"
proof -
  let ?R = "sys_step False sample_heap live_view" and ?s0 = "starting ordered_main"
  let ?old = "Return" and ?young = "Load cell (\<lambda>_. Return)"
  let ?rest = "\<lambda>i :: pid_t. Spawn ?young (\<lambda>j. Await j Return)"
  have two: "(2 :: pid_t) \<noteq> 0" and three: "(3 :: pid_t) \<noteq> 0" by simp_all
  have main: "cur (first_process ordered_main) = Spawn ?old ?rest" "reaped ?s0 = {}"
    by (simp_all add: ordered_main_def starting_def)
  obtain s1 t1 m1 where s1: "?R\<^sup>*\<^sup>* ?s0 s1" "reaped s1 = {}"
      and over1: "section_over sample_heap ?s0 1 (first_process ordered_main) (Spawn ?old ?rest) m1 s1 t1"
    using idle_run [OF starting_ready main(1) _ main(2), of False] by auto
  have "procs s1 2 = None" using over1 by (simp add: section_over_def starting_def)
  note fork1 = fork_ready [where no_order = False, OF over1 two this]
  let ?p2 = "parent_thread 2 (?rest 2) t1" and ?c2 = "child_thread False 1 2 ?old t1"
  let ?s2 = "set_proc 1 ?p2 (set_proc 2 ?c2 s1)"
  obtain s3 t3 m3 where s3: "?R\<^sup>*\<^sup>* ?s2 s3" "reaped s3 = {}"
      and over3: "section_over sample_heap ?s2 2 ?c2 Return m3 s3 t3"
    using idle_run [where d = Return and no_order = False, OF fork1(3)] s1(2) by auto
  let ?s4 = "set_proc 2 (t3\<lparr>alive := False\<rparr>) s3"
  have ready4: "ready ?s4 1 ?p2"
    using still_ready [OF fork1(2) over3] by (simp add: ready_def)
  obtain s5 t5 m5 where s5: "?R\<^sup>*\<^sup>* ?s4 s5" "reaped s5 = {}"
      and over5: "section_over sample_heap ?s4 1 ?p2 (Spawn ?young (\<lambda>j. Await j Return)) m5 s5 t5"
    using idle_run [where d = "?rest 2" and no_order = False, OF ready4] s3(2) by auto
  have "procs s5 3 = None" using over1 over3 over5 by (simp add: section_over_def starting_def)
  note fork5 = fork_ready [where no_order = False, OF over5 three this]
  let ?p6 = "parent_thread 3 (Await 3 Return) t5" and ?c6 = "child_thread False 1 3 ?young t5"
  let ?s6 = "set_proc 1 ?p6 (set_proc 3 ?c6 s5)"
  obtain s7 t7 m7 where s7: "?R\<^sup>*\<^sup>* ?s6 s7" "reaped s7 = {}"
      and over7: "section_over sample_heap ?s6 1 ?p6 (Await 3 Return) m7 s7 t7"
    using idle_run [where d = "Await 3 Return" and no_order = False, OF fork5(2)] s5(2) by auto
  let ?t8 = "t7\<lparr>pc := Join_Wait\<rparr>"
  let ?s8 = "set_proc 1 ?t8 s7"
  have t7: "procs s7 1 = Some t7" "alive t7" "pc t7 = After" "cur t7 = Await 3 Return"
    using over7 by (simp_all add: section_over_def)
  have step8: "?R s7 ?s8"
    using sys_step.thread [OF t7(1,2) tstep.join [OF t7(3,4)], of False sample_heap live_view] by simp
  have ready8: "ready ?s8 3 ?c6" using still_ready [OF fork5(3) over7] by (simp add: ready_def)
  have young: "cur ?c6 = Load cell (\<lambda>_. Return)" by simp
  obtain u where u: "within 10 ?R ?s8 (moved 3 (u, shd ?s8) ?s8)" "pc u = Wait" "alive u"
      "parent u = 1" "predecessor (gp u) = 2"
    using load_waits [OF ready8 sample_aligned live_live_view young cell_in_heap, of False] over5
    by (auto simp: section_over_def)
  have "?R\<^sup>*\<^sup>* ?s0 (moved 3 (u, shd ?s8) ?s8)"
    using s1(1) fork1(1) s3(1) exit_step [OF over3] s5(1) fork5(1) s7(1) step8 within_rtranclp [OF u(1)]
    by (meson rtranclp.rtrancl_into_rtrancl rtranclp_trans)
  moreover have "stuck (moved 3 (u, shd ?s8) ?s8) 1 2 3"
    using u over3 over5 over7 s7(2) t7 by (simp add: stuck_def waits_for_def section_over_def)
  ultimately show ?thesis by blast
qed

theorem ordered_mode_deadlock_witness:
  "\<exists>s. (sys_step False sample_heap live_view)\<^sup>*\<^sup>* (starting ordered_main) s
    \<and> (\<forall>s'. (sys_step False sample_heap live_view)\<^sup>*\<^sup>* s s' \<longrightarrow> \<not> wait_returns s' 1 3 \<and> \<not> wait_returns s' 3 2)"
  using deadlock_run ordered_mode_deadlock by metis

end
