(* ===== verification/Progress.thy ===== *)
theory Progress
  imports Scenarios
begin

text \<open>
  Progress of the running system. Who may move: no deadlock with \<open>NO_ORDER\<close> as long as nobody
  dies with the mutex and threads join their own threads only. What a process that dies with the
  mutex leaves behind. How many rollbacks there can be: each needs a commit of somebody else.
\<close>

section \<open>Who may move\<close>

text \<open>A step of a process itself, not its being killed or collected.\<close>

definition enabled :: "heap_globals \<Rightarrow> view_policy \<Rightarrow> sys \<Rightarrow> pid_t \<Rightarrow> bool" where
  "enabled G vp s i \<longleftrightarrow> (\<exists>t. procs s i = Some t \<and> alive t \<and>
     ((\<exists>d. tstep G vp i (t, shd s) d)
      \<or> (pc t = Wait \<and> wait_returns s i (predecessor (gp t)))
      \<or> (\<exists>c k. pc t = After \<and> cur t = Spawn c k)
      \<or> (\<exists>j c. pc t = Join_Wait \<and> cur t = Await j c \<and> wait_returns s i j)))"

text \<open>Processes that wait for ever by what their own program asks for, or are about to die.\<close>

definition stray :: "heap_globals \<Rightarrow> thread \<Rightarrow> bool" where
  "stray G t \<longleftrightarrow> pc t = Body
     \<and> ((\<exists>a k. cur t = Load a k \<and> \<not> in_heap G a) \<or> (\<exists>a v c. cur t = Store a v c \<and> \<not> in_heap G a))"

definition joins_stranger :: "sys \<Rightarrow> pid_t \<Rightarrow> thread \<Rightarrow> bool" where
  "joins_stranger s i t \<longleftrightarrow> pc t = Join_Wait
     \<and> (\<exists>j c u. cur t = Await j c \<and> procs s j = Some u \<and> parent u \<noteq> i)"

lemma enabled_steps:
  assumes "enabled G vp s i" and "finite (dom (procs s))"
  shows "\<exists>s'. sys_step no_order G vp s s'"
proof -
  obtain t where t: "procs s i = Some t" "alive t" and cases: "(\<exists>d. tstep G vp i (t, shd s) d)
      \<or> (pc t = Wait \<and> wait_returns s i (predecessor (gp t)))
      \<or> (\<exists>c k. pc t = After \<and> cur t = Spawn c k)
      \<or> (\<exists>j c. pc t = Join_Wait \<and> cur t = Await j c \<and> wait_returns s i j)"
    using assms(1) unfolding enabled_def by blast
  obtain j where "j \<notin> insert 0 (dom (procs s))"
    using ex_new_if_finite [OF infinite_UNIV_nat, of "insert 0 (dom (procs s))"] assms(2) by blast
  then have j: "j \<noteq> 0" "procs s j = None" by (simp_all add: domIff)
  from cases show ?thesis
  proof (elim disjE exE conjE)
    fix d assume "tstep G vp i (t, shd s) d"
    then show ?thesis using sys_step.thread [OF t] by (cases d) blast
  next
    assume "pc t = Wait" "wait_returns s i (predecessor (gp t))"
    then show ?thesis using sys_step.waited [OF t] by blast
  next
    fix c k assume "pc t = After" "cur t = Spawn c k"
    then show ?thesis using sys_step.forked [OF t _ _ j] by blast
  next
    fix k c assume "pc t = Join_Wait" "cur t = Await k c" "wait_returns s i k"
    then show ?thesis using sys_step.joined [OF t] by blast
  qed
qed

section \<open>The holder of the mutex\<close>

text \<open>The converse of mutual exclusion: a taken mutex has been taken by a process at such a point.\<close>

definition holder_inv :: "sys \<Rightarrow> bool" where
  "holder_inv s \<longleftrightarrow> (\<forall>i. mutex (shd s) = Some i \<longrightarrow> (\<exists>t. procs s i = Some t \<and> holds (pc t)))"

lemma tstep_holder:
  assumes "tstep G vp i (t, sh) (t', sh')" and "mutex sh' = Some j" and "mutex sh = Some i \<Longrightarrow> holds (pc t)"
  shows "(j = i \<and> holds (pc t')) \<or> (j \<noteq> i \<and> mutex sh = Some j)"
  using assms by (cases rule: tstep.cases) (auto split: if_splits)

lemma holder_inv_step:
  assumes "holder_inv s" and "counted_step no_order G vp (n, s) (n', s')"
  shows "holder_inv s'"
proof -
  have holder: "\<And>i t. mutex (shd s) = Some i \<Longrightarrow> procs s i = Some t \<Longrightarrow> holds (pc t)"
    using assms(1) unfolding holder_inv_def by fastforce
  consider "sys_step no_order G vp s s'" | "dies s s'"
    using assms(2) by (auto simp: counted_step_def)
  then show ?thesis
  proof cases
    case 1
    then show ?thesis
    proof (cases rule: sys_step.cases)
      case (thread i t t' sh')
      have "\<exists>u. procs s' j = Some u \<and> holds (pc u)" if "mutex sh' = Some j" for j
        using tstep_holder [OF thread(4) that holder [OF _ thread(2)]] assms(1) thread(1)
        by (auto simp: holder_inv_def)
      with thread(1) show ?thesis by (simp add: holder_inv_def)
    next
      case (waited i t)
      with holder [OF _ waited(2)] assms(1) show ?thesis by (auto simp: holder_inv_def)
    next
      case (forked i t c k j)
      with holder [OF _ forked(2)] assms(1) show ?thesis by (force simp: holder_inv_def)
    next
      case (joined i t j c)
      with holder [OF _ joined(2)] assms(1) show ?thesis by (auto simp: holder_inv_def)
    next
      case (adopted i t)
      with assms(1) show ?thesis by (simp add: holder_inv_def)
    qed
  next
    case 2
    then show ?thesis
    proof (cases rule: dies.cases)
      case (dies i t)
      with holder [OF _ dies(2)] assms(1) show ?thesis by (auto simp: holder_inv_def)
    qed
  qed
qed

section \<open>The family tree\<close>

text \<open>
  Parents are older than their children, so there is a live process without live children; and
  with \<open>NO_ORDER\<close> a process waits for its own children only.
\<close>

definition family :: "sys \<Rightarrow> bool" where
  "family s \<longleftrightarrow> finite (dom (procs s)) \<and> procs s 0 = None
     \<and> (\<exists>age :: pid_t \<Rightarrow> nat. \<forall>i t. procs s i = Some t \<longrightarrow>
          parent t = 0 \<or> (procs s (parent t) \<noteq> None \<and> age (parent t) < age i))
     \<and> (\<forall>i t. procs s i = Some t \<longrightarrow> predecessor (gp t) = 0
          \<or> (\<exists>u. procs s (predecessor (gp t)) = Some u \<and> parent u = i))"

lemma fault_ids:
  "SegfaultHandler G ok a p = Inr p' \<Longrightarrow> predecessor p' = predecessor p"
  by (erule SegfaultHandler_Inr) (auto simp: handler_simps)

lemma tstep_ids:
  assumes "tstep G vp i (t, sh) (t', sh')"
  shows "parent t' = parent t" "predecessor (gp t') = predecessor (gp t)"
  using assms
  by (cases rule: tstep.cases;
    simp add: fault_ids UpdateHeap_Inr discard_copies_def store_def Let_def)+

lemma familyI:
  assumes "finite (dom (procs s))" and "procs s 0 = None"
    and "\<And>i t. procs s i = Some t \<Longrightarrow> parent t = 0 \<or> (procs s (parent t) \<noteq> None \<and> age (parent t) < (age i :: nat))"
    and "\<And>i t. procs s i = Some t \<Longrightarrow> predecessor (gp t) = 0
      \<or> (\<exists>u. procs s (predecessor (gp t)) = Some u \<and> parent u = i)"
  shows "family s"
  using assms unfolding family_def by blast

lemma familyE:
  assumes "family s"
  obtains age :: "pid_t \<Rightarrow> nat" where "finite (dom (procs s))" and "procs s 0 = None"
    and "\<And>i t. procs s i = Some t \<Longrightarrow> parent t = 0 \<or> (procs s (parent t) \<noteq> None \<and> age (parent t) < age i)"
    and "\<And>i t. procs s i = Some t \<Longrightarrow> predecessor (gp t) = 0
      \<or> (\<exists>u. procs s (predecessor (gp t)) = Some u \<and> parent u = i)"
  using assms unfolding family_def by blast

lemma family_waits:
  "family s \<Longrightarrow> procs s i = Some t \<Longrightarrow> procs s (predecessor (gp t)) = Some u \<Longrightarrow> parent u = i"
  by (erule familyE) (metis option.distinct(1) option.inject)

lemma family_set:
  assumes "family s" and "procs s i = Some t" and "procs s' = (procs s)(i \<mapsto> t')"
    and "parent t' = parent t" and "predecessor (gp t') = predecessor (gp t)"
  shows "family s'"
  using assms(1)
proof (rule familyE)
  fix age :: "pid_t \<Rightarrow> nat"
  assume inv: "finite (dom (procs s))" "procs s 0 = None"
    "\<And>i t. procs s i = Some t \<Longrightarrow> parent t = 0 \<or> (procs s (parent t) \<noteq> None \<and> age (parent t) < age i)"
    "\<And>i t. procs s i = Some t \<Longrightarrow> predecessor (gp t) = 0
      \<or> (\<exists>u. procs s (predecessor (gp t)) = Some u \<and> parent u = i)"
  show ?thesis
  proof (rule familyI [of s' age])
    have "i \<noteq> 0" using inv(2) assms(2) by (cases "i = 0") auto
    then show "finite (dom (procs s'))" "procs s' 0 = None" using inv(1,2) assms(3) by auto
    show "parent u = 0 \<or> (procs s' (parent u) \<noteq> None \<and> age (parent u) < age j)"
      if "procs s' j = Some u" for j u
      using that inv(3) [of j] inv(3) [OF assms(2)] assms(3,4) by (auto split: if_splits)
    show "predecessor (gp u) = 0 \<or> (\<exists>v. procs s' (predecessor (gp u)) = Some v \<and> parent v = j)"
      if "procs s' j = Some u" for j u
      using that inv(4) [of j] inv(4) [OF assms(2)] assms(2-5) by (auto split: if_splits)
  qed
qed

lemma family_fork:
  assumes "family s" and "procs s i = Some t" and "procs s j = None" and "j \<noteq> 0"
    and "procs s' = (procs s)(j \<mapsto> u, i \<mapsto> t')" and "parent t' = parent t" and "parent u = i"
    and "predecessor (gp t') = j" and "predecessor (gp u) = 0"
  shows "family s'"
  using assms(1)
proof (rule familyE)
  fix age :: "pid_t \<Rightarrow> nat"
  assume inv: "finite (dom (procs s))" "procs s 0 = None"
    "\<And>i t. procs s i = Some t \<Longrightarrow> parent t = 0 \<or> (procs s (parent t) \<noteq> None \<and> age (parent t) < age i)"
    "\<And>i t. procs s i = Some t \<Longrightarrow> predecessor (gp t) = 0
      \<or> (\<exists>u. procs s (predecessor (gp t)) = Some u \<and> parent u = i)"
  have neq: "i \<noteq> j" "i \<noteq> 0" using assms(2,3) inv(2) by (auto, cases "i = 0") auto
  show ?thesis
  proof (rule familyI [of s' "age(j := Suc (age i))"])
    show "finite (dom (procs s'))" "procs s' 0 = None" using inv(1,2) assms(2,4,5) neq by auto
    show "parent v = 0 \<or> (procs s' (parent v) \<noteq> None \<and> (age(j := Suc (age i))) (parent v) < (age(j := Suc (age i))) k)"
      if new: "procs s' k = Some v" for k v
    proof (cases "k = j")
      case True
      then show ?thesis using new assms(2,5,7) neq by auto
    next
      case False
      then obtain w where "procs s k = Some w" "parent v = parent w"
        using new assms(2,5,6) by (auto split: if_splits)
      then show ?thesis using inv(3) [of k w] assms(3,5) False by auto
    qed
    show "predecessor (gp v) = 0 \<or> (\<exists>w. procs s' (predecessor (gp v)) = Some w \<and> parent w = k)"
      if "procs s' k = Some v" for k v
    proof (cases "k = i \<or> k = j")
      case True
      then show ?thesis using that assms(5,7-9) neq by (auto split: if_splits)
    next
      case False
      then have "procs s k = Some v" using that assms(5) by simp
      from inv(4) [OF this] show ?thesis using assms(2,3,5,6) by (auto split: if_splits)
    qed
  qed
qed

lemma family_step:
  assumes "family s" and "counted_step True G vp (n, s) (n', s')"
  shows "family s'"
proof -
  consider "sys_step True G vp s s'" | "dies s s'" using assms(2) by (auto simp: counted_step_def)
  then show ?thesis
  proof cases
    case 1
    then show ?thesis
    proof (cases rule: sys_step.cases)
      case (thread i t t' sh')
      then show ?thesis using family_set [OF assms(1) thread(2), of s' t'] tstep_ids [OF thread(4)] by simp
    next
      case (waited i t)
      then show ?thesis using family_set [OF assms(1) waited(2), of s' "t\<lparr>pc := Commit_Lock\<rparr>"] by simp
    next
      case (forked i t c k j)
      then show ?thesis
        using family_fork [OF assms(1) forked(2,7,6), of s'
          "t\<lparr>gp := child_side True j (gp t), cur := c, pc := Save, parent := i\<rparr>"
          "t\<lparr>gp := parent_side j (gp t), cur := k j, pc := Save\<rparr>"]
        by (simp add: parent_side_def child_side_def Let_def)
    next
      case (joined i t j c)
      then show ?thesis using family_set [OF assms(1) joined(2), of s' "t\<lparr>cur := c, pc := Save\<rparr>"] by simp
    next
      case (adopted i t)
      with assms(1) show ?thesis by (simp add: family_def)
    qed
  next
    case 2
    then show ?thesis
    proof (cases rule: dies.cases)
      case (dies i t)
      then show ?thesis using family_set [OF assms(1) dies(2), of s' "t\<lparr>alive := False\<rparr>"] by simp
    qed
  qed
qed

section \<open>No deadlock\<close>

definition join_inv :: "sys \<Rightarrow> bool" where
  "join_inv s \<longleftrightarrow> (\<forall>i t. procs s i = Some t \<longrightarrow> pc t = Join_Wait \<longrightarrow> (\<exists>j c. cur t = Await j c))"

lemma tstep_joins:
  assumes "tstep G vp i (t, sh) (t', sh')" and "pc t' = Join_Wait"
  shows "\<exists>j c. cur t' = Await j c"
  using assms by (cases rule: tstep.cases) auto

lemma join_inv_step:
  assumes "join_inv s" and "counted_step no_order G vp (n, s) (n', s')"
  shows "join_inv s'"
proof -
  consider "sys_step no_order G vp s s'" | "dies s s'"
    using assms(2) by (auto simp: counted_step_def)
  then show ?thesis
  proof cases
    case 1
    then show ?thesis
    proof (cases rule: sys_step.cases)
      case (thread i t t' sh')
      then show ?thesis using assms(1) tstep_joins [OF thread(4)] by (simp add: join_inv_def)
    qed (use assms(1) in \<open>simp_all add: join_inv_def\<close>)
  next
    case 2
    then show ?thesis using assms(1) by (cases rule: dies.cases) (simp add: join_inv_def)
  qed
qed

definition progress_inv :: "heap_globals \<Rightarrow> nat \<times> sys \<Rightarrow> bool" where
  "progress_inv G c \<longleftrightarrow> sys_inv G c \<and> holder_inv (snd c) \<and> family (snd c) \<and> join_inv (snd c)"

interpretation progress: invariant "counted_step True G vp" "progress_inv G"
proof
  fix c c' :: "nat \<times> sys" assume "progress_inv G c" "counted_step True G vp c c'"
  then show "progress_inv G c'"
    using sys_inv_step holder_inv_step family_step join_inv_step
    unfolding progress_inv_def by (cases c, cases c') (metis snd_conv)
qed

lemma initial_progress:
  assumes "initial c s" and "heap_aligned G" and "\<forall>i t. procs s i = Some t \<longrightarrow> predecessor (gp t) = 0"
  shows "progress_inv G (0, s)"
proof -
  obtain i t where s: "procs s = [i \<mapsto> t]" "i \<noteq> 0" "parent t = 0" "mutex (shd s) = None"
    using assms(1) by (auto simp: initial_def)
  have "family s" using s assms(3) by (intro familyI [of s "\<lambda>i. i"]) (auto split: if_splits)
  then show ?thesis
    using s(4) assms(1) initial_inv [OF assms(1,2)]
    by (auto simp: progress_inv_def holder_inv_def join_inv_def initial_def split: if_splits)
qed

text \<open>What a process at each point of its code needs in order to move.\<close>

lemma body_enabled:
  assumes "procs s i = Some t" and "alive t" and "pc t = Body" and "heap_aligned G"
  shows "enabled G vp s i \<or> stray G t"
proof -
  have "\<exists>d. tstep G vp i (t, shd s) d" if ok: "\<not> stray G t"
  proof (cases "faults G (gp t) (cur t)")
    case (Some a)
    then have "in_heap G a" by (auto simp: faults_def split: prog.splits if_splits)
    from SegfaultHandler_in_heap [OF assms(4) this, of "gp t"]
    obtain p where "SegfaultHandler G True a (gp t) = Inr p"
      by (auto simp: HandleReads_eq HandleWrites_eq require_def split: if_splits)
    from tstep.fault [OF assms(3) Some this] show ?thesis by blast
  next
    case None
    show ?thesis
    proof (cases "cur t")
      case (Load a k)
      then have "in_heap G a" using ok assms(3) by (auto simp: stray_def)
      from tstep.load [OF assms(3) Load this None] show ?thesis by blast
    next
      case (Store a v c)
      then have "in_heap G a" using ok assms(3) by (auto simp: stray_def)
      from tstep.store [OF assms(3) Store this None] show ?thesis by blast
    next
      case Quit
      from tstep.quit [OF assms(3) Quit] show ?thesis by blast
    qed (use tstep.section_end [OF assms(3)] in \<open>auto, blast+\<close>)
  qed
  then show ?thesis using assms(1,2) by (auto simp: enabled_def)
qed

lemma holder_enabled:
  assumes "procs s i = Some t" and "alive t" and "holds (pc t)"
  shows "enabled G vp s i"
proof -
  have "\<exists>d. tstep G vp i (t, shd s) d"
    using assms(3)
  proof (cases "pc t")
    case (Committing es)
    then show ?thesis
    proof (cases es)
      case Nil
      have "\<exists>p. UpdateHeap G True (local_heap G) (shd s) (gp t) = Inr p" by (simp add: UpdateHeap_Inr)
      then show ?thesis using Committing Nil tstep.update by blast
    next
      case (Cons e es')
      then show ?thesis using Committing tstep.copied by blast
    qed
  next
    case Check
    then show ?thesis using tstep.consistent tstep.inconsistent by blast
  qed (auto intro: tstep.copy tstep.unlock tstep.unlock_committed tstep.unlock_failed)
  then show ?thesis using assms(1,2) by (auto simp: enabled_def)
qed

text \<open>The points at which a process waits for somebody else.\<close>

lemma blocked_at:
  assumes "procs s i = Some t" and "alive t" and "\<not> enabled G vp s i" and "heap_aligned G"
    and "behind_section (pc t) \<longrightarrow> ends_section (cur t)"
  shows "stray G t \<or> (pc t \<in> {Lock, Commit_Lock} \<and> mutex (shd s) \<noteq> None)
    \<or> (pc t = Wait \<and> \<not> wait_returns s i (predecessor (gp t)))
    \<or> (pc t = Join_Wait \<and> (\<forall>j c. cur t = Await j c \<longrightarrow> \<not> wait_returns s i j))"
proof -
  have stuck: "\<not> tstep G vp i (t, shd s) d" for d
    using assms(1-3) unfolding enabled_def by blast
  have locked: "mutex (shd s) \<noteq> None" if "pc t \<in> {Lock, Commit_Lock}"
    using that stuck tstep.lock [of t "shd s" G vp i] tstep.commit_lock [of t "shd s" G vp i] by auto
  show ?thesis
  proof (cases "pc t")
    case Body
    then show ?thesis using body_enabled [OF assms(1,2) _ assms(4)] assms(3) by blast
  next
    case Entry
    have "\<exists>p. UpdateHeap G True (local_heap G) (shd s) (gp t) = Inr p" by (simp add: UpdateHeap_Inr)
    then show ?thesis using Entry stuck tstep.untouched tstep.touched by blast
  next
    case After
    then have "ends_section (cur t)" using assms(5) by (simp add: behind_section_def)
    moreover have "cur t \<noteq> Spawn c k" for c k using After assms(1-3) by (auto simp: enabled_def)
    moreover have "cur t \<noteq> Await j c" for j c using stuck tstep.join [OF After] by blast
    moreover have "cur t \<noteq> Return" using stuck tstep.exit [OF After] by blast
    ultimately show ?thesis by (cases "cur t") auto
  next
    case Wait
    then show ?thesis using assms(1-3) by (auto simp: enabled_def)
  next
    case Join_Wait
    then show ?thesis using assms(1-3) by (auto simp: enabled_def)
  next
    case Save
    then show ?thesis using stuck tstep.save by blast
  next
    case Clear
    then show ?thesis using stuck tstep.clear by blast
  next
    case Protect
    then show ?thesis using stuck tstep.protect by blast
  next
    case Abort_Section
    then show ?thesis using stuck tstep.abort by blast
  qed (use holder_enabled [OF assms(1,2)] assms(3) locked in simp_all)
qed

lemma waits_for_process:
  assumes "\<not> wait_returns s i j" and "procs s 0 = None"
  obtains u where "procs s j = Some u" and "alive u \<or> parent u \<noteq> i"
  using assms
  by (auto simp: wait_returns_def waitpid_def kill0_def WaitExited_def split: option.splits if_splits)

lemma family_youngest:
  assumes "family s" and "procs s i = Some t" and "alive t"
  obtains j u where "procs s j = Some u" and "alive u"
    and "\<And>k v. procs s k = Some v \<Longrightarrow> parent v = j \<Longrightarrow> \<not> alive v"
  using assms(1)
proof (rule familyE)
  fix age :: "pid_t \<Rightarrow> nat"
  assume inv: "finite (dom (procs s))" "procs s 0 = None"
    "\<And>i t. procs s i = Some t \<Longrightarrow> parent t = 0 \<or> (procs s (parent t) \<noteq> None \<and> age (parent t) < age i)"
  let ?living = "{j. \<exists>u. procs s j = Some u \<and> alive u}"
  have "finite ?living" by (rule finite_subset [OF _ inv(1)]) auto
  moreover have "i \<in> ?living" using assms(2,3) by blast
  ultimately have "Max (age ` ?living) \<in> age ` ?living" by (intro Max_in) auto
  then obtain j where "j \<in> ?living" "age j = Max (age ` ?living)" by (metis (no_types, lifting) imageE)
  with \<open>finite ?living\<close> have j: "j \<in> ?living" "\<forall>k\<in>?living. age k \<le> age j" by simp_all
  have "\<not> alive v" if "procs s k = Some v" "parent v = j" for k v
    using j inv(2) inv(3) [OF that(1)] that by fastforce
  with j that show ?thesis by blast
qed

text \<open>
  C6: No deadlock. With \<open>NO_ORDER\<close> defined, in every reachable state with a live process
  in which nobody has died with the mutex, some live process can make a step of its own, or is
  about to die of a stray access, or joins a process that is not its child.
\<close>

theorem deadlock_free:
  assumes "initial c s0" and "heap_aligned G" and "\<forall>i t. procs s0 i = Some t \<longrightarrow> predecessor (gp t) = 0"
    and "sys_run True G vp s0 n s" and "procs s i = Some t" and "alive t"
    and "\<forall>k u. mutex (shd s) = Some k \<longrightarrow> procs s k = Some u \<longrightarrow> alive u"
  shows "\<exists>j u. procs s j = Some u \<and> alive u \<and> (enabled G vp s j \<or> stray G u \<or> joins_stranger s j u)"
proof (rule ccontr)
  assume none: "\<not> ?thesis"
  have "progress_inv G (n, s)"
    using progress.reachable [OF assms(4) [unfolded sys_run_def] initial_progress [OF assms(1-3)]] .
  then have inv: "shape_inv G s" "holder_inv s" "family s" "join_inv s"
    by (simp_all add: progress_inv_def sys_inv_def)
  obtain j u where u: "procs s j = Some u" "alive u"
    and childless: "\<And>k v. procs s k = Some v \<Longrightarrow> parent v = j \<Longrightarrow> \<not> alive v"
    using family_youngest [OF inv(3) assms(5,6)] by blast
  have zero: "procs s 0 = None" using inv(3) by (rule familyE)
  have free: "mutex (shd s) = None"
  proof (rule ccontr)
    assume "mutex (shd s) \<noteq> None"
    then obtain k v where "mutex (shd s) = Some k" "procs s k = Some v" "holds (pc v)"
      using inv(2) by (auto simp: holder_inv_def)
    then show False using none assms(7) holder_enabled by blast
  qed
  have ends: "behind_section (pc u) \<longrightarrow> ends_section (cur u)"
    using inv(1) u(1) by (auto simp: shape_inv_def shape_def)
  have no: "\<not> enabled G vp s j" "\<not> stray G u" "\<not> joins_stranger s j u" using none u by blast+
  from blocked_at [OF u no(1) assms(2) ends] no(2) free
  consider "pc u = Wait" "\<not> wait_returns s j (predecessor (gp u))"
    | "pc u = Join_Wait" "\<forall>k c. cur u = Await k c \<longrightarrow> \<not> wait_returns s j k" by auto
  then show False
  proof cases
    case 1
    from waits_for_process [OF 1(2) zero] obtain v
      where v: "procs s (predecessor (gp u)) = Some v" "alive v \<or> parent v \<noteq> j" by blast
    moreover have "parent v = j" using family_waits [OF inv(3) u(1) v(1)] .
    ultimately show False using childless by blast
  next
    case 2
    then obtain k c where k: "cur u = Await k c" using inv(4) u(1) unfolding join_inv_def by blast
    with 2 have "\<not> wait_returns s j k" by blast
    then obtain v where v: "procs s k = Some v" "alive v \<or> parent v \<noteq> j"
      using zero by (rule waits_for_process)
    moreover have "parent v = j" using no(3) 2(1) k v(1) by (auto simp: joins_stranger_def)
    ultimately show False using childless by blast
  qed
qed

section \<open>A process that dies with the mutex\<close>

definition dead_holder :: "pid_t \<Rightarrow> shared \<Rightarrow> nat \<times> sys \<Rightarrow> bool" where
  "dead_holder i sh c \<longleftrightarrow> mutex_inv (snd c) \<and> shd (snd c) = sh \<and> mutex sh = Some i
     \<and> (\<exists>t. procs (snd c) i = Some t \<and> \<not> alive t)"

lemma tstep_outside:
  assumes "tstep G vp i (t, sh) (t', sh')" and "\<not> holds (pc t)" and "mutex sh \<noteq> None"
  shows "sh' = sh"
  using assms by (cases rule: tstep.cases) auto

lemma dead_holder_step:
  assumes "dead_holder i sh c" and "counted_step no_order G vp c c'"
  shows "dead_holder i sh c'"
proof -
  obtain n s n' s' where c: "c = (n, s)" "c' = (n', s')" by (cases c, cases c')
  obtain t where inv: "mutex_inv s" "shd s = sh" "mutex sh = Some i" and t: "procs s i = Some t" "\<not> alive t"
    using assms(1) by (auto simp: dead_holder_def c)
  have other: "j \<noteq> i" if "procs s j = Some u" "alive u" for j u using t that by auto
  consider "sys_step no_order G vp s s'" | "dies s s'"
    using assms(2) by (auto simp: counted_step_def c)
  then have "shd s' = sh \<and> procs s' i = Some t \<and> mutex_inv s'"
  proof cases
    case 1
    then have "mutex_inv s'" by (rule mutex_inv_step [OF inv(1)])
    from 1 show ?thesis
    proof (cases rule: sys_step.cases)
      case (thread j u u' sh')
      have "\<not> holds (pc u)"
        using mutex_holder [OF inv(1) thread(2)] inv(2,3) other [OF thread(2,3)] by auto
      then have "sh' = sh" using tstep_outside [OF thread(4)] inv(2,3) by simp
      with thread(1) t(1) other [OF thread(2,3)] \<open>mutex_inv s'\<close> show ?thesis by simp
    qed (use t(1) inv(2) other \<open>mutex_inv s'\<close> in \<open>auto simp del: not_Some_eq\<close>)
  next
    case 2
    then have "mutex_inv s'" by (rule mutex_inv_dies [OF inv(1)])
    from 2 show ?thesis
      by (cases rule: dies.cases) (use t(1) inv(2) other \<open>mutex_inv s'\<close> in auto)
  qed
  then show ?thesis using inv(3) t(2) by (simp add: dead_holder_def c)
qed

interpretation dead: invariant "counted_step no_order G vp" "dead_holder i sh"
  by unfold_locales (rule dead_holder_step)

text \<open>
  C7: The runtime is not lock-free. If a process dies while it owns the mutex, whatever the others
  do afterwards, the mutex stays taken, the shared heap, the page versions and the rollback
  counter stay as they are, and no other process takes part in a commit again.
\<close>

theorem dead_holder_blocks:
  assumes "initial c s0" and "heap_aligned G" and "sys_run no_order G vp s0 m s"
    and "procs s i = Some t" and "\<not> alive t" and "mutex (shd s) = Some i"
    and "(counted_step no_order G vp)\<^sup>*\<^sup>* (m, s) (n, s')"
  shows "shd s' = shd s \<and> (\<forall>j u. procs s' j = Some u \<longrightarrow> holds (pc u) \<longrightarrow> j = i)"
proof -
  have "dead_holder i (shd s) (m, s)"
    using run_inv(1) [OF assms(1-3)] assms(4-6) by (simp add: dead_holder_def)
  then have "dead_holder i (shd s) (n, s')" by (rule dead.reachable [OF assms(7)])
  then show ?thesis using mutex_holder by (fastforce simp: dead_holder_def)
qed

section \<open>How many rollbacks there can be\<close>

text \<open>
  A step in which a process finds its read set consistent and goes on to publish pages; a step in
  which it finds it inconsistent. \<open>tally\<close> counts both along a run, for each process.
\<close>

definition publishes :: "sys \<Rightarrow> sys \<Rightarrow> pid_t \<Rightarrow> bool" where
  "publishes s s' i \<longleftrightarrow> (\<exists>t t' e es. procs s i = Some t \<and> pc t = Check
     \<and> procs s' i = Some t' \<and> pc t' = Committing (e # es))"

definition rolls_back :: "sys \<Rightarrow> sys \<Rightarrow> pid_t \<Rightarrow> bool" where
  "rolls_back s s' i \<longleftrightarrow> (\<exists>t t'. procs s i = Some t \<and> pc t = Check
     \<and> procs s' i = Some t' \<and> pc t' = Unlock_Failed)"

inductive tally :: "bool \<Rightarrow> heap_globals \<Rightarrow> view_policy \<Rightarrow> sys \<Rightarrow> nat \<Rightarrow> (pid_t \<Rightarrow> nat) \<Rightarrow> (pid_t \<Rightarrow> nat) \<Rightarrow> sys \<Rightarrow> bool"
  for no_order G vp s0 where
  start: "tally no_order G vp s0 0 (\<lambda>i. 0) (\<lambda>i. 0) s0"
| step: "tally no_order G vp s0 n C R s \<Longrightarrow> counted_step no_order G vp (n, s) (Suc n, s') \<Longrightarrow>
    tally no_order G vp s0 (Suc n) (\<lambda>i. C i + of_bool (publishes s s' i)) (\<lambda>i. R i + of_bool (rolls_back s s' i)) s'"

lemma tally_run:
  assumes "sys_run no_order G vp s0 n s"
  shows "\<exists>C R. tally no_order G vp s0 n C R s"
proof -
  have "\<exists>C R. tally no_order G vp s0 (fst c) C R (snd c)"
    if "(counted_step no_order G vp)\<^sup>*\<^sup>* (0, s0) c" for c
    using that
  proof (induction rule: rtranclp_induct)
    case base
    show ?case by simp (intro exI, rule tally.start)
  next
    case (step c d)
    then obtain C R where "tally no_order G vp s0 (fst c) C R (snd c)" by blast
    moreover have d: "fst d = Suc (fst c)" using step(2) by (simp add: counted_step_def)
    then have "counted_step no_order G vp (fst c, snd c) (Suc (fst c), snd d)"
      using step(2) by (metis prod.collapse)
    ultimately show ?case unfolding d by (intro exI) (rule tally.step)
  qed
  then show ?thesis using assms unfolding sys_run_def by fastforce
qed

lemma run_tally: "tally no_order G vp s0 n C R s \<Longrightarrow> sys_run no_order G vp s0 n s"
  unfolding sys_run_def
  by (induction rule: tally.induct) (auto intro: rtranclp.rtrancl_into_rtrancl)

text \<open>Between taking its versions and being checked, a process is up to date or due for a rollback.\<close>

definition versioned :: "pc \<Rightarrow> bool" where
  "versioned c \<longleftrightarrow> c \<in> {Unlock, Protect} \<or> in_section c"

definition up_to_date :: "shared \<Rightarrow> thread \<Rightarrow> bool" where
  "up_to_date sh t \<longleftrightarrow> version_of (local_page_version (gp t)) = version_of (global_page_version sh)"

definition tallied :: "(pid_t \<Rightarrow> nat) \<Rightarrow> (pid_t \<Rightarrow> nat) \<Rightarrow> nat \<Rightarrow> sys \<Rightarrow> bool" where
  "tallied C R T s \<longleftrightarrow>
     (\<forall>i. R i + C i \<le> T)
     \<and> (\<forall>i t. procs s i = Some t \<longrightarrow> versioned (pc t) \<longrightarrow> R i + C i < T \<or> up_to_date (shd s) t)
     \<and> (\<forall>j u e es i t. procs s j = Some u \<longrightarrow> pc u = Committing (e # es) \<longrightarrow> i \<noteq> j \<longrightarrow>
          procs s i = Some t \<longrightarrow> versioned (pc t) \<longrightarrow> R i + C i < T)"

lemma tstep_versioned:
  assumes "tstep G vp i (t, sh) (t', sh')" and "versioned (pc t')" and "shape G t" and "vm_wf (global_page_version sh)"
  shows "(pc t = Copy_Versions \<and> up_to_date sh' t')
    \<or> (versioned (pc t) \<and> pc t' \<noteq> Unlock \<and> (up_to_date sh t \<longrightarrow> up_to_date sh' t'))"
  using assms(1)
proof (cases rule: tstep.cases)
  case copy
  then have "vm_find (local_page_version (gp t')) = vm_find (global_page_version sh)"
    using assms(3,4) by (simp add: copied_versions shape_def)
  with copy show ?thesis by (simp add: up_to_date_def version_of_def fun_eq_iff)
next
  case (fault a p')
  then show ?thesis by (simp add: versioned_def up_to_date_def pc_groups fault_versions)
qed (use assms(2) in \<open>auto simp: versioned_def up_to_date_def pc_groups\<close>)

lemma tstep_publishing:
  assumes "tstep G vp i (t, sh) (t', sh')"
  shows "global_page_version sh' = global_page_version sh \<or> (\<exists>e es. pc t = Committing (e # es))"
    and "pc t' = Committing (e # es) \<Longrightarrow> pc t = Check \<or> (\<exists>d ds. pc t = Committing (d # ds))"
    and "pc t = Check \<Longrightarrow> pc t' = Unlock_Failed \<Longrightarrow> \<not> IsHeapConsistent sh (gp t)"
  using assms by (cases rule: tstep.cases; auto)+

lemma talliedD:
  assumes "tallied C R T s"
  shows "R i + C i \<le> T"
    and "procs s i = Some t \<Longrightarrow> versioned (pc t) \<Longrightarrow> R i + C i < T \<or> up_to_date (shd s) t"
    and "procs s j = Some u \<Longrightarrow> pc u = Committing (e # es) \<Longrightarrow> i \<noteq> j \<Longrightarrow> procs s i = Some t \<Longrightarrow>
      versioned (pc t) \<Longrightarrow> R i + C i < T"
  using assms unfolding tallied_def by (blast, blast, blast)

lemma talliedI:
  assumes "\<And>i. R i + C i \<le> T"
    and "\<And>i t. procs s i = Some t \<Longrightarrow> versioned (pc t) \<Longrightarrow> R i + C i < T \<or> up_to_date (shd s) t"
    and "\<And>j u e es i t. procs s j = Some u \<Longrightarrow> pc u = Committing (e # es) \<Longrightarrow> i \<noteq> j \<Longrightarrow> procs s i = Some t \<Longrightarrow>
      versioned (pc t) \<Longrightarrow> R i + C i < T"
  shows "tallied C R T s"
  using assms unfolding tallied_def by blast

lemma not_versioned [simp]:
  "\<not> versioned Save" "\<not> versioned (Committing es)" "\<not> versioned Unlock_Failed" "\<not> versioned After"
  "versioned Check" "versioned Wait" "versioned Commit_Lock" "\<not> versioned Join_Wait"
  by (simp_all add: versioned_def pc_groups)

text \<open>Steps that neither change the shared state nor bring a process to where it counts.\<close>

lemma tallied_quiet:
  assumes "tallied C R T s" and "shd s' = shd s"
    and "\<And>i t'. procs s' i = Some t' \<Longrightarrow>
      (\<exists>t. procs s i = Some t \<and> gp t' = gp t \<and> (versioned (pc t') \<longrightarrow> versioned (pc t))
         \<and> (\<forall>es. pc t' = Committing es \<longrightarrow> pc t = Committing es)) \<or> pc t' = Save"
  shows "tallied C R T s'"
proof (rule talliedI)
  show "R i + C i \<le> T" for i by (rule talliedD(1) [OF assms(1)])
  have old: "\<exists>t. procs s i = Some t \<and> gp t' = gp t \<and> versioned (pc t)"
    if "procs s' i = Some t'" "versioned (pc t')" for i t'
    using assms(3) [OF that(1)] that(2) by auto
  show "R i + C i < T \<or> up_to_date (shd s') t'" if "procs s' i = Some t'" "versioned (pc t')" for i t'
    using old [OF that] talliedD(2) [OF assms(1), of i] assms(2) unfolding up_to_date_def by metis
  show "R i + C i < T" if new: "procs s' j = Some u'" "pc u' = Committing (e # es)" "i \<noteq> j"
    "procs s' i = Some t'" "versioned (pc t')" for j u' e es i t'
  proof -
    obtain u where "procs s j = Some u" "pc u = Committing (e # es)" using assms(3) [OF new(1)] new(2) by auto
    then show ?thesis using old [OF new(4,5)] talliedD(3) [OF assms(1)] new(3) by blast
  qed
qed

lemma no_events:
  assumes "\<And>i t t'. procs s i = Some t \<Longrightarrow> procs s' i = Some t' \<Longrightarrow> pc t = Check \<Longrightarrow> pc t' = Check"
  shows "\<not> publishes s s' i" and "\<not> rolls_back s s' i"
  using assms unfolding publishes_def rolls_back_def by fastforce+

lemma tallied_thread:
  assumes "tallied C R T s" and "mutex_inv s" and "shape_inv G s" and "version_inv n s"
    and t: "procs s i = Some t" and step: "tstep G vp i (t, shd s) (t', sh')"
    and s': "s' = set_proc i t' (s\<lparr>shd := sh'\<rparr>)"
  shows "tallied (\<lambda>k. C k + of_bool (publishes s s' k)) (\<lambda>k. R k + of_bool (rolls_back s s' k))
    (T + of_bool (publishes s s' i)) s'"
proof -
  have shape: "shape G t" and wf: "vm_wf (global_page_version (shd s))"
    using assms(3,4) t by (simp_all add: shape_inv_def version_inv_def)
  have publishes: "publishes s s' k \<longleftrightarrow> k = i \<and> pc t = Check \<and> (\<exists>e es. pc t' = Committing (e # es))"
    and rolls: "rolls_back s s' k \<longleftrightarrow> k = i \<and> pc t = Check \<and> pc t' = Unlock_Failed" for k
    using t by (auto simp: publishes_def rolls_back_def s')
  have shd: "shd s' = sh'" by (simp add: s')
  have room: "R i + C i < T" if "rolls_back s s' i"
  proof -
    have failed: "pc t = Check" "\<not> IsHeapConsistent (shd s) (gp t)"
      using that tstep_publishing(3) [OF step] by (simp_all add: rolls)
    then have "sets_ok G (gp t)" using shape by (simp add: shape_sets pc_groups)
    then have "\<not> up_to_date (shd s) t" using failed(2) same_versions_consistent by (auto simp: up_to_date_def)
    then show ?thesis using talliedD(2) [OF assms(1) t] failed(1) by simp
  qed
  have same: "procs s k = Some u" if "procs s' k = Some u" "k \<noteq> i" for k u using that by (simp add: s')
  show ?thesis
  proof (rule talliedI)
    show "R k + of_bool (rolls_back s s' k) + (C k + of_bool (publishes s s' k)) \<le> T + of_bool (publishes s s' i)" for k
      using talliedD(1) [OF assms(1), of k] room by (auto simp: publishes rolls)
  next
    fix k u assume k: "procs s' k = Some u" "versioned (pc u)"
    show "R k + of_bool (rolls_back s s' k) + (C k + of_bool (publishes s s' k)) < T + of_bool (publishes s s' i)
        \<or> up_to_date (shd s') u"
    proof (cases "k = i")
      case True
      then have "u = t'" using k(1) by (simp add: s')
      then show ?thesis
        using tstep_versioned [OF step _ shape wf] k(2) talliedD(2) [OF assms(1) t] True
        by (auto simp: publishes rolls shd)
    next
      case False
      note u = same [OF k(1) False]
      have "global_page_version sh' = global_page_version (shd s) \<or> R k + C k < T"
        using tstep_publishing(1) [OF step] talliedD(3) [OF assms(1) t _ False u k(2)] by blast
      then show ?thesis
        using talliedD(2) [OF assms(1) u k(2)] False by (auto simp: publishes rolls shd up_to_date_def)
    qed
  next
    fix j v e es k u
    assume j: "procs s' j = Some v" "pc v = Committing (e # es)" "k \<noteq> j" and k: "procs s' k = Some u" "versioned (pc u)"
    show "R k + of_bool (rolls_back s s' k) + (C k + of_bool (publishes s s' k)) < T + of_bool (publishes s s' i)"
    proof (cases "j = i")
      case True
      then have v: "v = t'" and u: "procs s k = Some u" and "k \<noteq> i" using j(1,3) k(1) by (auto simp: s')
      from tstep_publishing(2) [OF step j(2) [unfolded v]] show ?thesis
      proof
        assume "pc t = Check"
        then show ?thesis using talliedD(1) [OF assms(1), of k] j(2) \<open>k \<noteq> i\<close> by (auto simp: publishes rolls v)
      next
        assume "\<exists>d ds. pc t = Committing (d # ds)"
        then show ?thesis
          using talliedD(3) [OF assms(1) t _ \<open>k \<noteq> i\<close> u k(2)] \<open>k \<noteq> i\<close> by (auto simp: publishes rolls)
      qed
    next
      case False
      note v = same [OF j(1) False]
      show ?thesis
      proof (cases "k = i")
        case True
        then have "u = t'" using k(1) by (simp add: s')
        moreover have "\<not> holds (pc t)" using one_holder [OF assms(2) v _ t] j(2) False by auto
        ultimately have "versioned (pc t)" using tstep_versioned [OF step _ shape wf] k(2) by auto
        then have "R i + C i < T" using talliedD(3) [OF assms(1) v j(2) _ t] False by auto
        then show ?thesis using True k(2) \<open>u = t'\<close> by (auto simp: publishes rolls)
      next
        case False
        then show ?thesis
          using talliedD(3) [OF assms(1) v j(2,3) same [OF k(1) False] k(2)] by (simp add: publishes rolls)
      qed
    qed
  qed
qed

text \<open>All processes together.\<close>

definition tally_sums :: "u64 \<Rightarrow> (pid_t \<Rightarrow> nat) \<Rightarrow> (pid_t \<Rightarrow> nat) \<Rightarrow> nat \<Rightarrow> sys \<Rightarrow> bool" where
  "tally_sums r0 C R T s \<longleftrightarrow> finite (dom (procs s))
     \<and> (\<forall>i. procs s i = None \<longrightarrow> C i = 0 \<and> R i = 0)
     \<and> (\<Sum>i\<in>dom (procs s). C i) = T
     \<and> rollback_count (shd s) = r0 + of_nat (\<Sum>i\<in>dom (procs s). R i)"

lemma sum_event: "finite A \<Longrightarrow> i \<in> A \<Longrightarrow> \<forall>k. B k \<longrightarrow> k = i \<Longrightarrow>
    (\<Sum>k\<in>A. f k + of_bool (B k)) = (\<Sum>k\<in>A. f k) + (of_bool (B i) :: nat)"
proof -
  assume A: "finite A" "i \<in> A" and "\<forall>k. B k \<longrightarrow> k = i"
  then have "(\<Sum>k\<in>A. of_bool (B k)) = (\<Sum>k\<in>A. if k = i then of_bool (B i) else (0 :: nat))"
    by (intro sum.cong) auto
  with A show ?thesis unfolding sum.distrib by simp
qed

lemma tally_sums_quiet:
  assumes "tally_sums r0 C R T s" and "rollback_count (shd s') = rollback_count (shd s)"
    and "\<And>i. procs s' i = None \<Longrightarrow> procs s i = None" and "finite (dom (procs s'))"
  shows "tally_sums r0 C R T s'"
proof -
  have "dom (procs s) \<subseteq> dom (procs s')" using assms(3) by (auto simp: domIff) (metis option.exhaust)
  moreover have "\<forall>i\<in>dom (procs s') - dom (procs s). C i = 0" "\<forall>i\<in>dom (procs s') - dom (procs s). R i = 0"
    using assms(1) by (auto simp: tally_sums_def domIff)
  ultimately have "(\<Sum>i\<in>dom (procs s'). C i) = (\<Sum>i\<in>dom (procs s). C i)"
      "(\<Sum>i\<in>dom (procs s'). R i) = (\<Sum>i\<in>dom (procs s). R i)"
    using assms(4) by (auto intro!: sum.mono_neutral_right)
  then show ?thesis using assms by (simp add: tally_sums_def)
qed

lemma tally_sums_thread:
  assumes "tally_sums r0 C R T s" and t: "procs s i = Some t" and step: "tstep G vp i (t, shd s) (t', sh')"
    and s': "s' = set_proc i t' (s\<lparr>shd := sh'\<rparr>)"
  shows "tally_sums r0 (\<lambda>k. C k + of_bool (publishes s s' k)) (\<lambda>k. R k + of_bool (rolls_back s s' k))
    (T + of_bool (publishes s s' i)) s'"
proof -
  have only: "\<forall>k. publishes s s' k \<longrightarrow> k = i" "\<forall>k. rolls_back s s' k \<longrightarrow> k = i"
    by (auto simp: publishes_def rolls_back_def s' split: if_splits)
  have rolls: "rolls_back s s' i \<longleftrightarrow> pc t = Check \<and> pc t' = Unlock_Failed"
    using t by (auto simp: rolls_back_def s')
  have dom: "dom (procs s') = dom (procs s)" and i: "i \<in> dom (procs s)" and fin: "finite (dom (procs s))"
    using t assms(1) by (auto simp: s' tally_sums_def)
  have none: "\<not> publishes s s' k" "\<not> rolls_back s s' k" if "procs s k = None" for k
    using that by (simp_all add: publishes_def rolls_back_def)
  have "procs s' k = None \<longleftrightarrow> procs s k = None" for k using dom by (metis domIff)
  then have zero: "\<forall>k. procs s' k = None \<longrightarrow>
      C k + of_bool (publishes s s' k) = 0 \<and> R k + of_bool (rolls_back s s' k) = 0"
    using assms(1) none by (simp add: tally_sums_def)
  have count: "rollback_count (shd s') = rollback_count (shd s) + of_bool (rolls_back s s' i)"
    unfolding rolls using tstep_rollback_count [OF step] by (simp add: s')
  note sums = sum_event [where B = "publishes s s'" and f = C, OF fin i only(1)]
    sum_event [where B = "rolls_back s s'" and f = R, OF fin i only(2)]
  show ?thesis
    unfolding tally_sums_def dom
  proof (intro conjI)
    show "(\<Sum>k\<in>dom (procs s). C k + of_bool (publishes s s' k)) = T + of_bool (publishes s s' i)"
      using sums(1) assms(1) unfolding tally_sums_def by argo
    show "rollback_count (shd s') = r0 + of_nat (\<Sum>k\<in>dom (procs s). R k + of_bool (rolls_back s s' k))"
      unfolding count using arg_cong [OF sums(2), of "of_nat :: nat \<Rightarrow> u64"] assms(1)
      by (simp only: tally_sums_def of_nat_add of_nat_of_bool) simp
  qed (rule fin, rule zero)
qed

lemma tally_step:
  assumes "tallied C R T s" and "tally_sums r0 C R T s" and "sys_inv G (n, s)"
    and "counted_step no_order G vp (n, s) (Suc n, s')"
  shows "\<exists>T'. tallied (\<lambda>k. C k + of_bool (publishes s s' k)) (\<lambda>k. R k + of_bool (rolls_back s s' k)) T' s'
    \<and> tally_sums r0 (\<lambda>k. C k + of_bool (publishes s s' k)) (\<lambda>k. R k + of_bool (rolls_back s s' k)) T' s'"
proof -
  have inv: "mutex_inv s" "shape_inv G s" "version_inv n s" and fin: "finite (dom (procs s))"
    using assms(2,3) by (simp_all add: sys_inv_def tally_sums_def)
  have quiet: ?thesis
    if "shd s' = shd s" "finite (dom (procs s'))" "\<And>i. procs s' i = None \<Longrightarrow> procs s i = None"
      "\<And>i t'. procs s' i = Some t' \<Longrightarrow>
        (\<exists>t. procs s i = Some t \<and> gp t' = gp t \<and> (versioned (pc t') \<longrightarrow> versioned (pc t))
           \<and> (\<forall>es. pc t' = Committing es \<longrightarrow> pc t = Committing es)
           \<and> (pc t' = Unlock_Failed \<longrightarrow> pc t = Unlock_Failed)) \<or> pc t' = Save"
  proof -
    have "\<not> publishes s s' i" "\<not> rolls_back s s' i" for i
      using that(4) [of i] by (auto simp: publishes_def rolls_back_def)
    moreover have "tallied C R T s'" by (rule tallied_quiet [OF assms(1) that(1)]) (use that(4) in blast)
    moreover have "tally_sums r0 C R T s'" using tally_sums_quiet [OF assms(2) _ that(3,2)] that(1) by simp
    ultimately show ?thesis by auto
  qed
  consider "sys_step no_order G vp s s'" | "dies s s'"
    using assms(4) by (auto simp: counted_step_def)
  then show ?thesis
  proof cases
    case 1
    then show ?thesis
    proof (cases rule: sys_step.cases)
      case (thread i t t' sh')
      then show ?thesis
        using tallied_thread [OF assms(1) inv thread(2,4,1)] tally_sums_thread [OF assms(2) thread(2,4,1)] by blast
    qed (rule quiet; use fin in \<open>auto split: if_splits\<close>)+
  next
    case 2
    then show ?thesis by (cases rule: dies.cases) (rule quiet; use fin in \<open>auto split: if_splits\<close>)
  qed
qed

lemma tally_inv:
  assumes "initial c s0" and "heap_aligned G" and "tally no_order G vp s0 n C R s"
  shows "sys_inv G (n, s) \<and> (\<exists>T. tallied C R T s \<and> tally_sums (rollback_count (shd s0)) C R T s)"
  using assms(3)
proof (induction rule: tally.induct)
  case start
  obtain i t where "procs s0 = [i \<mapsto> t]" "pc t = Save" using assms(1) by (auto simp: initial_def)
  then have "tallied (\<lambda>i. 0) (\<lambda>i. 0) 0 s0" "tally_sums (rollback_count (shd s0)) (\<lambda>i. 0) (\<lambda>i. 0) 0 s0"
    by (auto simp: tallied_def tally_sums_def split: if_splits)
  then show ?case using initial_inv [OF assms(1,2)] by blast
next
  case (step n C R s s')
  then show ?case using tally_step sys_inv_step by blast
qed

text \<open>
  C5: Rollbacks are paid for by commits. Along a run from the start, each process is rolled back at
  most as often as other processes have committed changes; in total there are at most as many
  rollbacks as commits of changes times the number of other processes. The shared counter counts
  them (modulo \<open>2 ^ 64\<close>).
\<close>

theorem rollbacks_bounded:
  assumes "initial c s0" and "heap_aligned G" and "tally no_order G vp s0 n C R s"
  shows "R i \<le> (\<Sum>j\<in>dom (procs s) - {i}. C j)
    \<and> (\<Sum>j\<in>dom (procs s). R j) \<le> (card (dom (procs s)) - 1) * (\<Sum>j\<in>dom (procs s). C j)
    \<and> rollback_count (shd s) = rollback_count (shd s0) + of_nat (\<Sum>j\<in>dom (procs s). R j)"
proof -
  let ?D = "dom (procs s)" and ?T = "\<Sum>j\<in>dom (procs s). C j"
  obtain T where T: "tallied C R T s" "tally_sums (rollback_count (shd s0)) C R T s"
    using tally_inv [OF assms] by blast
  then have sums: "finite ?D" "\<And>i. procs s i = None \<Longrightarrow> C i = 0" "?T = T"
      "rollback_count (shd s) = rollback_count (shd s0) + of_nat (\<Sum>j\<in>?D. R j)"
    by (simp_all add: tally_sums_def)
  have bound: "R j + C j \<le> ?T" for j using talliedD(1) [OF T(1)] sums(3) by simp
  have "?T = (\<Sum>j\<in>?D - {i}. C j) + C i"
    using sums(1,2) by (cases "i \<in> ?D") (auto simp: sum.remove domIff)
  then have "R i \<le> (\<Sum>j\<in>?D - {i}. C j)" using bound [of i] by simp
  moreover have "(\<Sum>j\<in>?D. R j) + ?T \<le> card ?D * ?T"
    using sum_bounded_above [of ?D "\<lambda>j. R j + C j" ?T] bound by (simp add: sum.distrib)
  then have "(\<Sum>j\<in>?D. R j) \<le> (card ?D - 1) * ?T" by (simp add: diff_mult_distrib)
  ultimately show ?thesis using sums(4) by blast
qed

text \<open>
  C23: The type of a process. In every reachable state each process has the shape that the point of
  its code requires: between sections it has no private copies; at the start of a section its maps
  are empty and its stack is the saved one; in a section the pages read are at their local
  version, the pages written are at the next version and read as well, and only pages in the
  maps are accessible or copied; behind the section its program is at a call that ends one.
\<close>

theorem processes_well_formed:
  assumes "initial c s0" and "heap_aligned G" and "sys_run no_order G vp s0 n s" and "procs s i = Some t"
  shows "shape G t"
  using run_inv(2) [OF assms(1-3)] assms(4) by (simp add: shape_inv_def)

section \<open>Instances\<close>

lemma starting_predecessors: "\<forall>i t. procs (starting c) i = Some t \<longrightarrow> predecessor (gp t) = 0"
  by (simp add: starting_def)

theorem deadlock_free_witness:
  "\<exists>n s. sys_run True sample_heap live_view (starting Return) n s \<and> mutex (shd s) = Some 1
    \<and> (\<exists>j u. procs s j = Some u \<and> alive u \<and> (enabled sample_heap live_view s j \<or> stray sample_heap u \<or> joins_stranger s j u))"
proof -
  obtain n s t where run: "sys_run True sample_heap live_view (starting Return) n s" "procs s 1 = Some t" "alive t"
      "mutex (shd s) = Some 1" using holder_run by blast
  then have "\<forall>k u. mutex (shd s) = Some k \<longrightarrow> procs s k = Some u \<longrightarrow> alive u" by auto
  from deadlock_free [OF starting_initial sample_aligned starting_predecessors run(1-3) this] run
  show ?thesis by blast
qed

theorem dead_holder_blocks_witness:
  "\<exists>n s. sys_run True sample_heap live_view (starting Return) n s \<and> mutex (shd s) = Some 1
    \<and> (\<forall>m s'. (counted_step True sample_heap live_view)\<^sup>*\<^sup>* (n, s) (m, s') \<longrightarrow> shd s' = shd s)"
proof -
  obtain n s t where run: "n \<le> 3" "sys_run True sample_heap live_view (starting Return) n s" "procs s 1 = Some t"
      "alive t" "mutex (shd s) = Some 1" using holder_run by blast
  let ?s = "set_proc 1 (t\<lparr>alive := False\<rparr>) s"
  have "counted_step True sample_heap live_view (n, s) (Suc n, ?s)"
    using dies.intros [OF run(3,4)] run(1) by (simp add: counted_step_def)
  then have dead: "sys_run True sample_heap live_view (starting Return) (Suc n) ?s"
    using run(2) unfolding sys_run_def by (rule rtranclp.rtrancl_into_rtrancl [rotated])
  from dead_holder_blocks [OF starting_initial sample_aligned dead, of 1 "t\<lparr>alive := False\<rparr>"] dead run(5)
  show ?thesis by (intro exI [of _ "Suc n"] exI [of _ ?s]) simp
qed

text \<open>The two processes of \<open>racing\<close>: one rollback, paid for by one commit.\<close>

theorem rollbacks_bounded_witness:
  "\<exists>n C R s. tally True sample_heap live_view (starting racing) n C R s
    \<and> 1 \<le> R 1 \<and> 1 \<le> (\<Sum>j\<in>dom (procs s) - {1}. C j)"
proof -
  obtain n s t where run: "n \<le> 41" "sys_run True sample_heap live_view (starting racing) n s" "procs s 1 = Some t"
      "alive t" "pc t = Check" "\<not> IsHeapConsistent (shd s) (gp t)"
    using race_run by blast
  let ?s = "set_proc 1 (t\<lparr>pc := Unlock_Failed\<rparr>) (s\<lparr>shd := count_rollback (shd s)\<rparr>)"
  obtain C R where "tally True sample_heap live_view (starting racing) n C R s"
    using tally_run [OF run(2)] by blast
  moreover have "counted_step True sample_heap live_view (n, s) (Suc n, ?s)"
    using sys_step.thread [OF run(3,4) tstep.inconsistent [OF run(5,6)]] run(1) by (simp add: counted_step_def)
  ultimately have tally: "tally True sample_heap live_view (starting racing) (Suc n)
      (\<lambda>i. C i + of_bool (publishes s ?s i)) (\<lambda>i. R i + of_bool (rolls_back s ?s i)) ?s"
    by (rule tally.step)
  have "rolls_back s ?s 1" using run(3,5) by (simp add: rolls_back_def)
  then have "1 \<le> R 1 + of_bool (rolls_back s ?s 1)" by simp
  moreover from rollbacks_bounded [OF starting_initial sample_aligned tally, of 1]
  have "R 1 + of_bool (rolls_back s ?s 1) \<le> (\<Sum>j\<in>dom (procs ?s) - {1}. C j + of_bool (publishes s ?s j))" by blast
  ultimately show ?thesis using tally by (meson order_trans)
qed

theorem processes_well_formed_witness:
  "\<exists>n s t. sys_run True sample_heap live_view (starting racing) n s \<and> procs s 1 = Some t \<and> pc t = Check \<and> shape sample_heap t"
  using race_run processes_well_formed [OF starting_initial sample_aligned] by blast

end
