(* ===== verification/Commit_Order.thy ===== *)
theory Commit_Order
  imports Progress
begin

text \<open>
  The order of commits. A process that has created a thread commits its next section that touches
  the heap only when the thread has ended; without \<open>NO_ORDER\<close> a thread in turn waits for what
  its creator was waiting for when it was created.
\<close>

definition past_wait :: "pc \<Rightarrow> bool" where
  "past_wait c = (case c of Commit_Lock \<Rightarrow> True | Check \<Rightarrow> True | Committing es \<Rightarrow> True
     | Unlock_Committed \<Rightarrow> True | Unlock_Failed \<Rightarrow> True | _ \<Rightarrow> False)"

definition order_inv :: "sys \<Rightarrow> bool" where
  "order_inv s \<longleftrightarrow> (\<forall>i t. procs s i = Some t \<longrightarrow> predecessor (gp t) = 0
     \<or> (\<exists>u. procs s (predecessor (gp t)) = Some u \<and> (past_wait (pc t) \<longrightarrow> \<not> alive u)))"

lemma order_invD:
  "order_inv s \<Longrightarrow> procs s i = Some t \<Longrightarrow> predecessor (gp t) = 0
    \<or> (\<exists>u. procs s (predecessor (gp t)) = Some u \<and> (past_wait (pc t) \<longrightarrow> \<not> alive u))"
  unfolding order_inv_def by blast

lemma tstep_past_wait:
  assumes "tstep G vp i (t, sh) (t', sh')"
  shows "past_wait (pc t') \<Longrightarrow> past_wait (pc t)"
  using assms by (cases rule: tstep.cases) (simp_all add: past_wait_def)

text \<open>
  One lemma for all steps: processes stay, the dead stay dead, and each process is as it was with
  respect to waiting, or has just made sure that its predecessor is dead, or is new to the order.
\<close>

lemma order_inv_frame:
  assumes "order_inv s"
    and old: "\<And>k u. procs s k = Some u \<Longrightarrow> \<exists>u'. procs s' k = Some u' \<and> (alive u' \<longrightarrow> alive u)"
    and new: "\<And>k t'. procs s' k = Some t' \<Longrightarrow>
      (\<exists>j t. procs s j = Some t \<and> predecessor (gp t') = predecessor (gp t) \<and> (past_wait (pc t') \<longrightarrow> past_wait (pc t)))
      \<or> (\<exists>u. procs s (predecessor (gp t')) = Some u \<and> \<not> alive u) \<or> predecessor (gp t') = 0
      \<or> (\<not> past_wait (pc t') \<and> procs s' (predecessor (gp t')) \<noteq> None)"
  shows "order_inv s'"
  unfolding order_inv_def
proof (intro allI impI)
  fix k t' assume "procs s' k = Some t'"
  from new [OF this] show "predecessor (gp t') = 0
      \<or> (\<exists>u. procs s' (predecessor (gp t')) = Some u \<and> (past_wait (pc t') \<longrightarrow> \<not> alive u))"
  proof (elim disjE exE conjE)
    fix j t assume t: "procs s j = Some t" "predecessor (gp t') = predecessor (gp t)"
      "past_wait (pc t') \<longrightarrow> past_wait (pc t)"
    from order_invD [OF assms(1) t(1)] show ?thesis
    proof
      assume "\<exists>u. procs s (predecessor (gp t)) = Some u \<and> (past_wait (pc t) \<longrightarrow> \<not> alive u)"
      then show ?thesis using old t(2,3) by metis
    qed (simp add: t(2))
  next
    fix u assume "procs s (predecessor (gp t')) = Some u" "\<not> alive u"
    then show ?thesis using old by metis
  qed auto
qed

lemma order_inv_update:
  assumes "order_inv s" and "procs s i = Some t" and "procs s' = (procs s)(i \<mapsto> t')"
    and "predecessor (gp t') = predecessor (gp t)" and "past_wait (pc t') \<longrightarrow> past_wait (pc t)"
    and "alive t' \<longrightarrow> alive t"
  shows "order_inv s'"
proof (rule order_inv_frame [OF assms(1)])
  fix k v assume "procs s' k = Some v"
  then have "k = i \<and> v = t' \<or> procs s k = Some v" unfolding assms(3) by (auto split: if_splits)
  then have "\<exists>j u. procs s j = Some u \<and> predecessor (gp v) = predecessor (gp u) \<and> (past_wait (pc v) \<longrightarrow> past_wait (pc u))"
    using assms(2,4,5) by blast
  then show "(\<exists>j u. procs s j = Some u \<and> predecessor (gp v) = predecessor (gp u) \<and> (past_wait (pc v) \<longrightarrow> past_wait (pc u)))
      \<or> (\<exists>u. procs s (predecessor (gp v)) = Some u \<and> \<not> alive u) \<or> predecessor (gp v) = 0
      \<or> (\<not> past_wait (pc v) \<and> procs s' (predecessor (gp v)) \<noteq> None)"
    by blast
qed (use assms(2,6) in \<open>auto simp: assms(3)\<close>)

lemma waited_for_dead:
  assumes "mutex_inv s" and "order_inv s" and "procs s i = Some t" and "wait_returns s i (predecessor (gp t))"
  shows "predecessor (gp t) = 0 \<or> (\<exists>u. procs s (predecessor (gp t)) = Some u \<and> \<not> alive u)"
  using wait_returns_dead [OF assms(4)] order_invD [OF assms(2,3)] assms(1)
  by (auto simp: mutex_inv_def)

lemma order_inv_step:
  assumes "order_inv s" and "mutex_inv s" and "sys_step no_order G vp s s'"
  shows "order_inv s'"
  using assms(3)
proof (cases rule: sys_step.cases)
  case (thread i t t' sh')
  then show ?thesis
    using tstep_ids(2) [OF thread(4)] tstep_past_wait [OF thread(4)]
    by (intro order_inv_frame [OF assms(1)]) (auto split: if_splits)
next
  case (waited i t)
  then show ?thesis
    using waited_for_dead [OF assms(2,1) waited(2,5)]
    by (intro order_inv_frame [OF assms(1)]) (auto split: if_splits)
next
  case (forked i t c k j)
  show ?thesis
  proof (rule order_inv_frame [OF assms(1)])
    fix l v assume "procs s' l = Some v"
    then consider "l = i" "predecessor (gp v) = j" "pc v = Save"
      | "predecessor (gp v) = predecessor (gp t) \<or> predecessor (gp v) = 0" "pc v = Save" | "procs s l = Some v"
      unfolding forked(1) by (auto simp: parent_side_def child_side_def Let_def split: if_splits)
    then show "(\<exists>j t. procs s j = Some t \<and> predecessor (gp v) = predecessor (gp t) \<and> (past_wait (pc v) \<longrightarrow> past_wait (pc t)))
      \<or> (\<exists>u. procs s (predecessor (gp v)) = Some u \<and> \<not> alive u) \<or> predecessor (gp v) = 0
      \<or> (\<not> past_wait (pc v) \<and> procs s' (predecessor (gp v)) \<noteq> None)"
    proof cases
      case 1
      then show ?thesis by (simp add: forked(1) past_wait_def)
    next
      case 2
      then show ?thesis using forked(2) by (auto simp: past_wait_def)
    qed blast
  qed (use forked in \<open>auto split: if_splits\<close>)
next
  case (joined i t j c)
  show ?thesis
    by (rule order_inv_update [OF assms(1) joined(2), where t' = "t\<lparr>cur := c, pc := Save\<rparr>"]) (simp_all add: joined(1,3) past_wait_def)
next
  case (adopted i t)
  with assms(1) show ?thesis by (simp add: order_inv_def)
qed

lemma order_inv_dies:
  assumes "order_inv s" and "dies s s'"
  shows "order_inv s'"
  using assms(2)
proof (cases rule: dies.cases)
  case (dies i t)
  show ?thesis by (rule order_inv_update [OF assms(1) dies(2), where t' = "t\<lparr>alive := False\<rparr>"]) (simp_all add: dies(1))
qed

definition ordered_inv :: "heap_globals \<Rightarrow> nat \<times> sys \<Rightarrow> bool" where
  "ordered_inv G c \<longleftrightarrow> sys_inv G c \<and> order_inv (snd c)"

interpretation ordered: invariant "counted_step no_order G vp" "ordered_inv G"
proof
  fix c c' assume "ordered_inv G c" and step: "counted_step no_order G vp c c'"
  then have "sys_inv G c" "order_inv (snd c)" by (simp_all add: ordered_inv_def)
  moreover have "mutex_inv (snd c)" using calculation(1) by (simp add: sys_inv_def)
  ultimately show "ordered_inv G c'"
    using step sys_inv_step order_inv_step order_inv_dies
    unfolding ordered_inv_def counted_step_def by blast
qed

section \<open>Properties\<close>

text \<open>
  C8: Commits wait for the predecessor. In every reachable state, with and without \<open>NO_ORDER\<close>, a
  process that checks, commits or rolls back a section that touched the heap has no predecessor or
  one that has ended.
\<close>

theorem commits_after_predecessor:
  assumes "initial c s0" and "heap_aligned G" and "\<forall>i t. procs s0 i = Some t \<longrightarrow> predecessor (gp t) = 0"
    and "sys_run no_order G vp s0 n s" and "procs s i = Some t" and "past_wait (pc t)"
  shows "predecessor (gp t) = 0 \<or> (\<exists>u. procs s (predecessor (gp t)) = Some u \<and> \<not> alive u)"
proof -
  have "ordered_inv G (0, s0)"
    using initial_inv [OF assms(1,2)] assms(3) by (simp add: ordered_inv_def order_inv_def)
  then have "order_inv s"
    using ordered.reachable [OF assms(4) [unfolded sys_run_def]] by (simp add: ordered_inv_def)
  then show ?thesis using order_invD assms(5,6) by blast
qed

theorem commits_after_predecessor_witness:
  "\<exists>n s t. sys_run True sample_heap live_view (starting racing) n s \<and> procs s 1 = Some t \<and> pc t = Check
    \<and> (predecessor (gp t) = 0 \<or> (\<exists>u. procs s (predecessor (gp t)) = Some u \<and> \<not> alive u))"
proof -
  obtain n s t where run: "sys_run True sample_heap live_view (starting racing) n s" "procs s 1 = Some t" "pc t = Check"
    using race_run by blast
  then have "past_wait (pc t)" by (simp add: past_wait_def)
  from commits_after_predecessor [OF starting_initial sample_aligned starting_predecessors run(1,2) this] run
  show ?thesis by blast
qed

end
