(* ===== verification/Ordered_Sections.thy ===== *)
theory Ordered_Sections
  imports Commit_Order
begin

text \<open>
  The atomic machine with predecessors. A thread that touches the heap in a section waits until
  the thread it comes after has ended; a thread that has created another comes after it, and the
  new thread comes after whatever its creator came after (\<open>predecessor_\<close> in \<open>gthread.cc\<close>). The
  system implements this machine too.
\<close>

section \<open>The machine\<close>

type_synonym order = "pid_t \<Rightarrow> pid_t"

inductive ostep :: "bool \<Rightarrow> heap_globals \<Rightarrow> atomic \<times> order \<Rightarrow> atomic \<times> order \<Rightarrow> bool" for no_order G where
  run_section: "threads A i = Some (Running c) \<Longrightarrow> runs G c (heap A) d m \<Longrightarrow> ends_section d \<Longrightarrow>
    c = d \<or> w i = 0 \<or> ended (threads A (w i)) \<Longrightarrow>
    ostep no_order G (A, w) (A\<lparr>heap := m, threads := (threads A)(i \<mapsto> Committed d)\<rparr>, w)"
| spawn: "threads A i = Some (Committed (Spawn c k)) \<Longrightarrow> j \<noteq> 0 \<Longrightarrow> j \<noteq> i \<Longrightarrow> threads A j = None \<Longrightarrow>
    ostep no_order G (A, w) (A\<lparr>threads := (threads A)(j \<mapsto> Running c, i \<mapsto> Running (k j))\<rparr>,
      w(j := if no_order then 0 else w i, i := j))"
| await: "threads A i = Some (Committed (Await j c)) \<Longrightarrow> j = 0 \<or> ended (threads A j) \<Longrightarrow>
    ostep no_order G (A, w) (A\<lparr>threads := (threads A)(i \<mapsto> Running c)\<rparr>, w)"
| exit: "threads A i = Some (Committed Return) \<Longrightarrow>
    ostep no_order G (A, w) (A\<lparr>threads := (threads A)(i \<mapsto> Exited)\<rparr>, w)"
| crash: "threads A i = Some x \<Longrightarrow> \<not> ended (Some x) \<Longrightarrow>
    ostep no_order G (A, w) (A\<lparr>threads := (threads A)(i \<mapsto> Crashed)\<rparr>, w)"

text \<open>It is the atomic machine with some steps held back.\<close>

lemma ostep_astep: "ostep no_order G (A, w) (A', w') \<Longrightarrow> astep G A A'"
  by (erule ostep.cases) (auto intro: astep.intros)

lemma astep_ostep:
  assumes "astep G A A'"
    and waited: "\<And>i c d. threads A i = Some (Running c) \<Longrightarrow> threads A' i = Some (Committed d) \<Longrightarrow>
      c = d \<or> w i = 0 \<or> ended (threads A (w i))"
    and new: "\<And>j. threads A j = None \<Longrightarrow> threads A' j = None"
  shows "ostep no_order G (A, w) (A', w)"
  using assms(1)
proof (cases rule: astep.cases)
  case (run_section i c d m)
  then have "c = d \<or> w i = 0 \<or> ended (threads A (w i))" by (intro waited) simp_all
  from ostep.run_section [where w = w, OF run_section(2-4) this] show ?thesis by (simp only: run_section(1))
next
  case (spawn i c k j)
  then have "threads A' j \<noteq> None" by simp
  with new [OF spawn(5)] show ?thesis by simp
qed (simp_all add: ostep.await ostep.exit ostep.crash)

section \<open>Sections that have not touched the heap\<close>

definition untouched_ok :: "thread \<Rightarrow> bool" where
  "untouched_ok t \<longleftrightarrow> (in_section (pc t) \<longrightarrow> nothing_accessed (gp t) \<longrightarrow> cur t = ctx t)"

lemma fault_accesses:
  assumes "SegfaultHandler G True a p = Inr p'"
  shows "\<not> nothing_accessed p'"
  using assms by (elim SegfaultHandler_Inr) (auto simp: handler_simps nothing_accessed_def dest: arg_cong [of _ _ vm_find])

lemma tstep_untouched:
  assumes "tstep G vp i (t, sh) (t', sh')" and "shape G t" and "heap_aligned G" and "untouched_ok t"
  shows "untouched_ok t'"
  using assms(1)
proof (cases rule: tstep.cases)
  case protect
  then show ?thesis using assms(2) by (simp add: untouched_ok_def shape_def pc_groups)
next
  case (load a k)
  then have "sets_ok G (gp t)" using assms(2) by (simp add: shape_def pc_groups)
  from readable [OF this assms(3) load(5)] have "\<not> nothing_accessed (gp t)"
    using load(4-6) faults_None(1) by (fastforce simp: nothing_accessed_def)
  with load show ?thesis by (simp add: untouched_ok_def)
next
  case (store a v c)
  then have "sets_ok G (gp t)" using assms(2) by (simp add: shape_def pc_groups)
  from readable [OF this assms(3) store(5)] have "\<not> nothing_accessed (gp t)"
    using store(4-6) faults_None(2) by (fastforce simp: nothing_accessed_def)
  then have "\<not> nothing_accessed (store vp G sh a v (gp t))" by (simp add: nothing_accessed_def)
  with store show ?thesis by (simp add: untouched_ok_def)
next
  case (fault a p')
  then show ?thesis using fault_accesses by (simp add: untouched_ok_def)
qed (use assms(4) in \<open>auto simp: untouched_ok_def pc_groups\<close>)

definition untouched_inv :: "sys \<Rightarrow> bool" where
  "untouched_inv s \<longleftrightarrow> (\<forall>i t. procs s i = Some t \<longrightarrow> untouched_ok t)"

lemma untouched_inv_set:
  "untouched_inv s \<Longrightarrow> untouched_ok t \<Longrightarrow> untouched_inv (set_proc i t s)"
  by (simp add: untouched_inv_def)

lemma untouched_inv_reaped [simp]: "untouched_inv (s\<lparr>reaped := r\<rparr>) = untouched_inv s"
  by (simp add: untouched_inv_def)

lemma untouched_inv_step:
  assumes "untouched_inv s" and "shape_inv G s" and "sys_step no_order G vp s s' \<or> dies s s'"
  shows "untouched_inv s'"
proof -
  have ok: "\<And>i t. procs s i = Some t \<Longrightarrow> untouched_ok t" using assms(1) by (simp add: untouched_inv_def)
  from assms(3) show ?thesis
  proof
    assume "sys_step no_order G vp s s'"
    then show ?thesis
    proof (cases rule: sys_step.cases)
      case (thread i t t' sh')
      have "untouched_ok t'"
        using tstep_untouched [OF thread(4)] assms(2) thread(2) ok by (simp add: shape_inv_def)
      with assms(1) show ?thesis by (simp add: thread(1) untouched_inv_def)
    next
      case (waited i t)
      then have "untouched_ok (t\<lparr>pc := Commit_Lock\<rparr>)"
        using ok by (simp add: untouched_ok_def pc_groups)
      with assms(1) show ?thesis by (simp add: waited(1) untouched_inv_set)
    qed (use assms(1) in \<open>simp_all add: untouched_inv_set untouched_ok_def pc_groups\<close>)
  next
    assume "dies s s'"
    then show ?thesis
    proof (cases rule: dies.cases)
      case (dies i t)
      then show ?thesis using assms(1) ok by (simp add: untouched_inv_set untouched_ok_def)
    qed
  qed
qed

section \<open>The simulation\<close>

definition waits :: "sys \<Rightarrow> order" where
  "waits s i = (case procs s i of None \<Rightarrow> 0 | Some t \<Rightarrow> predecessor (gp t))"

lemma waits_Some [simp]: "procs s i = Some t \<Longrightarrow> waits s i = predecessor (gp t)"
  by (simp add: waits_def)

lemma waits_set:
  "procs s i = Some t \<Longrightarrow> predecessor (gp u) = predecessor (gp t) \<Longrightarrow> waits (set_proc i u s) = waits s"
  by (simp add: waits_def fun_eq_iff)

lemma waits_frame [simp]: "waits (s\<lparr>reaped := r\<rparr>) = waits s" "waits (s\<lparr>shd := sh\<rparr>) = waits s"
  by (simp_all add: waits_def fun_eq_iff)

definition forks :: "sys \<Rightarrow> sys \<Rightarrow> bool" where
  "forks s s' \<longleftrightarrow> (\<exists>j. procs s j = None \<and> procs s' j \<noteq> None)"

text \<open>Steps that create no thread leave everybody's predecessor.\<close>

lemma waits_step:
  assumes "sys_step no_order G vp s s' \<or> dies s s'" and "\<not> forks s s'"
  shows "waits s' = waits s"
  using assms(1)
proof
  assume "sys_step no_order G vp s s'"
  then show ?thesis
  proof (cases rule: sys_step.cases)
    case (thread i t t' sh')
    then show ?thesis using tstep_ids(2) [OF thread(4)] by (simp add: waits_set)
  next
    case (forked i t c k j)
    then have "procs s' j \<noteq> None" by simp
    with forked(7) have "forks s s'" unfolding forks_def by blast
    with assms(2) show ?thesis by simp
  qed (simp_all add: waits_set)
next
  assume "dies s s'"
  then show ?thesis by (auto simp: waits_set elim!: dies.cases)
qed

text \<open>A section is committed by a process that has waited, or that has not touched the heap.\<close>

lemma commit_step:
  assumes "tstep G vp i (t, sh) (t', sh')" and "alive t" and "where_is t = Running c"
    and "abs_thread t' = Committed d"
  shows "c = ctx t \<and> d = cur t \<and> in_section (pc t) \<and> (past_wait (pc t) \<or> nothing_accessed (gp t))"
  using assms(1)
proof (cases rule: tstep.cases)
  case consistent
  with assms(2-4) show ?thesis by (auto simp: where_is_def abs_thread_def pc_groups past_wait_def)
next
  case untouched
  with assms(2-4) show ?thesis by (auto simp: where_is_def abs_thread_def pc_groups)
qed (use assms(2-4) in \<open>auto simp: where_is_def abs_thread_def pc_groups split: if_splits\<close>)

lemma waited_commit:
  assumes "sys_step no_order G vp s s' \<or> dies s s'" and "order_inv s" and "untouched_inv s"
    and "threads (abs_sys G s) i = Some (Running c)" and "threads (abs_sys G s') i = Some (Committed d)"
  shows "c = d \<or> waits s i = 0 \<or> ended (threads (abs_sys G s) (waits s i))"
proof -
  obtain t where t: "procs s i = Some t" "alive t" "where_is t = Running c"
    using assms(4) abs_thread_dead by (fastforce simp: abs_sys_def abs_thread_alive)
  obtain t' where t': "procs s' i = Some t'" "abs_thread t' = Committed d"
    using assms(5) by (auto simp: abs_sys_def)
  have moved: "\<exists>sh'. tstep G vp i (t, shd s) (t', sh')"
    using assms(1)
  proof
    assume "sys_step no_order G vp s s'"
    then show ?thesis
    proof (cases rule: sys_step.cases)
      case (thread l u u' sh')
      then show ?thesis using t t' by (cases "l = i") (auto simp: abs_thread_alive)
    qed (use t t' in \<open>auto simp: abs_thread_def where_is_def pc_groups split: if_splits\<close>)
  next
    assume "dies s s'"
    then show ?thesis
    proof (cases rule: dies.cases)
      case (dies l u)
      then show ?thesis
        using t t' abs_thread_dead [of t'] by (cases "l = i") (auto simp: abs_thread_alive)
    qed
  qed
  then have commit: "c = ctx t" "d = cur t" "in_section (pc t)" "past_wait (pc t) \<or> nothing_accessed (gp t)"
    using commit_step [OF _ t(2,3) t'(2)] by blast+
  from commit(4) show ?thesis
  proof
    assume "past_wait (pc t)"
    then have "predecessor (gp t) = 0 \<or> (\<exists>u. procs s (predecessor (gp t)) = Some u \<and> \<not> alive u)"
      using order_invD [OF assms(2) t(1)] by blast
    then show ?thesis
      using t(1) abs_thread_dead by (fastforce simp: abs_sys_def ended_def)
  next
    assume "nothing_accessed (gp t)"
    then show ?thesis using assms(3) t(1) commit by (simp add: untouched_inv_def untouched_ok_def)
  qed
qed

definition in_order_inv :: "heap_globals \<Rightarrow> view_policy \<Rightarrow> nat \<times> sys \<Rightarrow> bool" where
  "in_order_inv G vp c \<longleftrightarrow> serial_inv G vp c \<and> order_inv (snd c) \<and> untouched_inv (snd c)"

definition abs_order :: "heap_globals \<Rightarrow> nat \<times> sys \<Rightarrow> atomic \<times> order" where
  "abs_order G c = (abs_sys G (snd c), waits (snd c))"

lemma in_order_step:
  assumes "in_order_inv G vp c" and "counted_step no_order G vp c c'"
  shows "in_order_inv G vp c'"
proof -
  have inv: "serial_inv G vp c" "ordered_inv G c" "untouched_inv (snd c)" "shape_inv G (snd c)"
    using assms(1) by (simp_all add: in_order_inv_def serial_inv_def ordered_inv_def sys_inv_def split_beta)
  moreover have "untouched_inv (snd c')"
    using untouched_inv_step [OF inv(3,4)] assms(2) unfolding counted_step_def by blast
  moreover have "order_inv (snd c')"
    using ordered.preserved [OF inv(2) assms(2)] by (simp add: ordered_inv_def)
  ultimately show ?thesis
    using serial.preserved [OF inv(1) assms(2)] by (simp add: in_order_inv_def)
qed

lemma ordered_fork:
  assumes "sys_step no_order G vp s s'" and "forks s s'"
  shows "ostep no_order G (abs_sys G s, waits s) (abs_sys G s', waits s')"
  using assms(1)
proof (cases rule: sys_step.cases)
  case (forked i t c k j)
  have "j \<noteq> i" using forked(2,7) by auto
  moreover from this have "waits s' = (waits s)(j := if no_order then 0 else waits s i, i := j)"
    using forked(2) by (simp add: forked(1) waits_def fun_eq_iff parent_side_def child_side_def Let_def)
  ultimately show ?thesis
    using abs_forked [OF forked(2-5,7), of G] forked(1,6)
    by (metis ostep.spawn)
qed (use assms(2) in \<open>auto simp: forks_def split: if_splits\<close>)

lemma order_simulated:
  assumes "in_order_inv G vp c" and "counted_step no_order G vp c c'"
  shows "abs_order G c' = abs_order G c \<or> ostep no_order G (abs_order G c) (abs_order G c')"
proof -
  let ?s = "snd c" and ?s' = "snd c'"
  have inv: "serial_inv G vp c" "order_inv ?s" "untouched_inv ?s"
    using assms(1) by (simp_all add: in_order_inv_def)
  have step: "sys_step no_order G vp ?s ?s' \<or> dies ?s ?s'" using assms(2) by (simp add: counted_step_def)
  show ?thesis
  proof (cases "forks ?s ?s'")
    case True
    moreover from this have "\<not> dies ?s ?s'" by (auto simp: forks_def elim!: dies.cases split: if_splits)
    ultimately show ?thesis using ordered_fork step by (simp add: abs_order_def)
  next
    case False
    note waits_step [OF step False]
    moreover have "ostep no_order G (abs_sys G ?s, waits ?s) (abs_sys G ?s', waits ?s)"
      if "astep G (abs_sys G ?s) (abs_sys G ?s')"
    proof (rule astep_ostep [OF that])
      fix j assume "threads (abs_sys G ?s) j = None"
      then have "procs ?s j = None" by (simp add: abs_sys_def)
      then have "procs ?s' j = None" using False unfolding forks_def by blast
      then show "threads (abs_sys G ?s') j = None" by (simp add: abs_sys_def)
    next
      show "c = d \<or> waits ?s i = 0 \<or> ended (threads (abs_sys G ?s) (waits ?s i))"
        if "threads (abs_sys G ?s) i = Some (Running c)" "threads (abs_sys G ?s') i = Some (Committed d)"
        for i c d using waited_commit [OF step inv(2,3) that] .
    qed
    ultimately show ?thesis
      using serial.simulated [OF inv(1) assms(2)] by (auto simp: abs_order_def)
  qed
qed

interpretation in_order: simulation "counted_step no_order G vp" "in_order_inv G vp" "ostep no_order G" "abs_order G"
  by unfold_locales (fact in_order_step, fact order_simulated)

lemma initial_in_order:
  assumes "initial c s" and "heap_aligned G" and "live vp" and "\<forall>i t. procs s i = Some t \<longrightarrow> predecessor (gp t) = 0"
  shows "in_order_inv G vp (0, s)"
    and "\<exists>i. abs_order G (0, s) = (\<lparr>heap = heap_view G (shd s), threads = [i \<mapsto> Running c]\<rparr>, \<lambda>_. 0)"
proof -
  have "untouched_inv s" using assms(1) by (auto simp: untouched_inv_def untouched_ok_def initial_def pc_groups split: if_splits)
  moreover have "order_inv s" using assms(4) by (simp add: order_inv_def)
  ultimately show "in_order_inv G vp (0, s)" using initial_serial(1) [OF assms(1-3)] by (simp add: in_order_inv_def)
  have "waits s = (\<lambda>_. 0)" using assms(4) by (simp add: waits_def fun_eq_iff split: option.split)
  then show "\<exists>i. abs_order G (0, s) = (\<lparr>heap = heap_view G (shd s), threads = [i \<mapsto> Running c]\<rparr>, \<lambda>_. 0)"
    using initial_serial(2) [OF assms(1-3)] by (simp add: abs_order_def)
qed

lemma run_in_order:
  assumes "initial c s0" and "heap_aligned G" and "live vp" and "\<forall>i t. procs s0 i = Some t \<longrightarrow> predecessor (gp t) = 0"
    and "sys_run no_order G vp s0 n s"
  shows "\<exists>i. procs s0 i \<noteq> None \<and> (ostep no_order G)\<^sup>*\<^sup>*
    (\<lparr>heap = heap_view G (shd s0), threads = [i \<mapsto> Running c]\<rparr>, \<lambda>_. 0) (abs_sys G s, waits s)"
proof -
  obtain i where i: "abs_order G (0, s0) = (\<lparr>heap = heap_view G (shd s0), threads = [i \<mapsto> Running c]\<rparr>, \<lambda>_. 0)"
    using initial_in_order(2) [OF assms(1-4)] by blast
  have "(ostep no_order G)\<^sup>*\<^sup>* (abs_order G (0, s0)) (abs_order G (n, s))"
    by (rule in_order.refines [OF assms(5) [unfolded sys_run_def] initial_in_order(1) [OF assms(1-4)]])
  moreover have "threads (abs_sys G s0) i \<noteq> None" using i by (simp add: abs_order_def)
  ultimately show ?thesis using i by (auto simp: abs_order_def abs_sys_def)
qed

end
