(* ===== verification/Fork_Join.thy ===== *)
theory Fork_Join
  imports Serializability Libgthread "HOL-Library.Multiset"
begin

text \<open>
  Fork-join programs on the runtime: a thread runs a section of its own, creates threads, joins
  them in the order of their creation, and finishes. What such a program leaves in the heap,
  whatever the interleaving, are the effects of its sections in some order.
\<close>

section \<open>Jobs\<close>

text \<open>
  The loops of the client programs that create threads and join them. A job is a thread's
  section, named by a label, with the jobs of the threads it creates and the code behind the
  joins.
\<close>

fun create_all :: "prog list \<Rightarrow> (pid_t list \<Rightarrow> prog) \<Rightarrow> prog" where
  "create_all [] k = k []"
| "create_all (c # cs) k = Spawn c (\<lambda>t. create_all cs (\<lambda>ts. k (t # ts)))"

fun join_all :: "pid_t list \<Rightarrow> prog \<Rightarrow> prog" where
  "join_all [] c = c"
| "join_all (t # ts) c = Await t (join_all ts c)"

datatype 'l job = Job (label: 'l) (kids: "'l job list") (finish: prog)

fun code :: "('l \<Rightarrow> prog \<Rightarrow> prog) \<Rightarrow> 'l job \<Rightarrow> prog" where
  "code B (Job l js e) = B l (create_all (map (code B) js) (\<lambda>ts. join_all ts e))"

fun labels :: "'l job \<Rightarrow> 'l multiset" where
  "labels (Job l js e) = add_mset l (sum_list (map labels js))"

text \<open>What the threads of a job run behind their joins.\<close>

fun finishes_of :: "'l job \<Rightarrow> prog set" where
  "finishes_of (Job l js e) = insert e (\<Union>j\<in>set js. finishes_of j)"

text \<open>Many sections alike, behind a first one.\<close>

lemma sum_replicate_mset: "sum_list (replicate j (replicate_mset i x)) = replicate_mset (j * i) x"
  by (induction j) (auto intro: multiset_eqI)

lemma one_first:
  assumes "mset ls = add_mset z (replicate_mset n x)" and "hd ls = z"
  shows "ls = z # replicate n x"
proof -
  obtain xs where ls: "ls = z # xs" using assms by (cases ls) auto
  then have xs: "mset xs = replicate_mset n x" using assms(1) by simp
  then have "length xs = n" by (metis size_mset size_replicate_mset)
  moreover have "y = x" if "y \<in> set xs" for y using that xs by (metis in_replicate_mset set_mset_mset)
  ultimately show ?thesis using ls by (metis replicate_eqI)
qed

text \<open>Code that changes nothing and ends its thread.\<close>

definition quiet :: "heap_globals \<Rightarrow> prog \<Rightarrow> bool" where
  "quiet G e \<longleftrightarrow> (\<forall>m d m'. runs G e m d m' \<longrightarrow> ends_section d \<longrightarrow> d = Return \<and> m' = m)"

fun good_job :: "heap_globals \<Rightarrow> 'l job \<Rightarrow> bool" where
  "good_job G (Job l js e) \<longleftrightarrow> quiet G e \<and> (js = [] \<longrightarrow> e = Return) \<and> (\<forall>j\<in>set js. good_job G j)"

lemma runs_stuck:
  assumes "runs G c m d m'" and "\<And>e. \<not> local_step G (c, m) e"
  shows "d = c \<and> m' = m"
  using assms(1) unfolding runs_def by (rule converse_rtranclpE) (use assms(2) in auto)

lemma runs_ended: "ends_section c \<Longrightarrow> runs G c m d m' \<Longrightarrow> d = c \<and> m' = m"
  by (erule runs_stuck) (rule local_step_ends)

lemma quiet_Return [simp]: "quiet G Return"
  using runs_ended [of Return G] by (auto simp: quiet_def)

lemma quiet_Quit [simp]: "quiet G Quit"
  by (auto simp: quiet_def dest!: runs_stuck [of G Quit, simplified])

lemma quiet_Load: "(\<And>v. quiet G (k v)) \<Longrightarrow> quiet G (Load a k)"
  unfolding quiet_def
proof (intro allI impI)
  fix m d m'
  assume quiet: "\<And>v. \<forall>m d m'. runs G (k v) m d m' \<longrightarrow> ends_section d \<longrightarrow> d = Return \<and> m' = m"
    and run: "runs G (Load a k) m d m'" and ends: "ends_section d"
  from ends have "d \<noteq> Load a k" by auto
  with run obtain e where "local_step G (Load a k, m) e" "(local_step G)\<^sup>*\<^sup>* e (d, m')"
    unfolding runs_def by (metis converse_rtranclpE prod.inject)
  then have "runs G (k (m a)) m d m'" by (auto simp: runs_def)
  with quiet ends show "d = Return \<and> m' = m" by blast
qed

section \<open>Where a thread of a job is\<close>

datatype 'l stage = Fresh "'l job" | Busy "'l job list" "pid_t list" prog | Finishing prog | Done

definition busy_code :: "('l \<Rightarrow> prog \<Rightarrow> prog) \<Rightarrow> 'l job list \<Rightarrow> pid_t list \<Rightarrow> prog \<Rightarrow> prog" where
  "busy_code B js ts e = create_all (map (code B) js) (\<lambda>ts'. join_all (ts @ ts') e)"

lemma busy_code_simps [simp]:
  "busy_code B (j # js) ts e = Spawn (code B j) (\<lambda>t. busy_code B js (ts @ [t]) e)"
  "busy_code B [] (t # ts) e = Await t (busy_code B [] ts e)"
  "busy_code B [] [] e = e"
  by (simp_all add: busy_code_def)

lemma busy_code_ends: "js \<noteq> [] \<or> ts \<noteq> [] \<Longrightarrow> ends_section (busy_code B js ts e)"
  by (cases js; cases ts) simp_all

lemma code_busy: "code B (Job l js e) = B l (busy_code B js [] e)"
  by (simp add: busy_code_def)

fun at_stage :: "('l \<Rightarrow> prog \<Rightarrow> prog) \<Rightarrow> 'l stage \<Rightarrow> athread \<Rightarrow> bool" where
  "at_stage B (Fresh j) x \<longleftrightarrow> x = Running (code B j)"
| "at_stage B (Busy js ts e) x \<longleftrightarrow> (js \<noteq> [] \<or> ts \<noteq> [])
     \<and> (x = Running (busy_code B js ts e) \<or> x = Committed (busy_code B js ts e))"
| "at_stage B (Finishing e) x \<longleftrightarrow> x = Running e"
| "at_stage B Done x \<longleftrightarrow> x = Committed Return \<or> x = Exited"

lemma at_stage_Spawn:
  assumes "at_stage B st (Committed (Spawn c k))"
  shows "\<exists>j js ts e. st = Busy (j # js) ts e \<and> c = code B j \<and> k = (\<lambda>t. busy_code B js (ts @ [t]) e)"
proof (cases st)
  case (Busy js ts e)
  with assms show ?thesis by (cases js; cases ts) auto
qed (use assms in auto)

lemma at_stage_Await:
  assumes "at_stage B st (Committed (Await t c))"
  shows "\<exists>ts e. st = Busy [] (t # ts) e \<and> c = busy_code B [] ts e"
proof (cases st)
  case (Busy js ts e)
  with assms show ?thesis by (cases js; cases ts) auto
qed (use assms in auto)

lemma at_stage_Return:
  assumes "at_stage B st (Committed Return)"
  shows "st = Done"
proof (cases st)
  case (Busy js ts e)
  with assms show ?thesis by (cases js; cases ts) auto
qed (use assms in auto)

definition busy_or :: "'l stage \<Rightarrow> 'l job list \<Rightarrow> pid_t list \<Rightarrow> prog \<Rightarrow> 'l stage" where
  "busy_or st js ts e = (if js = [] \<and> ts = [] then st else Busy js ts e)"

fun good_stage :: "heap_globals \<Rightarrow> 'l stage \<Rightarrow> bool" where
  "good_stage G (Fresh j) \<longleftrightarrow> good_job G j"
| "good_stage G (Busy js ts e) \<longleftrightarrow> (\<forall>j\<in>set js. good_job G j) \<and> quiet G e \<and> 0 \<notin> set ts"
| "good_stage G (Finishing e) \<longleftrightarrow> quiet G e"
| "good_stage G Done \<longleftrightarrow> True"

fun jobs_left :: "'l stage \<Rightarrow> 'l job list" where
  "jobs_left (Fresh j) = [j]"
| "jobs_left (Busy js ts e) = js"
| "jobs_left (Finishing e) = []"
| "jobs_left Done = []"

fun joinees :: "'l stage \<Rightarrow> pid_t set" where
  "joinees (Busy js ts e) = set ts"
| "joinees _ = {}"

fun own_finish :: "'l stage \<Rightarrow> prog set" where
  "own_finish (Fresh j) = {finish j}"
| "own_finish (Busy js ts e) = {e}"
| "own_finish (Finishing e) = {e}"
| "own_finish Done = {}"

fun kid_finishes :: "'l stage \<Rightarrow> prog set" where
  "kid_finishes (Fresh j) = (\<Union>j\<in>set (kids j). finishes_of j)"
| "kid_finishes (Busy js ts e) = (\<Union>j\<in>set js. finishes_of j)"
| "kid_finishes _ = {}"

abbreviation work :: "'l stage \<Rightarrow> 'l multiset" where
  "work st \<equiv> sum_list (map labels (jobs_left st))"

definition work_left :: "(pid_t \<Rightarrow> 'l stage option) \<Rightarrow> 'l multiset" where
  "work_left g = (\<Sum>i\<in>dom g. work (the (g i)))"

lemma work_left_new: "finite (dom g) \<Longrightarrow> g j = None \<Longrightarrow> work_left (g(j \<mapsto> st)) = work st + work_left g"
proof -
  assume "finite (dom g)" and "g j = None"
  moreover from this have "(\<Sum>i\<in>dom g. work (the ((g(j \<mapsto> st)) i))) = work_left g"
    unfolding work_left_def by (intro sum.cong) auto
  ultimately show ?thesis by (simp add: work_left_def domIff)
qed

lemma work_left_change:
  assumes "finite (dom g)" and "g i = Some st"
  shows "work_left (g(i \<mapsto> st')) + work st = work_left g + work st'"
proof -
  let ?g = "g(i := None)"
  have "finite (dom ?g)" "?g i = None" using assms(1) by simp_all
  note new = work_left_new [OF this]
  have "g = ?g(i \<mapsto> st)" using assms(2) by auto
  then have "work_left g = work st + work_left ?g" using new by metis
  moreover have "?g(i \<mapsto> st') = g(i \<mapsto> st')" by auto
  then have "work_left (g(i \<mapsto> st')) = work st' + work_left ?g" using new by metis
  ultimately show ?thesis by simp
qed

section \<open>Following a run\<close>

text \<open>
  \<open>g\<close> says at which stage the threads are, \<open>r\<close> ranks them (a thread ranks below the one that
  created it), and \<open>ls\<close> lists the sections run so far.
\<close>

definition staged :: "heap_globals \<Rightarrow> ('l \<Rightarrow> prog \<Rightarrow> prog) \<Rightarrow> atomic \<Rightarrow> (pid_t \<Rightarrow> 'l stage option) \<Rightarrow> bool" where
  "staged G B A g \<longleftrightarrow> finite (dom g)
     \<and> (\<forall>i. rel_option (at_stage B) (g i) (threads A i))
     \<and> (\<forall>i st. g i = Some st \<longrightarrow> good_stage G st \<and> joinees st \<subseteq> dom g)"

definition accounted :: "('l \<Rightarrow> memory \<Rightarrow> memory) \<Rightarrow> 'l job \<Rightarrow> memory \<Rightarrow> memory
    \<Rightarrow> (pid_t \<Rightarrow> 'l stage option) \<Rightarrow> 'l list \<Rightarrow> bool" where
  "accounted eff main_job h0 h g ls \<longleftrightarrow> h = fold eff ls h0 \<and> mset ls + work_left g = labels main_job
     \<and> (if ls = [] then \<forall>i st. g i = Some st \<longrightarrow> set (jobs_left st) \<subseteq> {main_job} else hd ls = label main_job)"

definition parented :: "pid_t \<Rightarrow> atomic \<Rightarrow> (pid_t \<Rightarrow> 'l stage option) \<Rightarrow> (pid_t \<Rightarrow> int) \<Rightarrow> bool" where
  "parented root A g r \<longleftrightarrow>
     (\<forall>i x. threads A i = Some x \<longrightarrow> x \<noteq> Exited \<longrightarrow> i \<noteq> root \<longrightarrow>
       (\<exists>p st. g p = Some st \<and> i \<in> joinees st \<and> r i < r p))"

text \<open>
  The first thread creates the thread of the main job and nothing else; only that thread, \<open>t\<close>,
  runs the code behind the joins of the main job.
\<close>

definition other_finishes :: "'l job \<Rightarrow> prog set" where
  "other_finishes main_job = insert Return (\<Union>j\<in>set (kids main_job). finishes_of j)"

definition rooted :: "'l job \<Rightarrow> pid_t \<Rightarrow> (pid_t \<Rightarrow> 'l stage option) \<Rightarrow> bool" where
  "rooted main_job root g \<longleftrightarrow> g = [root \<mapsto> Busy [main_job] [] Return]
     \<or> (\<exists>t. t \<noteq> root \<and> t \<in> dom g
       \<and> (\<exists>st. g root = Some st \<and> jobs_left st = [] \<and> joinees st \<subseteq> {t})
       \<and> (\<forall>i st. g i = Some st \<longrightarrow> kid_finishes st \<subseteq> other_finishes main_job
            \<and> (i \<noteq> t \<longrightarrow> own_finish st \<subseteq> other_finishes main_job)))"

definition tracked :: "heap_globals \<Rightarrow> ('l \<Rightarrow> prog \<Rightarrow> prog) \<Rightarrow> ('l \<Rightarrow> memory \<Rightarrow> memory) \<Rightarrow> 'l job \<Rightarrow> memory
    \<Rightarrow> pid_t \<Rightarrow> atomic \<Rightarrow> bool" where
  "tracked G B eff main_job h0 root A \<longleftrightarrow> (\<exists>i. threads A i = Some Crashed)
     \<or> (\<exists>g r ls. staged G B A g \<and> accounted eff main_job h0 (heap A) g ls \<and> parented root A g r
         \<and> rooted main_job root g)"

section \<open>Steps keep track\<close>

lemma staged_put:
  assumes "staged G B A g" and "threads A' = (threads A)(i \<mapsto> x)"
    and "at_stage B st x" and "good_stage G st" and "joinees st \<subseteq> dom g"
  shows "staged G B A' (g(i \<mapsto> st))"
  unfolding staged_def
proof (intro conjI allI impI)
  show "finite (dom (g(i \<mapsto> st)))" using assms(1) by (simp add: staged_def)
  show "rel_option (at_stage B) ((g(i \<mapsto> st)) j) (threads A' j)" for j
    using assms(1-3) by (simp add: staged_def)
  show "good_stage G st'" "joinees st' \<subseteq> dom (g(i \<mapsto> st))" if "(g(i \<mapsto> st)) j = Some st'" for j st'
  proof -
    have "good_stage G st' \<and> joinees st' \<subseteq> dom g"
      using assms(1,4,5) that by (cases "j = i") (simp_all add: staged_def)
    then show "good_stage G st'" "joinees st' \<subseteq> dom (g(i \<mapsto> st))" by auto
  qed
qed

lemma stagedD:
  assumes "staged G B A g" and "g i = Some st"
  shows "good_stage G st" and "joinees st \<subseteq> dom g" and "finite (dom g)"
  using assms unfolding staged_def by blast+

lemma staged_None: "staged G B A g \<Longrightarrow> g i = None \<longleftrightarrow> threads A i = None"
  by (metis option.rel_distinct option.exhaust staged_def)

lemma staged_dom: "staged G B A g \<Longrightarrow> dom g = dom (threads A)"
  using staged_None [of G B A g] by (auto simp: set_eq_iff domIff)

lemma staged_thread:
  assumes "staged G B A g" and "threads A i = Some x"
  obtains st where "g i = Some st" and "at_stage B st x" and "good_stage G st" and "joinees st \<subseteq> dom g"
proof -
  have "rel_option (at_stage B) (g i) (Some x)" using assms by (metis staged_def)
  then obtain st where "g i = Some st" "at_stage B st x" by (auto simp: option_rel_Some2)
  moreover from this have "good_stage G st" "joinees st \<subseteq> dom g" using assms(1) by (simp_all add: staged_def)
  ultimately show ?thesis by (rule that)
qed

lemma accounted_update:
  assumes "accounted eff j0 h0 h g ls" and "finite (dom g)" and "g i = Some st"
    and "jobs_left st' = jobs_left st"
  shows "accounted eff j0 h0 h (g(i \<mapsto> st')) ls"
  using assms(1,3,4) work_left_change [OF assms(2,3), of st'] by (auto simp: accounted_def)

lemma accounted_run:
  assumes "accounted eff j0 h0 h g ls" and "finite (dom g)" and "g i = Some (Fresh (Job l js e))"
    and "jobs_left st' = js"
  shows "accounted eff j0 h0 (eff l h) (g(i \<mapsto> st')) (ls @ [l])"
proof -
  have "work_left (g(i \<mapsto> st')) + {#l#} + work st' = work_left g + work st'"
    using work_left_change [OF assms(2,3), of st'] assms(4) by simp
  then have "work_left g = add_mset l (work_left (g(i \<mapsto> st')))" by simp
  then have "mset (ls @ [l]) + work_left (g(i \<mapsto> st')) = mset ls + work_left g" by simp
  moreover have "hd (ls @ [l]) = label j0"
    using assms(1,3) by (cases ls) (fastforce simp: accounted_def)+
  moreover have "mset ls + work_left g = labels j0" using assms(1) by (simp add: accounted_def)
  ultimately show ?thesis using assms(1) by (simp add: accounted_def del: mset_append)
qed

lemma accounted_spawn:
  assumes "accounted eff j0 h0 h g ls" and "finite (dom g)" and "g i = Some (Busy (j # js) ts e)"
    and "g t = None"
  shows "accounted eff j0 h0 h (g(t \<mapsto> Fresh j, i \<mapsto> Busy js ts' e)) ls"
proof -
  have "i \<noteq> t" using assms(3,4) by auto
  then have "work_left (g(t \<mapsto> Fresh j, i \<mapsto> Busy js ts' e)) = work_left g"
    using work_left_change [of "g(t \<mapsto> Fresh j)" i "Busy (j # js) ts e" "Busy js ts' e"]
      work_left_new [OF assms(2,4), of "Fresh j"] assms(2,3) by simp
  with assms(1,3) show ?thesis by (fastforce simp: accounted_def)
qed

lemma parented_update:
  assumes "parented root A g r" and "threads A' = (threads A)(i \<mapsto> x)" and "g i = Some st"
    and "x \<noteq> Exited \<Longrightarrow> threads A i \<noteq> None \<and> threads A i \<noteq> Some Exited"
    and "\<And>j. j \<in> joinees st \<Longrightarrow> j \<notin> joinees st' \<Longrightarrow> threads A' j = Some Exited"
  shows "parented root A' (g(i \<mapsto> st')) r"
  unfolding parented_def
proof (intro allI impI)
  fix j y
  assume y: "threads A' j = Some y" "y \<noteq> Exited" "j \<noteq> root"
  then obtain z where "threads A j = Some z" "z \<noteq> Exited"
    using assms(2,4) by (cases "j = i") auto
  then obtain p sp where p: "g p = Some sp" "j \<in> joinees sp" "r j < r p"
    using assms(1) y(3) unfolding parented_def by blast
  show "\<exists>p st. (g(i \<mapsto> st')) p = Some st \<and> j \<in> joinees st \<and> r j < r p"
  proof (cases "p = i")
    case True
    then have "j \<in> joinees st'" using p(1,2) assms(3,5) y(1,2) by fastforce
    with True p(3) show ?thesis by auto
  next
    case False
    with p show ?thesis by (intro exI [of _ p]) simp
  qed
qed

lemma parented_spawn:
  assumes "parented root A g r" and "threads A i \<noteq> None" and "threads A i \<noteq> Some Exited"
    and "threads A' = (threads A)(t \<mapsto> y, i \<mapsto> x)"
    and "g i = Some st" and "joinees st' = insert t (joinees st)" and "g t = None" and "i \<noteq> t"
    and "\<And>p st. g p = Some st \<Longrightarrow> t \<notin> joinees st"
  shows "parented root A' (g(t \<mapsto> st0, i \<mapsto> st')) (r(t := r i - 1))"
  unfolding parented_def
proof (intro allI impI)
  fix j z
  assume z: "threads A' j = Some z" "z \<noteq> Exited" "j \<noteq> root"
  show "\<exists>p sp. (g(t \<mapsto> st0, i \<mapsto> st')) p = Some sp \<and> j \<in> joinees sp
      \<and> (r(t := r i - 1)) j < (r(t := r i - 1)) p"
  proof (cases "j = t")
    case True
    then show ?thesis using assms(6,8) by (intro exI [of _ i] exI [of _ st']) simp
  next
    case False
    then obtain w where "threads A j = Some w" "w \<noteq> Exited"
      using assms(2-4) z(1,2) by (cases "j = i") auto
    then obtain p sp where p: "g p = Some sp" "j \<in> joinees sp" "r j < r p"
      using assms(1) z(3) unfolding parented_def by blast
    then have "p \<noteq> t" using assms(7) by auto
    with p False assms(5,6) show ?thesis by (cases "p = i") auto
  qed
qed

lemma rooted_update:
  assumes "rooted j0 root g" and "g i = Some st" and "st' = st \<or> st \<noteq> Busy [j0] [] Return"
    and "jobs_left st = [] \<Longrightarrow> jobs_left st' = [] \<and> joinees st' \<subseteq> joinees st"
    and "own_finish st' \<subseteq> own_finish st" and "kid_finishes st' \<subseteq> kid_finishes st"
  shows "rooted j0 root (g(i \<mapsto> st'))"
proof (cases "g = [root \<mapsto> Busy [j0] [] Return]")
  case True
  then have "i = root" "st = Busy [j0] [] Return" using assms(2) by (auto split: if_splits)
  then show ?thesis using True assms(3) by (simp add: rooted_def)
next
  case False
  then obtain t where t: "t \<noteq> root" "t \<in> dom g" "\<exists>st. g root = Some st \<and> jobs_left st = [] \<and> joinees st \<subseteq> {t}"
    and finish: "\<forall>i st. g i = Some st \<longrightarrow> kid_finishes st \<subseteq> other_finishes j0
      \<and> (i \<noteq> t \<longrightarrow> own_finish st \<subseteq> other_finishes j0)"
    using assms(1) unfolding rooted_def by blast
  have "\<exists>sr. (g(i \<mapsto> st')) root = Some sr \<and> jobs_left sr = [] \<and> joinees sr \<subseteq> {t}"
    using t(3) assms(2,4) by (cases "i = root") auto
  moreover have "kid_finishes sk \<subseteq> other_finishes j0 \<and> (k \<noteq> t \<longrightarrow> own_finish sk \<subseteq> other_finishes j0)"
    if "(g(i \<mapsto> st')) k = Some sk" for k sk
    using that finish assms(2,5,6) by (cases "k = i") (fastforce, simp)
  ultimately show ?thesis using t(1,2) unfolding rooted_def by (intro disjI2 exI [of _ t]) simp
qed

lemma rooted_spawn:
  assumes "rooted j0 root g" and "g i = Some (Busy (j # js) ts e)" and "g t = None"
  shows "rooted j0 root (g(t \<mapsto> Fresh j, i \<mapsto> Busy js (ts @ [t]) e))"
proof (cases "g = [root \<mapsto> Busy [j0] [] Return]")
  case True
  then have "i = root" "t \<noteq> root" "j = j0" "js = []" "ts = []" "e = Return"
    using assms(2,3) by (auto split: if_splits)
  then show ?thesis using True unfolding rooted_def by (intro disjI2 exI [of _ t]) (auto simp: other_finishes_def)
next
  case False
  then obtain u where u: "u \<noteq> root" "u \<in> dom g" "\<exists>st. g root = Some st \<and> jobs_left st = [] \<and> joinees st \<subseteq> {u}"
    and finish: "\<And>i st. g i = Some st \<Longrightarrow> kid_finishes st \<subseteq> other_finishes j0
      \<and> (i \<noteq> u \<longrightarrow> own_finish st \<subseteq> other_finishes j0)"
    using assms(1) unfolding rooted_def by blast
  let ?g = "g(t \<mapsto> Fresh j, i \<mapsto> Busy js (ts @ [t]) e)"
  have "root \<noteq> i" "root \<noteq> t" using u(3) assms(2,3) by auto
  then have "\<exists>st. ?g root = Some st \<and> jobs_left st = [] \<and> joinees st \<subseteq> {u}" using u(3) by simp
  moreover have "kid_finishes sk \<subseteq> other_finishes j0 \<and> (k \<noteq> u \<longrightarrow> own_finish sk \<subseteq> other_finishes j0)"
    if k: "?g k = Some sk" for k sk
  proof -
    have "finishes_of j \<subseteq> other_finishes j0" using finish [OF assms(2)] by simp
    then have "own_finish (Fresh j) \<subseteq> other_finishes j0" "kid_finishes (Fresh j) \<subseteq> other_finishes j0"
      by (cases j; auto)+
    then show ?thesis using k finish [OF assms(2)] finish [of k sk] by (auto split: if_splits)
  qed
  moreover have "u \<in> dom ?g" using u(2) by simp
  ultimately show ?thesis using u(1) unfolding rooted_def by (intro disjI2 exI [of _ u]) simp
qed

section \<open>The contract of a section\<close>

text \<open>
  Whatever code \<open>c\<close> follows, the section named \<open>l\<close> runs alone to that code with the
  effect \<open>eff l\<close> on the heap.
\<close>

locale fork_join =
  fixes G :: heap_globals
    and B :: "'l \<Rightarrow> prog \<Rightarrow> prog"
    and eff :: "'l \<Rightarrow> memory \<Rightarrow> memory"
  assumes body_runs: "ends_section c \<Longrightarrow> runs G (B l c) m c (eff l m)"
begin

lemma body_only:
  assumes "runs G (B l c) m d m'" and "ends_section d" and "ends_section c"
  shows "d = c" and "m' = eff l m"
  using runs_deterministic [OF assms(1,2) body_runs [OF assms(3)] assms(3)] by blast+

lemma run_fresh:
  assumes "good_job G (Job l js e)" and "runs G (code B (Job l js e)) m d m'" and "ends_section d"
  shows "m' = eff l m" and "at_stage B (busy_or Done js [] e) (Committed d)"
proof -
  have good: "js = [] \<Longrightarrow> e = Return" using assms(1) by simp
  then have "ends_section (busy_code B js [] e)" by (cases js) simp_all
  note only = body_only [OF assms(2) [unfolded code_busy] assms(3) this]
  show "m' = eff l m" by (rule only)
  show "at_stage B (busy_or Done js [] e) (Committed d)"
    using only(1) good by (simp add: busy_or_def)
qed

text \<open>What a thread that is at a stage can do by itself.\<close>

lemma run_stage:
  assumes "at_stage B st (Running c)" and "good_stage G st" and "runs G c m d m'" and "ends_section d"
  obtains (fresh) l js e where "st = Fresh (Job l js e)" and "m' = eff l m"
      and "at_stage B (busy_or Done js [] e) (Committed d)"
    | (same) "m' = m" and "jobs_left st = []" and "joinees st = {}" and "at_stage B Done (Committed d)"
    | (busy) "m' = m" and "at_stage B st (Committed d)"
proof (cases st)
  case (Fresh j)
  then obtain l js e where j: "st = Fresh (Job l js e)" by (cases j) auto
  with assms run_fresh [of l js e m d m'] show ?thesis by (intro fresh) simp_all
next
  case (Busy js ts e)
  with assms(1) have "ends_section c" by (auto intro: busy_code_ends)
  with assms(1,3) Busy show ?thesis by (intro busy) (auto dest: runs_ended)
next
  case (Finishing e)
  with assms show ?thesis by (intro same) (auto simp: quiet_def)
next
  case Done
  with assms(1) show ?thesis by simp
qed

lemma stage_updated:
  assumes "staged G B A g" and "accounted eff j0 h0 (heap A) g ls" and "parented root A g r"
    and "g i = Some st" and "threads A i = Some y" and "\<not> ended (Some y)"
    and "threads A' = (threads A)(i \<mapsto> x)" and "heap A' = heap A" and "at_stage B st' x"
    and "good_stage G st'" and "jobs_left st' = jobs_left st" and "joinees st' \<subseteq> joinees st"
    and "\<And>j. j \<in> joinees st \<Longrightarrow> j \<notin> joinees st' \<Longrightarrow> threads A j = Some Exited"
    and "rooted j0 root g" and "st' = st \<or> st \<noteq> Busy [j0] [] Return"
    and "own_finish st' \<subseteq> own_finish st" and "kid_finishes st' \<subseteq> kid_finishes st"
  shows "tracked G B eff j0 h0 root A'"
proof -
  have live: "y \<noteq> Exited" using assms(6) by (auto simp: ended_def)
  have dom: "joinees st' \<subseteq> dom g" and fin: "finite (dom g)"
    using stagedD [OF assms(1,4)] assms(12) by blast+
  have gone: "threads A' j = Some Exited" if "j \<in> joinees st" "j \<notin> joinees st'" for j
    using assms(13) [OF that] assms(5,7) live by auto
  have "staged G B A' (g(i \<mapsto> st'))" by (rule staged_put [OF assms(1,7,9,10) dom])
  moreover have "accounted eff j0 h0 (heap A') (g(i \<mapsto> st')) ls"
    unfolding assms(8) by (rule accounted_update [OF assms(2) fin assms(4,11)])
  moreover have "parented root A' (g(i \<mapsto> st')) r"
    by (rule parented_update [OF assms(3,7,4)]) (use assms(5) live gone in auto)
  moreover have "rooted j0 root (g(i \<mapsto> st'))"
    by (rule rooted_update [OF assms(14,4,15) _ assms(16,17)]) (simp add: assms(11,12))
  ultimately show ?thesis unfolding tracked_def by blast
qed

lemma section_updated:
  assumes "staged G B A g" and "accounted eff j0 h0 (heap A) g ls" and "parented root A g r"
    and "g i = Some (Fresh (Job l js e))" and "threads A i = Some (Running c)"
    and "threads A' = (threads A)(i \<mapsto> Committed d)" and "heap A' = eff l (heap A)"
    and "at_stage B (busy_or Done js [] e) (Committed d)" and "rooted j0 root g"
  shows "tracked G B eff j0 h0 root A'"
proof -
  let ?st = "busy_or Done js [] e"
  have "good_stage G (Fresh (Job l js e))" and fin: "finite (dom g)" by (fact stagedD [OF assms(1,4)])+
  then have st: "good_stage G ?st" "joinees ?st = {}" "jobs_left ?st = js" by (auto simp: busy_or_def)
  have "staged G B A' (g(i \<mapsto> ?st))" using st(2) by (intro staged_put [OF assms(1,6,8) st(1)]) simp
  moreover have "accounted eff j0 h0 (heap A') (g(i \<mapsto> ?st)) (ls @ [l])"
    unfolding assms(7) by (rule accounted_run [OF assms(2) fin assms(4) st(3)])
  moreover have "parented root A' (g(i \<mapsto> ?st)) r"
    by (rule parented_update [OF assms(3,6,4)]) (use assms(5) st(2) in auto)
  moreover have "rooted j0 root (g(i \<mapsto> ?st))"
    by (rule rooted_update [OF assms(9,4)]) (auto simp: busy_or_def)
  ultimately show ?thesis unfolding tracked_def by blast
qed

lemma spawn_updated:
  assumes "staged G B A g" and "accounted eff j0 h0 (heap A) g ls" and "parented root A g r"
    and "g i = Some (Busy (j # js) ts e)" and "threads A i = Some (Committed c)"
    and "t \<noteq> 0" and "threads A t = None"
    and "threads A' = (threads A)(t \<mapsto> Running (code B j), i \<mapsto> Running (busy_code B js (ts @ [t]) e))"
    and "heap A' = heap A" and "rooted j0 root g"
  shows "tracked G B eff j0 h0 root A'"
proof -
  let ?st = "Busy js (ts @ [t]) e" and ?g = "g(t \<mapsto> Fresh j)"
  have good: "good_stage G (Busy (j # js) ts e)" "set ts \<subseteq> dom g" "finite (dom g)"
    using stagedD [OF assms(1,4)] by simp_all
  have new: "g t = None" using staged_None [OF assms(1)] assms(7) by simp
  have "i \<noteq> t" using assms(4) new by auto
  have A1: "threads (A\<lparr>threads := (threads A)(t \<mapsto> Running (code B j))\<rparr>)
      = (threads A)(t \<mapsto> Running (code B j))" by simp
  have fresh: "good_stage G (Fresh j)" using good(1) by simp
  have "staged G B (A\<lparr>threads := (threads A)(t \<mapsto> Running (code B j))\<rparr>) ?g"
    by (rule staged_put [OF assms(1) A1]) (use fresh in simp_all)
  then have "staged G B A' (?g(i \<mapsto> ?st))"
    by (rule staged_put) (use assms(6,8) good in auto)
  moreover have "accounted eff j0 h0 (heap A') (?g(i \<mapsto> ?st)) ls"
    unfolding assms(9) by (rule accounted_spawn [OF assms(2) good(3) assms(4) new])
  moreover have "t \<notin> joinees st" if "g p = Some st" for p st
    using assms(1) that new by (auto simp: staged_def)
  then have "parented root A' (?g(i \<mapsto> ?st)) (r(t := r i - 1))"
    by (intro parented_spawn [OF assms(3) _ _ assms(8,4) _ new \<open>i \<noteq> t\<close>]) (use assms(5) in auto)
  moreover have "rooted j0 root (?g(i \<mapsto> ?st))" by (rule rooted_spawn [OF assms(10,4) new])
  ultimately show ?thesis unfolding tracked_def by blast
qed

lemma crashed_stays: "astep G A A' \<Longrightarrow> threads A i = Some Crashed \<Longrightarrow> \<exists>i. threads A' i = Some Crashed"
  by (erule astep.cases) (auto simp: ended_def intro: exI [of _ i])

lemma tracked_step:
  assumes "tracked G B eff j0 h0 root A" and "astep G A A'"
  shows "tracked G B eff j0 h0 root A'"
proof (cases "\<exists>i. threads A i = Some Crashed")
  case True
  then show ?thesis using crashed_stays [OF assms(2)] unfolding tracked_def by blast
next
  case False
  with assms(1) obtain g r ls where inv: "staged G B A g" "accounted eff j0 h0 (heap A) g ls" "parented root A g r"
    and rooted: "rooted j0 root g"
    unfolding tracked_def by blast
  from assms(2) show ?thesis
  proof cases
    case (run_section i c d m)
    obtain st where st: "g i = Some st" "at_stage B st (Running c)" "good_stage G st"
      using staged_thread [OF inv(1) run_section(2)] by blast
    from st(2,3) run_section(3,4) show ?thesis
    proof (cases rule: run_stage)
      case (fresh l js e)
      show ?thesis
        by (rule section_updated [OF inv st(1) [unfolded fresh(1)] run_section(2) _ _ fresh(3) rooted])
          (simp_all add: run_section(1) fresh(2))
    next
      case same
      show ?thesis
        by (rule stage_updated [OF inv st(1) run_section(2) _ _ _ same(4)])
          (use same rooted in \<open>auto simp: run_section(1) ended_def\<close>)
    next
      case busy
      show ?thesis
        by (rule stage_updated [OF inv st(1) run_section(2) _ _ _ busy(2)])
          (use busy st(3) rooted in \<open>simp_all add: run_section(1) ended_def\<close>)
    qed
  next
    case (spawn i c k t)
    obtain st where st: "g i = Some st" "at_stage B st (Committed (Spawn c k))"
      using staged_thread [OF inv(1) spawn(2)] by blast
    obtain j js ts e where "st = Busy (j # js) ts e" "c = code B j" "k t = busy_code B js (ts @ [t]) e"
      using at_stage_Spawn [OF st(2)] by blast
    then show ?thesis
      using spawn_updated [OF inv _ spawn(2,3,5) _ _ rooted] st(1) spawn(1) by simp
  next
    case (await i t c)
    obtain st where st: "g i = Some st" "at_stage B st (Committed (Await t c))" "good_stage G st"
        "joinees st \<subseteq> dom g"
      using staged_thread [OF inv(1) await(2)] by blast
    obtain ts e where busy: "st = Busy [] (t # ts) e" "c = busy_code B [] ts e"
      using at_stage_Await [OF st(2)] by blast
    have "threads A t \<noteq> None" using staged_None [OF inv(1), of t] st(4) busy(1) by auto
    with st(3) busy(1) await(3) False have exited: "threads A t = Some Exited" by (auto simp: ended_def)
    show ?thesis
      by (rule stage_updated [OF inv st(1) await(2), where st' = "busy_or (Finishing e) [] ts e"])
        (use st(3) busy exited rooted in \<open>auto simp: await(1) ended_def busy_or_def split: if_splits\<close>)
  next
    case (exit i)
    obtain st where "g i = Some st" "at_stage B st (Committed Return)"
      using staged_thread [OF inv(1) exit(2)] by blast
    then have "g i = Some Done" using at_stage_Return by blast
    then show ?thesis
      by (rule stage_updated [OF inv _ exit(2), where st' = Done and x = Exited])
        (use rooted in \<open>simp_all add: exit(1) ended_def\<close>)
  next
    case (crash i x)
    then show ?thesis by (auto simp: tracked_def)
  qed
qed

end

sublocale fork_join \<subseteq> steps: invariant "astep G" "tracked G B eff j0 h0 root" for j0 h0 root
  by unfold_locales (rule tracked_step)

section \<open>When the program has ended\<close>

lemma tracked_start:
  assumes "good_job G j0"
  shows "tracked G B eff j0 h0 i \<lparr>heap = h0, threads = [i \<mapsto> Running (wrapped_main (code B j0))]\<rparr>"
proof -
  let ?g = "[i \<mapsto> Busy [j0] [] Return]" and ?A = "\<lparr>heap = h0, threads = [i \<mapsto> Running (wrapped_main (code B j0))]\<rparr>"
  have "staged G B ?A ?g" using assms by (simp add: staged_def wrapped_main_def)
  moreover have "accounted eff j0 h0 (heap ?A) ?g []" by (simp add: accounted_def work_left_def)
  moreover have "parented i ?A ?g (\<lambda>_. 0)" by (simp add: parented_def)
  moreover have "rooted j0 i ?g" by (simp add: rooted_def)
  ultimately show ?thesis unfolding tracked_def by blast
qed

text \<open>
  A thread that has not exited has a creator that has not: a set of threads that holds the first
  thread and with a creator the threads it has yet to join holds all that are alive.
\<close>

lemma live_within:
  assumes "finite (dom g)" and "staged G B A g" and "parented root A g r" and "root \<in> X"
    and "\<And>p st t. p \<in> X \<Longrightarrow> g p = Some st \<Longrightarrow> threads A p \<noteq> Some Exited \<Longrightarrow> t \<in> joinees st \<Longrightarrow> t \<in> X"
    and "threads A i = Some x" and "x \<noteq> Exited"
  shows "i \<in> X"
proof (rule ccontr)
  let ?live = "{i. threads A i \<notin> {None, Some Exited} \<and> i \<notin> X}"
  assume "i \<notin> X"
  then have "?live \<noteq> {}" using assms(6,7) by auto
  moreover have "?live \<subseteq> dom g" unfolding staged_dom [OF assms(2)] by auto
  then have fin: "finite ?live" using assms(1) finite_subset by blast
  ultimately have "Max (r ` ?live) \<in> r ` ?live" by (intro Max_in) auto
  then obtain k where k: "k \<in> ?live" and max: "r k = Max (r ` ?live)"
    by (metis (no_types, lifting) imageE)
  then obtain y where "threads A k = Some y" "y \<noteq> Exited" "k \<noteq> root" using assms(4) by auto
  then obtain p st where p: "g p = Some st" "k \<in> joinees st" "r k < r p"
    using assms(3) unfolding parented_def by blast
  have "threads A p \<noteq> None" using staged_None [OF assms(2)] p(1) by (metis option.distinct(1))
  then obtain z where z: "threads A p = Some z" by blast
  then have "at_stage B st z"
    using staged_thread [OF assms(2) z] p(1) by (metis option.inject)
  then have "z \<noteq> Exited" using p(2) by (cases st) auto
  moreover have "p \<notin> X" using assms(5) [OF _ p(1) _ p(2)] k z \<open>z \<noteq> Exited\<close> by auto
  ultimately have "r p \<in> r ` ?live" using z by (intro imageI) simp
  then have "r p \<le> r k" unfolding max by (rule Max_ge [OF finite_imageI [OF fin]])
  with p(3) show False by simp
qed

lemma all_exited:
  assumes "finite (dom g)" and "staged G B A g" and "parented root A g r" and "threads A root = Some Exited"
  shows "threads A i \<in> {None, Some Exited}"
proof (rule ccontr)
  assume "threads A i \<notin> {None, Some Exited}"
  then obtain x where x: "threads A i = Some x" "x \<noteq> Exited" by auto
  have "i \<in> {root}" by (rule live_within [OF assms(1-3) _ _ x]) (use assms(4) in auto)
  then show False using x assms(4) by simp
qed

lemma tracked_end:
  assumes "tracked G B eff j0 h0 root A" and "threads A root = Some Exited"
    and "\<And>i. threads A i \<noteq> Some Crashed"
  shows "(\<forall>i. threads A i \<in> {None, Some Exited})
    \<and> (\<exists>ls. mset ls = labels j0 \<and> hd ls = label j0 \<and> heap A = fold eff ls h0)"
proof -
  from assms(1,3) obtain g r ls where inv: "staged G B A g" "accounted eff j0 h0 (heap A) g ls" "parented root A g r"
    unfolding tracked_def by blast
  have fin: "finite (dom g)" using inv(1) by (simp add: staged_def)
  note exited = all_exited [OF fin inv(1,3) assms(2)]
  have "work (the (g i)) = {#}" if "i \<in> dom g" for i
  proof -
    have "threads A i \<noteq> None" using that unfolding staged_dom [OF inv(1)] by blast
    then have "threads A i = Some Exited" using exited [of i] by auto
    then obtain st where "g i = Some st" "at_stage B st Exited" using staged_thread [OF inv(1)] by blast
    then show ?thesis by (cases st) simp_all
  qed
  then have "work_left g = {#}" by (simp add: work_left_def)
  then have "mset ls = labels j0" "heap A = fold eff ls h0" using inv(2) by (simp_all add: accounted_def)
  moreover have "ls \<noteq> []" using calculation(1) by (cases j0) auto
  then have "hd ls = label j0" using inv(2) by (simp add: accounted_def)
  ultimately show ?thesis using exited by blast
qed

text \<open>No process has crashed, and the first process has exited.\<close>

definition completed :: "sys \<Rightarrow> sys \<Rightarrow> bool" where
  "completed s0 s \<longleftrightarrow> (\<forall>i t. procs s i = Some t \<longrightarrow> abs_thread t \<noteq> Crashed)
     \<and> (\<forall>i. procs s0 i \<noteq> None \<longrightarrow> (\<exists>t. procs s i = Some t \<and> \<not> alive t))"

text \<open>No process has crashed; and some process runs the section that begins with the code \<open>c\<close>.\<close>

definition no_crash :: "sys \<Rightarrow> bool" where
  "no_crash s \<longleftrightarrow> (\<forall>i t. procs s i = Some t \<longrightarrow> abs_thread t \<noteq> Crashed)"

definition at_code :: "prog \<Rightarrow> sys \<Rightarrow> bool" where
  "at_code c s \<longleftrightarrow> (\<exists>i t. procs s i = Some t \<and> abs_thread t = Running c)"

lemma completed_threads:
  assumes "completed s0 s" and "procs s0 i \<noteq> None"
  shows "threads (abs_sys G s) i = Some Exited" and "threads (abs_sys G s) k \<noteq> Some Crashed"
proof -
  obtain t where t: "procs s i = Some t" "\<not> alive t" "abs_thread t \<noteq> Crashed"
    using assms by (auto simp: completed_def)
  then show "threads (abs_sys G s) i = Some Exited"
    using abs_thread_dead [OF t(2)] abs_threads [OF t(1)] by metis
  show "threads (abs_sys G s) k \<noteq> Some Crashed"
    using assms(1) by (auto simp: completed_def abs_sys_def)
qed

lemma exited_heap:
  assumes "\<And>i. threads (abs_sys G s) i \<in> {None, Some Exited}"
  shows "heap (abs_sys G s) = heap_view G (shd s)"
proof -
  have "committing t = None" if "procs s i = Some t" for i t
    using assms [of i] that by (auto simp: abs_sys_def abs_thread_def where_is_def committing_def
        split: if_splits pc.splits)
  then have "pending s = None" by (auto simp: pending_def split: option.split bind_split)
  then show ?thesis by (simp add: abs_sys_def fun_eq_iff final_heap_def)
qed

context fork_join
begin

text \<open>The thread that runs the code behind the joins of the main job is the last one at work.\<close>

lemma finishing_stage:
  assumes "at_stage B st (Running c)" and "good_stage G st" and "quiet G c" and "\<not> ends_section c"
    and "\<And>l. \<exists>m. eff l m \<noteq> m"
  shows "st = Finishing c"
proof (cases st)
  case (Fresh j)
  obtain l js e where j: "j = Job l js e" by (cases j)
  then have "c = code B (Job l js e)" using assms(1) Fresh by simp
  then have c: "c = B l (busy_code B js [] e)" by (simp only: code_busy)
  have "ends_section (busy_code B js [] e)" using assms(2) Fresh j by (cases js) auto
  moreover obtain m where "eff l m \<noteq> m" using assms(5) by blast
  ultimately show ?thesis using body_runs assms(3) unfolding c quiet_def by blast
next
  case (Busy js ts e)
  then show ?thesis using assms(1,4) busy_code_ends by auto
qed (use assms(1) in auto)

lemma tracked_finishing:
  assumes "tracked G B eff j0 h0 root A" and "\<And>i. threads A i \<noteq> Some Crashed"
    and "threads A k = Some (Running c)" and "quiet G c" and "\<not> ends_section c"
    and "c \<notin> other_finishes j0" and "\<And>l. \<exists>m. eff l m \<noteq> m"
  shows "\<exists>ls. mset ls = labels j0 \<and> hd ls = label j0 \<and> heap A = fold eff ls h0"
proof -
  from assms(1,2) obtain g r ls where inv: "staged G B A g" "accounted eff j0 h0 (heap A) g ls" "parented root A g r"
    and rooted: "rooted j0 root g"
    unfolding tracked_def by blast
  have fin: "finite (dom g)" using inv(1) by (simp add: staged_def)
  have k: "g k = Some (Finishing c)"
    using staged_thread [OF inv(1) assms(3)] finishing_stage assms(4,5,7) by metis
  then have "g \<noteq> [root \<mapsto> Busy [j0] [] Return]" by (auto split: if_splits)
  then obtain t st where st: "g root = Some st" "jobs_left st = []" "joinees st \<subseteq> {t}"
    and finish: "\<forall>i st. g i = Some st \<longrightarrow> i \<noteq> t \<longrightarrow> own_finish st \<subseteq> other_finishes j0"
    using rooted unfolding rooted_def by blast
  then have t: "t = k" using k assms(6) by fastforce
  have "work (the (g i)) = {#}" if i: "i \<in> dom g" for i
  proof -
    have "threads A i \<noteq> None" using i unfolding staged_dom [OF inv(1)] by blast
    then obtain x where x: "threads A i = Some x" by blast
    show ?thesis
    proof (cases "x = Exited")
      case True
      then obtain si where "g i = Some si" "at_stage B si Exited" using staged_thread [OF inv(1) x] by blast
      then show ?thesis by (cases si) simp_all
    next
      case False
      have "i \<in> {root, k}"
        by (rule live_within [OF fin inv(1,3) _ _ x False]) (use st k t in auto)
      then show ?thesis using st(1,2) k by auto
    qed
  qed
  then have "work_left g = {#}" by (simp add: work_left_def)
  then have "mset ls = labels j0" "heap A = fold eff ls h0" using inv(2) by (simp_all add: accounted_def)
  moreover have "ls \<noteq> []" using calculation(1) by (cases j0) auto
  then have "hd ls = label j0" using inv(2) by (simp add: accounted_def)
  ultimately show ?thesis by blast
qed

lemma run_tracked:
  assumes "good_job G j0" and "initial (wrapped_main (code B j0)) s0" and "heap_aligned G" and "live vp"
    and "sys_run no_order G vp s0 n s"
  obtains i where "tracked G B eff j0 (heap_view G (shd s0)) i (abs_sys G s)" and "procs s0 i \<noteq> None"
proof -
  have run: "(astep G)\<^sup>*\<^sup>* (abs_sys G s0) (abs_sys G s)"
    using serial.refines [OF assms(5) [unfolded sys_run_def] initial_serial(1) [OF assms(2-4)]] by simp
  obtain i where i: "abs_sys G s0 = \<lparr>heap = heap_view G (shd s0), threads = [i \<mapsto> Running (wrapped_main (code B j0))]\<rparr>"
    using initial_serial(2) [OF assms(2-4)] by blast
  have "procs s0 i \<noteq> None" using arg_cong [OF i, of "\<lambda>A. threads A i"] by (auto simp: abs_sys_def)
  with steps.reachable [OF run [unfolded i] tracked_start [OF assms(1)]] show ?thesis by (rule that)
qed

lemma result_behind_joins:
  assumes "good_job G j0" and "initial (wrapped_main (code B j0)) s0" and "heap_aligned G" and "live vp"
    and "sys_run no_order G vp s0 n s" and "no_crash s" and "at_code (finish j0) s" and "mutex (shd s) = None"
    and "\<not> ends_section (finish j0)" and "finish j0 \<notin> other_finishes j0" and "\<And>l. \<exists>m. eff l m \<noteq> m"
  shows "\<exists>ls. mset ls = labels j0 \<and> hd ls = label j0
      \<and> heap_view G (shd s) = fold eff ls (heap_view G (shd s0))"
proof -
  obtain i where tracked: "tracked G B eff j0 (heap_view G (shd s0)) i (abs_sys G s)"
    by (rule run_tracked [OF assms(1-5)])
  obtain k where k: "threads (abs_sys G s) k = Some (Running (finish j0))"
    using assms(7) by (auto simp: at_code_def abs_sys_def)
  have alive: "threads (abs_sys G s) j \<noteq> Some Crashed" for j
    using assms(6) by (auto simp: no_crash_def abs_sys_def)
  have "quiet G (finish j0)" using assms(1) by (cases j0) simp
  moreover have "heap (abs_sys G s) = heap_view G (shd s)"
    using pending_free [OF assms(8)] by (simp add: abs_sys_def final_heap_def fun_eq_iff)
  ultimately show ?thesis using tracked_finishing [OF tracked alive k _ assms(9-11)] by metis
qed

lemma program_result:
  assumes "good_job G j0" and "initial (wrapped_main (code B j0)) s0" and "heap_aligned G" and "live vp"
    and "sys_run no_order G vp s0 n s" and "completed s0 s"
  shows "\<exists>ls. mset ls = labels j0 \<and> hd ls = label j0
      \<and> heap_view G (shd s) = fold eff ls (heap_view G (shd s0))"
    and "heap (abs_sys G s) = heap_view G (shd s)"
proof -
  obtain i where tracked: "tracked G B eff j0 (heap_view G (shd s0)) i (abs_sys G s)" and "procs s0 i \<noteq> None"
    by (rule run_tracked [OF assms(1-5)])
  from completed_threads [OF assms(6) this(2), of G]
  have ended: "threads (abs_sys G s) i = Some Exited" "threads (abs_sys G s) k \<noteq> Some Crashed" for k
    by blast+
  from tracked_end [OF tracked ended]
  show heap: "heap (abs_sys G s) = heap_view G (shd s)" by (intro exited_heap) blast
  from tracked_end [OF tracked ended]
  show "\<exists>ls. mset ls = labels j0 \<and> hd ls = label j0
      \<and> heap_view G (shd s) = fold eff ls (heap_view G (shd s0))"
    unfolding heap [symmetric] by blast
qed

end

end
