(* ===== verification/Completion.thy ===== *)
theory Completion
  imports Fork_Join Runs
begin

text \<open>
  Fork-join programs can run to their end: there is a schedule, every thread in turn while the
  others stand still, under which all sections commit, all joins return and all processes exit,
  in a bounded number of steps. It also shows that what \<open>Fork_Join\<close> says of completed runs
  is not said of nothing.
\<close>

section \<open>The schedule\<close>

fun plain :: "'l job \<Rightarrow> bool" where
  "plain (Job l js e) \<longleftrightarrow> e = Return \<and> (\<forall>j\<in>set js. plain j)"

text \<open>The heap after a job, and the number of steps, when \<open>acc l\<close> is the number of accesses of a section.\<close>

fun job_effect :: "('l \<Rightarrow> memory \<Rightarrow> memory) \<Rightarrow> 'l job \<Rightarrow> memory \<Rightarrow> memory" where
  "job_effect eff (Job l js e) m = fold (job_effect eff) js (eff l m)"

fun job_steps :: "('l \<Rightarrow> nat) \<Rightarrow> nat \<Rightarrow> 'l job \<Rightarrow> nat" where
  "job_steps acc n (Job l js e) = 6 * acc l + 6 * n + 27 + (\<Sum>j\<leftarrow>js. job_steps acc n j + 29)"

definition exited :: "thread \<Rightarrow> bool" where
  "exited t \<longleftrightarrow> \<not> alive t \<and> pc t = After \<and> cur t = Return"

definition gone :: "sys \<Rightarrow> pid_t \<Rightarrow> pid_t \<Rightarrow> bool" where
  "gone s i k \<longleftrightarrow> procs s 0 = None \<and> (k = 0 \<or> (\<exists>u. procs s k = Some u \<and> exited u \<and> parent u = i))"

text \<open>What the run of thread \<open>i\<close> and its descendants leaves alone.\<close>

definition keeps :: "pid_t \<Rightarrow> sys \<Rightarrow> sys \<Rightarrow> bool" where
  "keeps i s s' \<longleftrightarrow> (\<forall>k u. procs s k = Some u \<longrightarrow> k \<noteq> i \<longrightarrow> procs s' k = Some u)
     \<and> (\<forall>k u. procs s' k = Some u \<longrightarrow> procs s k = None \<longrightarrow> k \<noteq> 0 \<and> exited u)
     \<and> procs s i \<noteq> None \<and> procs s' i \<noteq> None \<and> (finite (dom (procs s)) \<longrightarrow> finite (dom (procs s')))"

lemma gone_waits: "gone s i k \<Longrightarrow> wait_returns s i k"
  by (auto simp: gone_def exited_def wait_returns_def waitpid_def kill0_def WaitExited_def
      split: option.split)

lemma keepsD:
  assumes "keeps i s s'"
  shows "procs s k = Some u \<Longrightarrow> k \<noteq> i \<Longrightarrow> procs s' k = Some u"
    and "procs s' k = Some u \<Longrightarrow> procs s k = None \<Longrightarrow> k \<noteq> 0 \<and> exited u"
    and "procs s 0 = None \<Longrightarrow> procs s' 0 = None"
    and "finite (dom (procs s)) \<Longrightarrow> finite (dom (procs s'))"
    and "procs s i \<noteq> None" and "procs s' i \<noteq> None"
  using assms unfolding keeps_def by (blast, blast, metis option.exhaust, blast, blast, blast)

lemma keepsI:
  assumes "\<And>k u. procs s k = Some u \<Longrightarrow> k \<noteq> i \<Longrightarrow> procs s' k = Some u"
    and "\<And>k u. procs s' k = Some u \<Longrightarrow> procs s k = None \<Longrightarrow> k \<noteq> 0 \<and> exited u"
    and "procs s i \<noteq> None" and "procs s' i \<noteq> None" and "finite (dom (procs s)) \<Longrightarrow> finite (dom (procs s'))"
  shows "keeps i s s'"
  using assms unfolding keeps_def by blast

lemma keeps_trans:
  assumes "keeps i s s'" and "keeps i s' s''"
  shows "keeps i s s''"
proof (rule keepsI)
  note a = keepsD [OF assms(1)] and b = keepsD [OF assms(2)]
  show "procs s'' k = Some u" if "procs s k = Some u" "k \<noteq> i" for k u
    using a(1) b(1) that by blast
  show "k \<noteq> 0 \<and> exited u" if "procs s'' k = Some u" "procs s k = None" for k u
  proof (cases "procs s' k")
    case None
    then show ?thesis using b(2) that(1) by blast
  next
    case (Some v)
    have "k \<noteq> i" using a(5) that(2) by auto
    then have "v = u" using b(1) [OF Some] that(1) by simp
    then show ?thesis using a(2) [OF Some that(2)] by simp
  qed
  show "procs s i \<noteq> None" "procs s'' i \<noteq> None" by (fact a(5) b(6))+
  show "finite (dom (procs s''))" if "finite (dom (procs s))" using a(4) b(4) that by blast
qed

lemma gone_keeps:
  assumes "gone s i k" and "keeps i s s'" and "procs s i = Some t" and "alive t"
  shows "gone s' i k"
  using assms(1,3,4) keepsD(1,3) [OF assms(2)] by (fastforce simp: gone_def exited_def)

text \<open>A process behind a section, with the mutex free.\<close>

definition behind :: "sys \<Rightarrow> pid_t \<Rightarrow> thread \<Rightarrow> bool" where
  "behind s i t \<longleftrightarrow> procs s i = Some t \<and> alive t \<and> pc t = After \<and> no_copies (gp t)
     \<and> mutex (shd s) = None \<and> vm_wf (global_page_version (shd s))"

lemma over_behind: "section_over G s0 i t0 d m s t \<Longrightarrow> behind s i t \<and> cur t = d"
  by (simp add: section_over_def behind_def)

lemma behind_over: "behind s i t \<Longrightarrow> section_over G s i t (cur t) (heap_view G (shd s)) s t"
  by (auto simp: section_over_def behind_def)

lemma over_keeps: "section_over G s i t d m s' t' \<Longrightarrow> procs s i \<noteq> None \<Longrightarrow> keeps i s s'"
  by (intro keepsI) (auto simp: section_over_def split: if_splits)

lemma set_proc_keeps: "procs s i \<noteq> None \<Longrightarrow> procs s' = (procs s)(i \<mapsto> t) \<Longrightarrow> keeps i s s'"
  by (intro keepsI) (auto split: if_splits)

section \<open>One thread and its descendants\<close>

text \<open>
  \<open>idles\<close>: a section without accesses. \<open>creates\<close>: one round of a loop that creates threads, the
  new thread run to its end. \<open>joins\<close>: one round of a loop that joins them.
\<close>

lemma idles:
  assumes "ready s i t" and "heap_aligned G" and "live vp" and "ends_section (cur t)"
  shows "\<exists>s' t'. within 8 (sys_step no_order G vp) s s' \<and> behind s' i t' \<and> cur t' = cur t
    \<and> parent t' = parent t \<and> predecessor (gp t') = predecessor (gp t) \<and> keeps i s s'
    \<and> heap_view G (shd s') = heap_view G (shd s)"
proof -
  obtain s' t' where s': "within 8 (sys_step no_order G vp) s s'"
      "section_over G s i t (cur t) (heap_view G (shd s)) s' t'"
    using idle_section [OF assms] by blast
  have "keeps i s s'" using over_keeps [OF s'(2)] assms(1) by (simp add: ready_def)
  with s' over_behind [OF s'(2)] show ?thesis by (auto simp: section_over_def)
qed

lemma joins:
  assumes "behind s i t" and "cur t = Await k c" and "gone s i k"
  shows "\<exists>s' t'. within 2 (sys_step no_order G vp) s s' \<and> ready s' i t' \<and> cur t' = c
    \<and> parent t' = parent t \<and> predecessor (gp t') = predecessor (gp t) \<and> keeps i s s' \<and> shd s' = shd s
    \<and> (k \<noteq> 0 \<longrightarrow> reaped s' = insert k (reaped s))"
proof -
  let ?t = "t\<lparr>pc := Join_Wait\<rparr>" and ?t' = "t\<lparr>pc := Save\<rparr>"
  let ?s = "set_proc i ?t s"
  let ?s' = "set_proc i (?t\<lparr>cur := c, pc := Save\<rparr>) (?s\<lparr>reaped := collect ?s i k\<rparr>)"
  have t: "procs s i = Some t" "alive t" "pc t = After" using assms(1) by (simp_all add: behind_def)
  have first: "sys_step no_order G vp s ?s"
    using sys_step.thread [OF t(1,2) tstep.join [OF t(3) assms(2)], of no_order G vp] by simp
  have "gone ?s i k" by (rule gone_keeps [OF assms(3) set_proc_keeps t(1,2)]) (simp_all add: t)
  then have "wait_returns ?s i k" by (rule gone_waits)
  then have second: "sys_step no_order G vp ?s ?s'"
    using sys_step.joined [of ?s i ?t k c no_order G vp] t assms(2) by simp
  have "within 2 (sys_step no_order G vp) s ?s'"
    using within_next [OF within_step [where R = "sys_step no_order G vp" and b = 0, OF first] second]
    by (simp add: numeral_2_eq_2)
  moreover have "keeps i s ?s'" by (rule set_proc_keeps [where t = "?t\<lparr>cur := c, pc := Save\<rparr>"]) (simp_all add: t)
  moreover have "collect ?s i k = insert k (reaped s)" if "k \<noteq> 0"
  proof -
    obtain u where u: "procs s k = Some u" "\<not> alive u" "parent u = i"
      using assms(3) \<open>k \<noteq> 0\<close> by (auto simp: gone_def exited_def)
    then have "k \<noteq> i" using t(1,2) by auto
    with u \<open>k \<noteq> 0\<close> show ?thesis by (simp add: collect_def waitpid_def insert_absorb)
  qed
  moreover have "ready ?s' i (?t\<lparr>cur := c, pc := Save\<rparr>)" using assms(1) by (simp add: ready_def behind_def)
  ultimately show ?thesis
    by (intro exI [of _ ?s'] exI [of _ "?t\<lparr>cur := c, pc := Save\<rparr>"]) simp
qed

section \<open>All threads\<close>

definition finishes :: "heap_globals \<Rightarrow> prog \<Rightarrow> memory \<Rightarrow> nat \<Rightarrow> bool" where
  "finishes G e m k \<longleftrightarrow> ((local_step G) ^^ k) (e, m) (Return, m)"

lemma finishes_Return [simp]: "finishes G Return m 0"
  by (simp add: finishes_def)

text \<open>Thread \<open>i\<close> has run job \<open>j\<close>, descendants included, to the end.\<close>

definition ran :: "heap_globals \<Rightarrow> ('l \<Rightarrow> memory \<Rightarrow> memory) \<Rightarrow> pid_t \<Rightarrow> pid_t \<Rightarrow> 'l job \<Rightarrow> sys \<Rightarrow> sys \<Rightarrow> bool" where
  "ran G eff i creator j s s' \<longleftrightarrow> keeps i s s' \<and> mutex (shd s') = None
     \<and> vm_wf (global_page_version (shd s'))
     \<and> heap_view G (shd s') = job_effect eff j (heap_view G (shd s))
     \<and> (\<exists>t'. procs s' i = Some t' \<and> exited t' \<and> parent t' = creator)"

text \<open>Sections with a bound on the number of accesses.\<close>

locale counted_sections =
  fixes G :: heap_globals
    and B :: "'l \<Rightarrow> prog \<Rightarrow> prog"
    and eff :: "'l \<Rightarrow> memory \<Rightarrow> memory"
    and acc :: "'l \<Rightarrow> nat"
  assumes counted: "ends_section c \<Longrightarrow> \<exists>k\<le>acc l. ((local_step G) ^^ k) (B l c, m) (c, eff l m)"
    and aligned: "heap_aligned G"
begin

definition completes_from :: "view_policy \<Rightarrow> nat \<Rightarrow> 'l job \<Rightarrow> memory \<Rightarrow> bool" where
  "completes_from vp n j h \<longleftrightarrow> (\<forall>s i t. ready s i t \<longrightarrow> cur t = code B j \<longrightarrow>
     gone s i (predecessor (gp t)) \<longrightarrow> finite (dom (procs s)) \<longrightarrow> heap_view G (shd s) = h \<longrightarrow>
     (\<exists>s'. within (job_steps acc n j) (sys_step True G vp) s s' \<and> ran G eff i (parent t) j s s'))"

abbreviation completes :: "view_policy \<Rightarrow> nat \<Rightarrow> 'l job \<Rightarrow> bool" where
  "completes vp n j \<equiv> \<forall>h. completes_from vp n j h"

lemma creates:
  assumes "behind s i t" and "cur t = Spawn (code B j) k" and "completes_from vp n j (heap_view G (shd s))"
    and "finite (dom (procs s))" and "procs s 0 = None"
  shows "\<exists>s' t'. within (Suc (job_steps acc n j)) (sys_step True G vp) s s' \<and> ready s' i t'
    \<and> cur t' = k (predecessor (gp t')) \<and> gone s' i (predecessor (gp t')) \<and> parent t' = parent t
    \<and> keeps i s s' \<and> heap_view G (shd s') = job_effect eff j (heap_view G (shd s))"
proof -
  let ?R = "sys_step True G vp"
  obtain c where c: "c \<noteq> 0" "procs s c = None"
    using ex_new_if_finite [OF infinite_UNIV_nat, of "insert 0 (dom (procs s))"] assms(4) by auto
  have t: "procs s i = Some t" "alive t" using assms(1) by (simp_all add: behind_def)
  have "i \<noteq> c" using t(1) c(2) by auto
  let ?p = "parent_thread c (k c) t" and ?c = "child_thread True i c (code B j) t"
  let ?s = "set_proc i ?p (set_proc c ?c s)"
  note fork = fork_ready [OF behind_over [OF assms(1), unfolded assms(2)] c, where no_order = True]
  have procs: "procs ?s = (procs s)(c \<mapsto> ?c, i \<mapsto> ?p)" by simp
  have "i \<noteq> 0" using t(1) assms(5) by (metis option.distinct(1))
  then have "gone ?s c (predecessor (gp ?c))" using c(1) assms(5) by (simp add: gone_def)
  moreover have "finite (dom (procs ?s))" using assms(4) by simp
  ultimately obtain s' where s': "within (job_steps acc n j) ?R ?s s'" "ran G eff c (parent ?c) j ?s s'"
    using assms(3) fork(3) unfolding completes_from_def by (metis fork_simps(4) set_proc_simps(2))
  note keep = keepsD [OF s'(2) [unfolded ran_def, THEN conjunct1]]
  obtain u where u: "procs s' c = Some u" "exited u" "parent u = i" using s'(2) by (auto simp: ran_def)
  have p: "procs s' i = Some ?p" using keep(1) [of i ?p] \<open>i \<noteq> c\<close> by simp
  have "procs s' 0 = None" using keep(3) \<open>i \<noteq> 0\<close> c(1) assms(5) by simp
  then have "gone s' i c" using u by (auto simp: gone_def)
  moreover have "keeps i s s'"
  proof (rule keepsI)
    show "procs s' l = Some v" if "procs s l = Some v" "l \<noteq> i" for l v
      using that c(2) by (intro keep(1)) auto
    show "l \<noteq> 0 \<and> exited v" if "procs s' l = Some v" "procs s l = None" for l v
    proof (cases "l = c")
      case True
      then show ?thesis using that(1) u(1,2) c(1) by simp
    next
      case False
      then have "procs ?s l = None" using that(2) t(1) by auto
      then show ?thesis using keep(2) that(1) by blast
    qed
    show "finite (dom (procs s'))" using assms(4) by (intro keep(4)) simp
  qed (simp_all add: t p)
  moreover have "within (Suc (job_steps acc n j)) ?R s s'"
    by (rule within_first [where R = ?R, OF fork(1) s'(1)])
  moreover have "ready s' i ?p" using fork(2) s'(2) p by (simp add: ready_def ran_def)
  moreover have "heap_view G (shd s') = job_effect eff j (heap_view G (shd s))"
    using s'(2) by (simp add: ran_def)
  ultimately show ?thesis by (intro exI [of _ s'] exI [of _ ?p]) simp
qed

lemma join_loop:
  assumes "live vp" and "ts \<noteq> []" and "behind s i t" and "cur t = busy_code B [] ts e" and "\<forall>k\<in>set ts. gone s i k"
    and "gone s i (predecessor (gp t))"
  shows "\<exists>s' t'. within (15 * length ts) (sys_step True G vp) s s' \<and> ready s' i t' \<and> cur t' = e
    \<and> parent t' = parent t \<and> gone s' i (predecessor (gp t')) \<and> keeps i s s'
    \<and> heap_view G (shd s') = heap_view G (shd s)"
  using assms(2-6)
proof (induction ts arbitrary: s t)
  case (Cons k ts)
  let ?R = "sys_step True G vp"
  have "cur t = Await k (busy_code B [] ts e)" "gone s i k" using Cons.prems by simp_all
  from joins [OF Cons.prems(2) this] obtain s1 t1
    where s1: "within 2 ?R s s1" "ready s1 i t1" "cur t1 = busy_code B [] ts e" "parent t1 = parent t"
      "predecessor (gp t1) = predecessor (gp t)" "keeps i s s1" "shd s1 = shd s"
    by blast
  have t: "procs s i = Some t" "alive t" using Cons.prems(2) by (simp_all add: behind_def)
  have gone1: "gone s1 i l" if "gone s i l" for l by (rule gone_keeps [OF that s1(6) t])
  show ?case
  proof (cases "ts = []")
    case True
    have "within (15 * length (k # ts)) ?R s s1" using s1(1) by (rule within_mono) (simp add: True)
    with s1 True gone1 [OF Cons.prems(5)] show ?thesis
      by (intro exI [of _ s1] exI [of _ t1]) simp
  next
    case False
    then have "ends_section (cur t1)" unfolding s1(3) by (intro busy_code_ends) simp
    from idles [OF s1(2) aligned assms(1) this] obtain s2 t2
      where s2: "within 8 ?R s1 s2" "behind s2 i t2" "cur t2 = cur t1" "parent t2 = parent t1"
        "predecessor (gp t2) = predecessor (gp t1)" "keeps i s1 s2"
        "heap_view G (shd s2) = heap_view G (shd s1)"
      by blast
    have t1: "procs s1 i = Some t1" "alive t1" using s1(2) by (simp_all add: ready_def)
    have gone2: "gone s2 i l" if "gone s i l" for l by (rule gone_keeps [OF gone1 [OF that] s2(6) t1])
    have "cur t2 = busy_code B [] ts e" using s1(3) s2(3) by simp
    moreover have "\<forall>k\<in>set ts. gone s2 i k" using Cons.prems(4) gone2 by simp
    moreover have "gone s2 i (predecessor (gp t2))" using gone2 [OF Cons.prems(5)] s1(5) s2(5) by simp
    ultimately obtain s3 t3
      where s3: "within (15 * length ts) ?R s2 s3" "ready s3 i t3" "cur t3 = e" "parent t3 = parent t2"
        "gone s3 i (predecessor (gp t3))" "keeps i s2 s3" "heap_view G (shd s3) = heap_view G (shd s2)"
      using Cons.IH [OF False s2(2)] by blast
    have "within (2 + (8 + 15 * length ts)) ?R s s3"
      using within_trans [OF s1(1) within_trans [OF s2(1) s3(1)]] .
    then have "within (15 * length (k # ts)) ?R s s3" by (rule within_mono) simp
    moreover have "keeps i s s3" using s1(6) s2(6) s3(6) keeps_trans by blast
    ultimately show ?thesis
      using s1(4,7) s2(4,7) s3 by (intro exI [of _ s3] exI [of _ t3]) simp
  qed
qed simp

lemma busy_runs:
  assumes "live vp" and "js \<noteq> [] \<or> ts \<noteq> []" and "behind s i t" and "cur t = busy_code B js ts e"
    and "\<forall>j\<in>set js. completes vp n j" and "\<forall>k\<in>set ts. gone s i k"
    and "gone s i (predecessor (gp t))" and "finite (dom (procs s))"
  shows "\<exists>s' t'. within ((\<Sum>j\<leftarrow>js. job_steps acc n j + 29) + 15 * length ts) (sys_step True G vp) s s'
    \<and> ready s' i t' \<and> cur t' = e \<and> parent t' = parent t \<and> gone s' i (predecessor (gp t')) \<and> keeps i s s'
    \<and> heap_view G (shd s') = fold (job_effect eff) js (heap_view G (shd s))"
  using assms(2-8)
proof (induction js arbitrary: s t ts)
  case Nil
  then show ?case using join_loop [OF assms(1), of ts s i t e] by simp
next
  case (Cons j js)
  let ?R = "sys_step True G vp"
  have spawn: "cur t = Spawn (code B j) (\<lambda>c. busy_code B js (ts @ [c]) e)" using Cons.prems(3) by simp
  have j: "completes_from vp n j (heap_view G (shd s))" and zero: "procs s 0 = None" using Cons.prems(4,6) by (simp_all add: gone_def)
  from creates [OF Cons.prems(2) spawn j Cons.prems(7) zero] obtain s1 t1
    where s1: "within (Suc (job_steps acc n j)) ?R s s1" "ready s1 i t1"
      "cur t1 = busy_code B js (ts @ [predecessor (gp t1)]) e" "gone s1 i (predecessor (gp t1))"
      "parent t1 = parent t" "keeps i s s1"
      "heap_view G (shd s1) = job_effect eff j (heap_view G (shd s))"
    by blast
  let ?ts = "ts @ [predecessor (gp t1)]"
  have "ends_section (cur t1)" unfolding s1(3) by (intro busy_code_ends) simp
  from idles [OF s1(2) aligned assms(1) this] obtain s2 t2
    where s2: "within 8 ?R s1 s2" "behind s2 i t2" "cur t2 = cur t1" "parent t2 = parent t1"
      "predecessor (gp t2) = predecessor (gp t1)" "keeps i s1 s2"
      "heap_view G (shd s2) = heap_view G (shd s1)"
    by blast
  have t: "procs s i = Some t" "alive t" using Cons.prems(2) by (simp_all add: behind_def)
  have t1: "procs s1 i = Some t1" "alive t1" using s1(2) by (simp_all add: ready_def)
  have gone1: "gone s1 i l" if "l \<in> set ?ts" for l
    using that gone_keeps [OF _ s1(6) t] s1(4) Cons.prems(5) by auto
  have gone2: "gone s2 i l" if "l \<in> set ?ts" for l by (rule gone_keeps [OF gone1 [OF that] s2(6) t1])
  have "finite (dom (procs s2))" using keepsD(4) [OF s1(6) Cons.prems(7)] keepsD(4) [OF s2(6)] by blast
  moreover have "cur t2 = busy_code B js ?ts e" using s1(3) s2(3) by simp
  moreover have "gone s2 i (predecessor (gp t2))" using gone2 s2(5) by simp
  ultimately obtain s3 t3
    where s3: "within ((\<Sum>j\<leftarrow>js. job_steps acc n j + 29) + 15 * length ?ts) ?R s2 s3" "ready s3 i t3"
      "cur t3 = e" "parent t3 = parent t2" "gone s3 i (predecessor (gp t3))" "keeps i s2 s3"
      "heap_view G (shd s3) = fold (job_effect eff) js (heap_view G (shd s2))"
    using Cons.IH [of ?ts s2 t2] s2(2) gone2 Cons.prems(4) by auto
  note path = within_trans [OF s1(1) within_trans [OF s2(1) s3(1)]]
  have "within ((\<Sum>j\<leftarrow>j # js. job_steps acc n j + 29) + 15 * length ts) ?R s s3"
    by (rule within_mono [OF path]) simp
  moreover have "keeps i s s3" using s1(6) s2(6) s3(6) keeps_trans by blast
  ultimately show ?case
    using s1(5,7) s2(4,7) s3 by (intro exI [of _ s3] exI [of _ t3]) simp
qed

lemma exits:
  assumes "behind s i t" and "cur t = Return"
  shows "\<exists>s' u. within 1 (sys_step no_order G vp) s s' \<and> procs s' i = Some u \<and> exited u
    \<and> parent u = parent t \<and> keeps i s s' \<and> shd s' = shd s"
proof -
  let ?s = "set_proc i (t\<lparr>alive := False\<rparr>) s"
  have "sys_step no_order G vp s ?s" using exit_step [OF behind_over [OF assms(1), unfolded assms(2)]] .
  then have "within 1 (sys_step no_order G vp) s ?s" by (intro within_one [where R = "sys_step no_order G vp"]) simp_all
  moreover have "keeps i s ?s" by (rule set_proc_keeps) (use assms(1) in \<open>simp_all add: behind_def\<close>)
  ultimately show ?thesis
    using assms by (intro exI [of _ ?s] exI [of _ "t\<lparr>alive := False\<rparr>"]) (simp add: exited_def behind_def)
qed

lemma ran_trans:
  assumes "keeps i s s1" and "keeps i s1 s'" and "mutex (shd s') = None" and "vm_wf (global_page_version (shd s'))"
    and "heap_view G (shd s') = job_effect eff j (heap_view G (shd s))"
    and "procs s' i = Some u" and "exited u" and "parent u = c"
  shows "ran G eff i c j s s'"
  using assms keeps_trans by (auto simp: ran_def)

lemma job_runs:
  assumes "live vp" and "ready s i t" and "cur t = code B (Job l js e)" and "\<forall>j\<in>set js. completes vp n j"
    and "js = [] \<longrightarrow> e = Return" and "finishes G e (job_effect eff (Job l js e) (heap_view G (shd s))) k"
    and "k \<le> n" and "gone s i (predecessor (gp t))" and "finite (dom (procs s))"
  shows "\<exists>s'. within (job_steps acc n (Job l js e)) (sys_step True G vp) s s'
    \<and> ran G eff i (parent t) (Job l js e) s s'"
proof -
  let ?R = "sys_step True G vp" and ?h = "heap_view G (shd s)"
  have ends: "ends_section (busy_code B js [] e)" using assms(5) by (cases js) simp_all
  obtain a where a: "a \<le> acc l" "((local_step G) ^^ a) (cur t, ?h) (busy_code B js [] e, eff l ?h)"
    unfolding assms(3) code_busy using counted [OF ends] by blast
  from section_commits [OF assms(2) aligned assms(1) gone_waits [OF assms(8)] a(2) ends] obtain s1 t1
    where s1: "within (6 * a + 13) ?R s s1" "section_over G s i t (busy_code B js [] e) (eff l ?h) s1 t1"
    by blast
  have t: "procs s i = Some t" "alive t" using assms(2) by (simp_all add: ready_def)
  have keep1: "keeps i s s1" by (rule over_keeps [OF s1(2)]) (simp add: t)
  have t1: "behind s1 i t1" "cur t1 = busy_code B js [] e" "heap_view G (shd s1) = eff l ?h"
      "parent t1 = parent t" "predecessor (gp t1) = predecessor (gp t)"
    using over_behind [OF s1(2)] s1(2) by (simp_all add: section_over_def)
  show ?thesis
  proof (cases "js = []")
    case True
    then have "cur t1 = Return" using t1(2) assms(5) by simp
    from exits [OF t1(1) this] obtain s2 u
      where s2: "within 1 ?R s1 s2" "procs s2 i = Some u" "exited u" "parent u = parent t1" "keeps i s1 s2"
        "shd s2 = shd s1"
      by blast
    have "within (job_steps acc n (Job l js e)) ?R s s2"
      by (rule within_mono [OF within_trans [OF s1(1) s2(1)]]) (use a(1) in simp)
    moreover have "ran G eff i (parent t) (Job l js e) s s2"
      by (rule ran_trans [OF keep1 s2(5) _ _ _ s2(2,3)])
        (use t1 s2(4,6) True in \<open>simp_all add: behind_def\<close>)
    ultimately show ?thesis by blast
  next
    case False
    have "finite (dom (procs s1))" using keepsD(4) [OF keep1 assms(9)] .
    moreover have "gone s1 i (predecessor (gp t1))" using gone_keeps [OF assms(8) keep1 t] t1(5) by simp
    ultimately obtain s2 t2
      where s2: "within ((\<Sum>j\<leftarrow>js. job_steps acc n j + 29) + 15 * length ([] :: pid_t list)) ?R s1 s2"
        "ready s2 i t2" "cur t2 = e" "parent t2 = parent t1" "gone s2 i (predecessor (gp t2))" "keeps i s1 s2"
        "heap_view G (shd s2) = fold (job_effect eff) js (heap_view G (shd s1))"
      using busy_runs [OF assms(1) _ t1(1,2) assms(4)] False by fastforce
    have heap2: "heap_view G (shd s2) = job_effect eff (Job l js e) ?h" using s2(7) t1(3) by simp
    have "((local_step G) ^^ k) (cur t2, heap_view G (shd s2)) (Return, heap_view G (shd s2))"
      using assms(6) unfolding s2(3) heap2 finishes_def .
    from section_commits [OF s2(2) aligned assms(1) gone_waits [OF s2(5)] this ends_section_simps(5)]
    obtain s3 t3
      where s3: "within (6 * k + 13) ?R s2 s3"
        "section_over G s2 i t2 Return (heap_view G (shd s2)) s3 t3"
      by blast
    have keep3: "keeps i s2 s3" by (rule over_keeps [OF s3(2)]) (use s2(2) in \<open>simp add: ready_def\<close>)
    have t3: "behind s3 i t3" "cur t3 = Return" "heap_view G (shd s3) = heap_view G (shd s2)"
        "parent t3 = parent t2"
      using over_behind [OF s3(2)] s3(2) by (simp_all add: section_over_def)
    from exits [OF t3(1,2)] obtain s4 u
      where s4: "within 1 ?R s3 s4" "procs s4 i = Some u" "exited u" "parent u = parent t3" "keeps i s3 s4"
        "shd s4 = shd s3"
      by blast
    note path = within_trans [OF s1(1) within_trans [OF s2(1) within_trans [OF s3(1) s4(1)]]]
    have "within (job_steps acc n (Job l js e)) ?R s s4"
      by (rule within_mono [OF path]) (use assms(7) a(1) in simp)
    moreover have "keeps i s1 s4" using s2(6) keep3 s4(5) keeps_trans by blast
    then have "ran G eff i (parent t) (Job l js e) s s4"
      by (rule ran_trans [OF keep1 _ _ _ _ s4(2,3)])
        (use t1(4) s2(4) t3 heap2 s4(4,6) in \<open>simp_all add: behind_def\<close>)
    ultimately show ?thesis by blast
  qed
qed

lemma plain_completes: "live vp \<Longrightarrow> plain j \<Longrightarrow> completes_from vp n j h"
proof (induction j arbitrary: h)
  case (Job l js e)
  have "e = Return" "\<forall>j\<in>set js. completes vp n j" using Job by simp_all
  note job = job_runs [OF Job.prems(1) _ _ this(2), where e = e and k = 0]
  show ?case
    unfolding completes_from_def
  proof (intro allI impI)
    fix s i t
    assume "ready s i t" "cur t = code B (Job l js e)" "gone s i (predecessor (gp t))" "finite (dom (procs s))"
    then show "\<exists>s'. within (job_steps acc n (Job l js e)) (sys_step True G vp) s s'
        \<and> ran G eff i (parent t) (Job l js e) s s'"
      by (intro job) (simp_all add: \<open>e = Return\<close>)
  qed
qed

text \<open>The whole program: the first thread creates the one that runs \<open>main\<close>, and joins it.\<close>

lemma program_completes:
  assumes "live vp" and "ready s i t" and "cur t = wrapped_main (code B (Job l js e))"
    and "predecessor (gp t) = 0" and "procs s = [i \<mapsto> t]" and "i \<noteq> 0"
    and "\<forall>j\<in>set js. plain j" and "js \<noteq> []"
    and "finishes G e (job_effect eff (Job l js e) (heap_view G (shd s))) k" and "k \<le> n"
  shows "\<exists>s'. within (job_steps acc n (Job l js e) + 52) (sys_step True G vp) s s'
    \<and> (\<forall>k u. procs s' k = Some u \<longrightarrow> exited u) \<and> procs s' i \<noteq> None
    \<and> heap_view G (shd s') = job_effect eff (Job l js e) (heap_view G (shd s))"
proof -
  let ?R = "sys_step True G vp" and ?j = "Job l js e"
  have cur: "cur t = busy_code B [?j] [] Return" using assms(3) by (simp add: wrapped_main_def)
  then have "ends_section (cur t)" by simp
  from idles [OF assms(2) aligned assms(1) this] obtain s1 t1
    where s1: "within 8 ?R s s1" "behind s1 i t1" "cur t1 = cur t" "parent t1 = parent t"
      "predecessor (gp t1) = predecessor (gp t)" "keeps i s s1" "heap_view G (shd s1) = heap_view G (shd s)"
    by blast
  have fin: "finite (dom (procs s))" and zero: "procs s 0 = None" using assms(5,6) by simp_all
  have "completes_from vp n ?j (heap_view G (shd s1))"
    unfolding completes_from_def s1(7)
  proof (intro allI impI)
    fix s2 k2 t2
    assume at: "ready s2 k2 t2" "cur t2 = code B ?j" "gone s2 k2 (predecessor (gp t2))"
      "finite (dom (procs s2))" "heap_view G (shd s2) = heap_view G (shd s)"
    show "\<exists>s'. within (job_steps acc n ?j) ?R s2 s' \<and> ran G eff k2 (parent t2) ?j s2 s'"
      by (rule job_runs [OF assms(1) at(1,2) _ _ _ assms(10) at(3,4)])
        (use assms(1,7-9) at(5) plain_completes in auto)
  qed
  from creates [OF s1(2) _ this keepsD(4) [OF s1(6) fin] keepsD(3) [OF s1(6) zero]] cur s1(3)
  obtain s2 t2
    where s2: "within (Suc (job_steps acc n ?j)) ?R s1 s2" "ready s2 i t2"
      "cur t2 = busy_code B [] [predecessor (gp t2)] Return" "gone s2 i (predecessor (gp t2))"
      "keeps i s1 s2" "heap_view G (shd s2) = job_effect eff ?j (heap_view G (shd s1))"
    by (auto simp: )
  have "ends_section (cur t2)" unfolding s2(3) by simp
  from idles [OF s2(2) aligned assms(1) this] obtain s3 t3
    where s3: "within 8 ?R s2 s3" "behind s3 i t3" "cur t3 = cur t2"
      "predecessor (gp t3) = predecessor (gp t2)" "keeps i s2 s3"
      "heap_view G (shd s3) = heap_view G (shd s2)"
    by blast
  have t2: "procs s2 i = Some t2" "alive t2" using s2(2) by (simp_all add: ready_def)
  have gone3: "gone s3 i (predecessor (gp t2))" by (rule gone_keeps [OF s2(4) s3(5) t2])
  have "cur t3 = busy_code B [] [predecessor (gp t2)] Return" using s2(3) s3(3) by simp
  from join_loop [OF assms(1) _ s3(2) this] gone3 s3(4) obtain s4 t4
    where s4: "within 15 ?R s3 s4" "ready s4 i t4" "cur t4 = Return" "keeps i s3 s4"
      "heap_view G (shd s4) = heap_view G (shd s3)"
    by auto
  have "ends_section (cur t4)" unfolding s4(3) by simp
  from idles [OF s4(2) aligned assms(1) this] obtain s5 t5
    where s5: "within 8 ?R s4 s5" "behind s5 i t5" "cur t5 = cur t4" "keeps i s4 s5"
      "heap_view G (shd s5) = heap_view G (shd s4)"
    by blast
  have "cur t5 = Return" using s4(3) s5(3) by simp
  from exits [OF s5(2) this] obtain s6 u
    where s6: "within 1 ?R s5 s6" "procs s6 i = Some u" "exited u" "keeps i s5 s6" "shd s6 = shd s5"
    by blast
  note path = within_trans [OF s1(1) within_trans [OF s2(1) within_trans [OF s3(1)
      within_trans [OF s4(1) within_trans [OF s5(1) s6(1)]]]]]
  have keep: "keeps i s s6"
    using s1(6) s2(5) s3(5) s4(4) s5(4) s6(4) keeps_trans by blast
  have "exited v" if "procs s6 k = Some v" for k v
    using that s6(2,3) keepsD(2) [OF keep that] assms(5) by (cases "k = i") auto
  moreover have "within (job_steps acc n ?j + 52) ?R s s6" by (rule within_mono [OF path]) simp
  ultimately show ?thesis
    using s1(7) s2(6) s3(6) s4(5) s5(5) s6(2,5) by (intro exI [of _ s6]) simp
qed

end

sublocale counted_sections \<subseteq> fork_join
  by unfold_locales (metis counted relpowp_imp_rtranclp runs_def)

end
