(* ===== verification/Program_Order.thy ===== *)
theory Program_Order
  imports Ordered_Sections Completion
begin

text \<open>
  The order of the ordered mode. When \<open>NO_ORDER\<close> is not defined, a fork-join program leaves
  what it would leave if creating a thread were calling its function: its sections take effect
  one after the other in the order of the program text, whatever the interleaving.
\<close>

section \<open>The order of the program\<close>

fun program_order :: "'l job \<Rightarrow> 'l list" where
  "program_order (Job l js e) = l # concat (map program_order js)"

lemma program_order_not_Nil [simp]: "program_order j \<noteq> []"
  by (cases j) simp

lemma job_effect_order: "job_effect eff j m = fold eff (program_order j) m"
proof (induction j arbitrary: m)
  case (Job l js e)
  then have "fold (job_effect eff) js h = fold eff (concat (map program_order js)) h" for h
    by (induction js arbitrary: h) simp_all
  then show ?case by simp
qed

definition todo :: "'l stage \<Rightarrow> 'l list" where
  "todo st = concat (map program_order (jobs_left st))"

lemma todo_simps [simp]:
  "todo (Fresh j) = program_order j" "todo (Busy js ts e) = concat (map program_order js)"
  "todo (Finishing e) = []" "todo Done = []"
  by (simp_all add: todo_def)

lemma todo_busy_or [simp]: "todo (busy_or Done js [] e) = concat (map program_order js)"
  by (simp add: busy_or_def)

text \<open>The list \<open>xs\<close> stands at position \<open>k\<close> of \<open>L\<close>.\<close>

definition placed :: "'l list \<Rightarrow> nat \<Rightarrow> 'l list \<Rightarrow> bool" where
  "placed L k xs \<longleftrightarrow> take (length xs) (drop k L) = xs"

lemma placed_append:
  assumes "placed L k (xs @ ys)"
  shows "placed L k xs" and "placed L (k + length xs) ys"
proof -
  have split: "take (length xs) (drop k L) @ take (length ys) (drop (length xs + k) L) = xs @ ys"
    using assms by (simp add: placed_def take_add)
  have "length (take (length xs + length ys) (drop k L)) = length xs + length ys"
    using assms by (simp add: placed_def)
  then have "length (take (length xs) (drop k L)) = length xs" by simp
  with split show "placed L k xs" "placed L (k + length xs) ys"
    by (simp_all add: placed_def append_eq_append_conv add.commute)
qed

lemma placed_Cons:
  assumes "placed L k (x # xs)"
  shows "k < length L" and "L ! k = x" and "placed L (Suc k) xs"
proof -
  have eq: "take (Suc (length xs)) (drop k L) = x # xs" using assms by (simp add: placed_def)
  then show less: "k < length L" by (cases "k < length L") simp_all
  then have "drop k L = L ! k # drop (Suc k) L" by (rule Cons_nth_drop_Suc [symmetric])
  with eq show "L ! k = x" "placed L (Suc k) xs" by (simp_all add: placed_def)
qed

section \<open>Following a run\<close>

text \<open>
  Every thread has a stretch of the program's order before it, from \<open>p i\<close> up to \<open>f i\<close>; \<open>n\<close> is the
  number of sections run. What a thread has still to do lies behind what has been run. When it may
  touch the heap, everything before its stretch has been run: either that is so already, or it comes
  after a thread whose stretch goes up to its own; and a thread that has started and still waits for
  threads has one of them right before its stretch.
\<close>

definition in_line :: "'l list \<Rightarrow> nat \<Rightarrow> (pid_t \<Rightarrow> 'l stage option) \<Rightarrow> (pid_t \<Rightarrow> nat) \<Rightarrow> pid_t \<Rightarrow> nat \<Rightarrow> nat
    \<Rightarrow> 'l stage \<Rightarrow> bool" where
  "in_line L n g f wi pi fi st \<longleftrightarrow>
     placed L pi (todo st) \<and> pi + length (todo st) = fi \<and> (todo st \<noteq> [] \<longrightarrow> n \<le> pi)
     \<and> (pi \<le> n \<or> wi \<noteq> 0 \<and> wi \<in> dom g \<and> pi \<le> f wi)
     \<and> ((\<exists>j. st = Fresh j) \<or> pi \<le> n \<or> (\<exists>t\<in>joinees st. f t = pi))"

definition apart :: "(pid_t \<Rightarrow> 'l stage option) \<Rightarrow> (pid_t \<Rightarrow> nat) \<Rightarrow> (pid_t \<Rightarrow> nat) \<Rightarrow> bool" where
  "apart g p f \<longleftrightarrow> (\<forall>i j st st'. i \<noteq> j \<longrightarrow> g i = Some st \<longrightarrow> g j = Some st' \<longrightarrow>
     todo st \<noteq> [] \<longrightarrow> todo st' \<noteq> [] \<longrightarrow> f i \<le> p j \<or> f j \<le> p i)"

definition lined_up :: "heap_globals \<Rightarrow> ('l \<Rightarrow> prog \<Rightarrow> prog) \<Rightarrow> ('l \<Rightarrow> memory \<Rightarrow> memory) \<Rightarrow> 'l list \<Rightarrow> memory
    \<Rightarrow> pid_t \<Rightarrow> atomic \<Rightarrow> order \<Rightarrow> (pid_t \<Rightarrow> 'l stage option) \<Rightarrow> (pid_t \<Rightarrow> nat) \<Rightarrow> (pid_t \<Rightarrow> nat) \<Rightarrow> nat \<Rightarrow> bool" where
  "lined_up G B eff L h0 root A w g p f n \<longleftrightarrow>
     staged G B A g \<and> n \<le> length L \<and> heap A = fold eff (take n L) h0
     \<and> root \<in> dom g \<and> f root = length L
     \<and> (\<forall>i st. g i = Some st \<longrightarrow> in_line L n g f (w i) (p i) (f i) st) \<and> apart g p f"

lemma lined_upD:
  assumes "lined_up G B eff L h0 root A w g p f n"
  shows "staged G B A g" and "n \<le> length L" and "heap A = fold eff (take n L) h0"
    and "root \<in> dom g" and "f root = length L" and "apart g p f"
    and "g i = Some st \<Longrightarrow> in_line L n g f (w i) (p i) (f i) st"
  using assms by (simp_all add: lined_up_def)

lemma apartD:
  "apart g p f \<Longrightarrow> i \<noteq> j \<Longrightarrow> g i = Some st \<Longrightarrow> g j = Some st' \<Longrightarrow> todo st \<noteq> [] \<Longrightarrow> todo st' \<noteq> [] \<Longrightarrow>
    f i \<le> p j \<or> f j \<le> p i"
  unfolding apart_def by blast

text \<open>A thread that has exited has its whole stretch behind it.\<close>

lemma exited_line:
  assumes "lined_up G B eff L h0 root A w g p f n" and "threads A i = Some Exited"
  shows "f i \<le> n"
proof -
  obtain st where st: "g i = Some st" "at_stage B st Exited"
    using staged_thread [OF lined_upD(1) [OF assms(1)] assms(2)] by blast
  then have "st = Done" by (cases st) simp_all
  with lined_upD(7) [OF assms(1) st(1)] show ?thesis by (simp add: in_line_def)
qed

definition ordered_track :: "heap_globals \<Rightarrow> ('l \<Rightarrow> prog \<Rightarrow> prog) \<Rightarrow> ('l \<Rightarrow> memory \<Rightarrow> memory) \<Rightarrow> 'l list \<Rightarrow> memory
    \<Rightarrow> pid_t \<Rightarrow> atomic \<times> order \<Rightarrow> bool" where
  "ordered_track G B eff L h0 root x \<longleftrightarrow> (\<exists>i. threads (fst x) i = Some Crashed)
     \<or> (\<exists>g p f n. lined_up G B eff L h0 root (fst x) (snd x) g p f n)"

section \<open>Steps keep the line\<close>

text \<open>A thread goes to another stage with the same sections still to run.\<close>

lemma line_stage:
  assumes inv: "lined_up G B eff L h0 root A w g p f n" and st: "g i = Some st"
    and A': "threads A' = (threads A)(i \<mapsto> x)" "heap A' = heap A"
    and new: "at_stage B st' x" "good_stage G st'" "jobs_left st' = jobs_left st" "joinees st' \<subseteq> joinees st"
    and started: "(\<exists>j. st' = Fresh j) \<or> p i \<le> n \<or> (\<exists>t\<in>joinees st'. f t = p i)"
  shows "lined_up G B eff L h0 root A' w (g(i \<mapsto> st')) p f n"
proof -
  note D = lined_upD [OF inv]
  have todo: "todo st' = todo st" using new(3) by (simp add: todo_def)
  have "joinees st' \<subseteq> dom g" using stagedD(2) [OF D(1) st] new(4) by blast
  then have "staged G B A' (g(i \<mapsto> st'))" by (rule staged_put [OF D(1) A'(1) new(1,2)])
  moreover have "in_line L n (g(i \<mapsto> st')) f (w k) (p k) (f k) s" if "(g(i \<mapsto> st')) k = Some s" for k s
    using that D(7) [of k] D(7) [OF st] started todo by (auto simp: in_line_def split: if_splits)
  moreover have "apart (g(i \<mapsto> st')) p f"
    using D(6) st todo unfolding apart_def by (metis fun_upd_apply option.inject)
  ultimately show ?thesis using D(2-5) A'(2) by (simp add: lined_up_def)
qed

text \<open>A thread whose turn it is runs its section.\<close>

lemma line_run:
  assumes inv: "lined_up G B eff L h0 root A w g p f n" and st: "g i = Some (Fresh (Job l js e))"
    and turn: "p i \<le> n"
    and A': "threads A' = (threads A)(i \<mapsto> x)" "heap A' = eff l (heap A)"
    and new: "at_stage B (busy_or Done js [] e) x"
  shows "lined_up G B eff L h0 root A' w (g(i \<mapsto> busy_or Done js [] e)) (p(i := Suc n)) f (Suc n)"
proof -
  let ?st = "busy_or Done js [] e"
  note D = lined_upD [OF inv]
  have line: "placed L (p i) (l # concat (map program_order js))"
      "p i + Suc (length (concat (map program_order js))) = f i" "n \<le> p i"
    using D(7) [OF st] by (simp_all add: in_line_def)
  then have pi: "p i = n" using turn by simp
  note place = placed_Cons [OF line(1) [unfolded pi]]
  have good: "good_stage G ?st" "joinees ?st = {}"
    using stagedD(1) [OF D(1) st] by (simp_all add: busy_or_def)
  then have "staged G B A' (g(i \<mapsto> ?st))" by (intro staged_put [OF D(1) A'(1) new]) simp_all
  moreover have "in_line L (Suc n) (g(i \<mapsto> ?st)) f (w k) ((p(i := Suc n)) k) (f k) s"
    if s: "(g(i \<mapsto> ?st)) k = Some s" for k s
  proof (cases "k = i")
    case True
    with s have "s = ?st" by simp
    with True line(2) place(3) pi show ?thesis by (simp add: in_line_def)
  next
    case False
    with s have k: "g k = Some s" by simp
    have "Suc n \<le> p k" if "todo s \<noteq> []"
    proof -
      have "f i \<le> p k \<or> f k \<le> p i" using apartD [OF D(6) _ st k _ that] False by simp
      moreover have "n \<le> p k" "f k = p k + length (todo s)" "length (todo s) > 0"
        using D(7) [OF k] that by (simp_all add: in_line_def)
      ultimately show ?thesis using line(2) pi by simp
    qed
    with D(7) [OF k] False show ?thesis by (auto simp: in_line_def)
  qed
  moreover have "apart (g(i \<mapsto> ?st)) (p(i := Suc n)) f"
    unfolding apart_def
  proof (intro allI impI)
    fix a b s s'
    assume ab: "a \<noteq> b" "(g(i \<mapsto> ?st)) a = Some s" "(g(i \<mapsto> ?st)) b = Some s'" "todo s \<noteq> []" "todo s' \<noteq> []"
    have other: "f i \<le> p c \<or> f c \<le> Suc n" if "c \<noteq> i" "g c = Some sc" "todo sc \<noteq> []" for c sc
      using apartD [OF D(6) _ st that(2) _ that(3)] that(1) pi by auto
    show "f a \<le> (p(i := Suc n)) b \<or> f b \<le> (p(i := Suc n)) a"
      using ab other [of a s] other [of b s'] apartD [OF D(6) ab(1)] by (auto split: if_splits)
  qed
  moreover have "heap A' = fold eff (take (Suc n) L) h0"
    using place(1,2) D(3) A'(2) by (simp add: take_Suc_conv_app_nth)
  ultimately show ?thesis using D(4,5) place(1) by (simp add: lined_up_def)
qed

text \<open>A thread creates the one that runs the next job, and comes after it.\<close>

lemma line_spawn:
  assumes inv: "lined_up G B eff L h0 root A w g p f n" and st: "g i = Some (Busy (j # js) ts e)"
    and t: "t \<noteq> 0" "threads A t = None"
    and A': "threads A' = (threads A)(t \<mapsto> Running (code B j), i \<mapsto> Running (busy_code B js (ts @ [t]) e))"
      "heap A' = heap A"
  defines "q \<equiv> p i + length (program_order j)"
  shows "lined_up G B eff L h0 root A' (w(t := w i, i := t)) (g(t \<mapsto> Fresh j, i \<mapsto> Busy js (ts @ [t]) e))
    (p(t := p i, i := q)) (f(t := q)) n"
proof -
  let ?st = "Busy js (ts @ [t]) e" and ?g = "g(t \<mapsto> Fresh j)"
  note D = lined_upD [OF inv]
  have new: "g t = None" using staged_None [OF D(1)] t(2) by simp
  then have "i \<noteq> t" using st by auto
  have line: "placed L (p i) (program_order j @ concat (map program_order js))"
      "q + length (concat (map program_order js)) = f i" "n \<le> p i"
      "p i \<le> n \<or> w i \<noteq> 0 \<and> w i \<in> dom g \<and> p i \<le> f (w i)"
    using D(7) [OF st] by (simp_all add: in_line_def q_def)
  note place = placed_append [OF line(1), folded q_def]
  have good: "good_stage G (Busy (j # js) ts e)" "set ts \<subseteq> dom g" using stagedD [OF D(1) st] by simp_all
  have A1: "threads (A\<lparr>threads := (threads A)(t \<mapsto> Running (code B j))\<rparr>) = (threads A)(t \<mapsto> Running (code B j))"
    by simp
  have fresh: "good_stage G (Fresh j)" using good(1) by simp
  have "staged G B (A\<lparr>threads := (threads A)(t \<mapsto> Running (code B j))\<rparr>) ?g"
    by (rule staged_put [OF D(1) A1]) (use fresh in simp_all)
  then have "staged G B A' (?g(i \<mapsto> ?st))"
    by (rule staged_put) (use A'(1) t(1) good in auto)
  moreover have "in_line L n (?g(i \<mapsto> ?st)) (f(t := q)) ((w(t := w i, i := t)) k) ((p(t := p i, i := q)) k)
      ((f(t := q)) k) s" if s: "(?g(i \<mapsto> ?st)) k = Some s" for k s
  proof -
    consider "k = i" | "k = t" "k \<noteq> i" | "k \<noteq> i" "k \<noteq> t" by blast
    then show ?thesis
    proof cases
      case 1
      with s have "s = ?st" by simp
      with 1 show ?thesis
        using place(2) line(2,3) t(1) \<open>i \<noteq> t\<close> by (simp add: in_line_def q_def)
    next
      case 2
      with s have "s = Fresh j" by simp
      with 2 show ?thesis
        using place(1) line(3,4) new by (auto simp: in_line_def q_def)
    next
      case 3
      with s have k: "g k = Some s" by simp
      have "u \<noteq> t" if "u \<in> joinees s" for u
        using stagedD(2) [OF D(1) k] that new by auto
      with D(7) [OF k] 3 new show ?thesis by (auto simp: in_line_def)
    qed
  qed
  moreover have "apart (?g(i \<mapsto> ?st)) (p(t := p i, i := q)) (f(t := q))"
    unfolding apart_def
  proof (intro allI impI)
    fix a b s s'
    assume ab: "a \<noteq> b" "(?g(i \<mapsto> ?st)) a = Some s" "(?g(i \<mapsto> ?st)) b = Some s'" "todo s \<noteq> []" "todo s' \<noteq> []"
    have other: "f i \<le> p c \<or> f c \<le> p i" if "c \<noteq> i" "g c = Some sc" "todo sc \<noteq> []" for c sc
      using apartD [OF D(6) _ st that(2) _ that(3)] that(1) by simp
    have "q \<le> f i" "p i \<le> q" using line(2) by (simp_all add: q_def)
    then show "(f(t := q)) a \<le> (p(t := p i, i := q)) b \<or> (f(t := q)) b \<le> (p(t := p i, i := q)) a"
      using ab other [of a s] other [of b s'] apartD [OF D(6) ab(1)] \<open>i \<noteq> t\<close>
      by (auto split: if_splits)
  qed
  moreover have "root \<in> dom (?g(i \<mapsto> ?st))" "(f(t := q)) root = length L"
    using D(4,5) new by auto
  ultimately show ?thesis using D(2,3) A'(2) by (simp add: lined_up_def)
qed

section \<open>Programs whose sections touch the heap\<close>

locale touching_fork_join = fork_join +
  assumes touching: "\<not> ends_section (B l c)"
begin

text \<open>The turn of a thread has come when the thread it comes after has ended.\<close>

lemma turn:
  assumes "lined_up G B eff L h0 root A w g p f n" and "g i = Some st"
    and "w i = 0 \<or> ended (threads A (w i))" and "\<nexists>k. threads A k = Some Crashed"
  shows "p i \<le> n"
proof (rule ccontr)
  assume late: "\<not> p i \<le> n"
  then have w: "w i \<noteq> 0" "w i \<in> dom g" "p i \<le> f (w i)"
    using lined_upD(7) [OF assms(1,2)] by (auto simp: in_line_def)
  then have "threads A (w i) \<noteq> None" using staged_None [OF lined_upD(1) [OF assms(1)], of "w i"] by auto
  then have "threads A (w i) = Some Exited" using assms(3,4) w(1) by (auto simp: ended_def)
  with exited_line [OF assms(1)] w(3) late show False by fastforce
qed

lemma ordered_section:
  assumes inv: "lined_up G B eff L h0 root A w g p f n" and "\<nexists>k. threads A k = Some Crashed"
    and i: "threads A i = Some (Running c)" and run: "runs G c (heap A) d m" "ends_section d"
    and waited: "c = d \<or> w i = 0 \<or> ended (threads A (w i))"
  shows "ordered_track G B eff L h0 root (A\<lparr>heap := m, threads := (threads A)(i \<mapsto> Committed d)\<rparr>, w)"
proof -
  let ?A = "A\<lparr>heap := m, threads := (threads A)(i \<mapsto> Committed d)\<rparr>"
  obtain st where st: "g i = Some st" "at_stage B st (Running c)" "good_stage G st"
    using staged_thread [OF lined_upD(1) [OF inv] i] by blast
  have line: "in_line L n g f (w i) (p i) (f i) st" by (rule lined_upD(7) [OF inv st(1)])
  from st(2,3) run have "\<exists>g p n. lined_up G B eff L h0 root ?A w g p f n"
  proof (cases rule: run_stage)
    case (fresh l js e)
    have "c \<noteq> d" using st(2) fresh(1) touching run(2) by (auto simp: code_busy)
    then have "p i \<le> n" using turn [OF inv st(1) _ assms(2)] waited by blast
    from line_run [OF inv st(1) [unfolded fresh(1)] this _ _ fresh(3), of ?A] fresh(2)
    show ?thesis by fastforce
  next
    case same
    have "\<And>j. st \<noteq> Fresh j" using same(2) by auto
    then have "p i \<le> n" using line same(3) by (auto simp: in_line_def)
    from line_stage [OF inv st(1), of ?A "Committed d" Done] same this show ?thesis by fastforce
  next
    case busy
    have "(\<exists>j. st = Fresh j) \<or> p i \<le> n \<or> (\<exists>t\<in>joinees st. f t = p i)" using line by (simp add: in_line_def)
    from line_stage [OF inv st(1), of ?A "Committed d" st] busy st(3) this show ?thesis by fastforce
  qed
  then show ?thesis unfolding ordered_track_def by auto
qed

lemma ordered_await:
  assumes inv: "lined_up G B eff L h0 root A w g p f n" and "\<nexists>k. threads A k = Some Crashed"
    and i: "threads A i = Some (Committed (Await t c))" and t: "t = 0 \<or> ended (threads A t)"
  shows "ordered_track G B eff L h0 root (A\<lparr>threads := (threads A)(i \<mapsto> Running c)\<rparr>, w)"
proof -
  note D = lined_upD [OF inv]
  obtain st where st: "g i = Some st" "at_stage B st (Committed (Await t c))" "good_stage G st" "joinees st \<subseteq> dom g"
    using staged_thread [OF D(1) i] by blast
  obtain ts e where busy: "st = Busy [] (t # ts) e" "c = busy_code B [] ts e" using at_stage_Await [OF st(2)] by blast
  have "threads A t \<noteq> None" using staged_None [OF D(1), of t] st(4) busy(1) by auto
  with st(3) busy(1) t assms(2) have "threads A t = Some Exited" by (auto simp: ended_def)
  then have over: "f t \<le> n" by (rule exited_line [OF inv])
  let ?st = "busy_or (Finishing e) [] ts e"
  have "p i \<le> n \<or> (\<exists>t\<in>set ts. f t = p i)"
    using D(7) [OF st(1)] busy(1) over by (auto simp: in_line_def)
  then have "(\<exists>j. ?st = Fresh j) \<or> p i \<le> n \<or> (\<exists>t\<in>joinees ?st. f t = p i)"
    by (auto simp: busy_or_def)
  then have "lined_up G B eff L h0 root (A\<lparr>threads := (threads A)(i \<mapsto> Running c)\<rparr>) w (g(i \<mapsto> ?st)) p f n"
    by (intro line_stage [OF inv st(1), where x = "Running c"]) (use st(3) busy in \<open>auto simp: busy_or_def split: if_splits\<close>)
  then show ?thesis unfolding ordered_track_def by auto
qed

lemma ordered_track_step:
  assumes "ordered_track G B eff L h0 root x" and "ostep False G x x'"
  shows "ordered_track G B eff L h0 root x'"
proof (cases "\<exists>i. threads (fst x) i = Some Crashed")
  case True
  obtain A w A' w' where x: "x = (A, w)" "x' = (A', w')" by fastforce
  with True assms(2) crashed_stays [OF ostep_astep] show ?thesis
    unfolding ordered_track_def by (metis fst_conv)
next
  case False
  with assms(1) obtain g p f n where inv: "lined_up G B eff L h0 root (fst x) (snd x) g p f n"
    unfolding ordered_track_def by blast
  from assms(2) show ?thesis
  proof (cases rule: ostep.cases)
    case (run_section A i c d m w)
    with inv False show ?thesis using ordered_section [of L h0 root A w g p f n i c d m] by simp
  next
    case (spawn A i c k t w)
    obtain st where st: "g i = Some st" "at_stage B st (Committed (Spawn c k))"
      using staged_thread [OF lined_upD(1) [OF inv], of i "Committed (Spawn c k)"] spawn(1,3) by auto
    obtain j js ts e where job: "st = Busy (j # js) ts e" "c = code B j" "k t = busy_code B js (ts @ [t]) e"
      using at_stage_Spawn [OF st(2)] by blast
    have "lined_up G B eff L h0 root A w g p f n" using inv spawn(1) by simp
    from line_spawn [OF this st(1) [unfolded job(1)] spawn(4,6)] job(2,3)
    have "lined_up G B eff L h0 root (fst x') (snd x') (g(t \<mapsto> Fresh j, i \<mapsto> Busy js (ts @ [t]) e))
        (p(t := p i, i := p i + length (program_order j))) (f(t := p i + length (program_order j))) n"
      by (simp add: spawn(2))
    then show ?thesis unfolding ordered_track_def by blast
  next
    case (await A i t c w)
    with inv False show ?thesis using ordered_await [of L h0 root A w g p f n i t c] by simp
  next
    case (exit A i w)
    obtain st where st: "g i = Some st" "at_stage B st (Committed Return)"
      using staged_thread [OF lined_upD(1) [OF inv], of i "Committed Return"] exit(1,3) by auto
    then have "g i = Some Done" using at_stage_Return by blast
    moreover from this have "p i \<le> n" using lined_upD(7) [OF inv] by (fastforce simp: in_line_def)
    ultimately have "lined_up G B eff L h0 root (A\<lparr>threads := (threads A)(i \<mapsto> Exited)\<rparr>) w (g(i \<mapsto> Done)) p f n"
      using inv exit(1) by (intro line_stage [of G B eff L h0 root A w g p f n i Done _ Exited]) simp_all
    then show ?thesis unfolding ordered_track_def exit(2) by auto
  next
    case (crash A i y w)
    then show ?thesis by (auto simp: ordered_track_def)
  qed
qed

end

sublocale touching_fork_join \<subseteq> line: invariant "ostep False G" "ordered_track G B eff L h0 root" for L h0 root
  by unfold_locales (rule ordered_track_step)

lemma lined_up_start:
  assumes "good_job G j0"
  shows "lined_up G B eff (program_order j0) h0 i
    \<lparr>heap = h0, threads = [i \<mapsto> Running (wrapped_main (code B j0))]\<rparr> (\<lambda>_. 0)
    [i \<mapsto> Busy [j0] [] Return] (\<lambda>_. 0) (\<lambda>_. length (program_order j0)) 0"
  using assms
  by (simp add: lined_up_def staged_def wrapped_main_def in_line_def placed_def apart_def)

context touching_fork_join
begin

lemma ordered_result:
  assumes "good_job G j0" and "initial (wrapped_main (code B j0)) s0" and "heap_aligned G" and "live vp"
    and "\<forall>i t. procs s0 i = Some t \<longrightarrow> predecessor (gp t) = 0"
    and "sys_run False G vp s0 n s" and "completed s0 s"
  shows "heap_view G (shd s) = fold eff (program_order j0) (heap_view G (shd s0))"
proof -
  let ?h0 = "heap_view G (shd s0)" and ?L = "program_order j0"
  obtain i where i: "procs s0 i \<noteq> None" and run: "(ostep False G)\<^sup>*\<^sup>*
      (\<lparr>heap = ?h0, threads = [i \<mapsto> Running (wrapped_main (code B j0))]\<rparr>, \<lambda>_. 0) (abs_sys G s, waits s)"
    using run_in_order [OF assms(2-6)] by blast
  have "ordered_track G B eff ?L ?h0 i (abs_sys G s, waits s)"
    by (rule line.reachable [OF run]) (unfold ordered_track_def fst_conv snd_conv, use lined_up_start [OF assms(1)] in blast)
  then obtain g p f m where inv: "lined_up G B eff ?L ?h0 i (abs_sys G s) (waits s) g p f m"
    using completed_threads(2) [OF assms(7) i] by (auto simp: ordered_track_def)
  have "length ?L \<le> m" using exited_line [OF inv completed_threads(1) [OF assms(7) i]] lined_upD(5) [OF inv] by simp
  then have "heap (abs_sys G s) = fold eff ?L ?h0" using lined_upD(3) [OF inv] by simp
  then show ?thesis using program_result(2) [OF assms(1-4,6,7)] by simp
qed

end

section \<open>Properties\<close>

text \<open>
  C9: The ordered mode is sequential. Without \<open>NO_ORDER\<close>, let a fork-join program be given by the
  code \<open>B l\<close> of its sections, each of which touches the heap and has the effect \<open>eff l\<close> when run
  alone. Whatever the interleaving, rollbacks included, a completed run leaves the heap that the
  effects give in the order of the program text, as if creating a thread were calling its function.
  The effects need not commute.
\<close>

theorem ordered_is_sequential:
  assumes "\<And>l c m. ends_section c \<Longrightarrow> runs G (B l c) m c (eff l m)" and "\<And>l c. \<not> ends_section (B l c)"
    and "good_job G j0" and "initial (wrapped_main (code B j0)) s0" and "heap_aligned G" and "live vp"
    and "\<forall>i t. procs s0 i = Some t \<longrightarrow> predecessor (gp t) = 0"
    and "sys_run False G vp s0 n s" and "completed s0 s"
  shows "heap_view G (shd s) = job_effect eff j0 (heap_view G (shd s0))"
proof -
  have "touching_fork_join G B eff" using assms(1,2) by unfold_locales
  from touching_fork_join.ordered_result [OF this assms(3-9)] show ?thesis by (simp add: job_effect_order)
qed

end
