(* ===== verification/Ordered_Completion.thy ===== *)
theory Ordered_Completion
  imports Program_Order
begin

text \<open>
  Fork-join programs can also run to their end in the ordered mode, although a thread can wait for
  a sibling only until their creator has collected the sibling: a thread creates all its threads,
  and then they run one after the other, each when its creator has joined the one before.
  Either way the heap at the end is that of the sequential program.
\<close>

section \<open>Threads that wait for their turn\<close>

text \<open>A process that nobody has to wait for, whoever its parent is: it has exited and been collected.\<close>

definition settled :: "sys \<Rightarrow> pid_t \<Rightarrow> bool" where
  "settled s k \<longleftrightarrow> procs s 0 = None \<and> (k = 0 \<or> k \<in> reaped s \<and> (\<exists>u. procs s k = Some u \<and> exited u))"

lemma settled_waits: "settled s k \<Longrightarrow> wait_returns s i k"
  by (auto simp: settled_def exited_def wait_returns_def waitpid_def kill0_def WaitExited_def
      split: option.split)

lemma settled_keeps:
  assumes "settled s k" and "keeps i s s'" and "reaped s \<subseteq> reaped s'" and "procs s i = Some t" and "alive t"
  shows "settled s' k"
proof (cases "k = 0")
  case True
  then show ?thesis using assms(1) keepsD(3) [OF assms(2)] by (simp add: settled_def)
next
  case False
  then obtain u where u: "procs s k = Some u" "exited u" "k \<in> reaped s" using assms(1) by (auto simp: settled_def)
  then have "k \<noteq> i" using assms(4,5) by (auto simp: exited_def)
  with u(1) have "procs s' k = Some u" by (rule keepsD(1) [OF assms(2)])
  then show ?thesis using u(2,3) assms(1,3) keepsD(3) [OF assms(2)] by (auto simp: settled_def)
qed

definition waiting :: "thread \<Rightarrow> bool" where
  "waiting u \<longleftrightarrow> alive u \<and> pc u = Save \<and> no_copies (gp u)"

text \<open>\<open>cs\<close> are threads that process \<open>i\<close> has created for the jobs \<open>js\<close>, each after the one before.\<close>

fun queued :: "('l \<Rightarrow> prog \<Rightarrow> prog) \<Rightarrow> sys \<Rightarrow> pid_t \<Rightarrow> pid_t \<Rightarrow> 'l job list \<Rightarrow> pid_t list \<Rightarrow> bool" where
  "queued B s i pr [] cs \<longleftrightarrow> cs = []"
| "queued B s i pr (j # js) cs \<longleftrightarrow> (\<exists>c cs'. cs = c # cs' \<and> c \<noteq> 0
     \<and> (\<exists>u. procs s c = Some u \<and> waiting u \<and> cur u = code B j \<and> parent u = i \<and> predecessor (gp u) = pr)
     \<and> queued B s i c js cs')"

lemma queued_frame:
  "queued B s i pr js cs \<Longrightarrow> (\<And>c. c \<in> set cs \<Longrightarrow> procs s' c = procs s c) \<Longrightarrow> queued B s' i pr js cs"
  by (induction js arbitrary: pr cs) auto

lemma queued_nonzero: "queued B s i pr js cs \<Longrightarrow> 0 \<notin> set cs"
  by (induction js arbitrary: pr cs) auto

lemma queued_procs: "queued B s i pr js cs \<Longrightarrow> c \<in> set cs \<Longrightarrow> \<exists>u. procs s c = Some u \<and> waiting u"
  by (induction js arbitrary: pr cs) auto

context counted_sections
begin

text \<open>The first phase: all threads are created.\<close>

lemma spawn_loop:
  assumes "live vp" and "behind s i t" and "cur t = busy_code B js ts e" and "finite (dom (procs s))"
    and "procs s 0 = None"
  shows "\<exists>s' t' cs. within (9 * length js) (sys_step False G vp) s s' \<and> behind s' i t'
    \<and> cur t' = busy_code B [] (ts @ cs) e \<and> parent t' = parent t
    \<and> queued B s' i (predecessor (gp t)) js cs \<and> distinct cs \<and> (\<forall>c\<in>set cs. procs s c = None)
    \<and> (\<forall>k. k \<noteq> i \<longrightarrow> k \<notin> set cs \<longrightarrow> procs s' k = procs s k)
    \<and> predecessor (gp t') = last (predecessor (gp t) # cs) \<and> reaped s' = reaped s
    \<and> heap_view G (shd s') = heap_view G (shd s) \<and> finite (dom (procs s'))"
  using assms(2-5)
proof (induction js arbitrary: s t ts)
  case Nil
  then show ?case by (intro exI [of _ s] exI [of _ t] exI [of _ "[]"]) simp
next
  case (Cons j js)
  let ?R = "sys_step False G vp"
  have spawn: "cur t = Spawn (code B j) (\<lambda>c. busy_code B js (ts @ [c]) e)" using Cons.prems(2) by simp
  obtain c where c: "c \<noteq> 0" "procs s c = None"
    using ex_new_if_finite [OF infinite_UNIV_nat, of "insert 0 (dom (procs s))"] Cons.prems(3) by auto
  have t: "procs s i = Some t" "alive t" using Cons.prems(1) by (simp_all add: behind_def)
  have "i \<noteq> c" "i \<noteq> 0" using t(1) c(2) Cons.prems(4) by (metis option.distinct(1))+
  let ?p = "parent_thread c (busy_code B js (ts @ [c]) e) t" and ?c = "child_thread False i c (code B j) t"
  let ?s = "set_proc i ?p (set_proc c ?c s)"
  note fork = fork_ready [OF behind_over [OF Cons.prems(1), unfolded spawn] c, where no_order = False]
  have "ends_section (cur ?p)" by (simp add: busy_code_ends)
  from idle_section [OF fork(2) aligned assms(1) this, of False] obtain s1 t1
    where s1: "within 8 ?R ?s s1" "shd s1 = shd ?s" "reaped s1 = reaped ?s"
      and over: "section_over G ?s i ?p (cur ?p) (heap_view G (shd ?s)) s1 t1" by blast
  have procs1: "procs s1 = (procs s)(c \<mapsto> ?c, i \<mapsto> t1)" using over \<open>i \<noteq> c\<close> by (auto simp: section_over_def)
  have t1: "behind s1 i t1" "cur t1 = busy_code B js (ts @ [c]) e" "parent t1 = parent t" "predecessor (gp t1) = c"
    using over_behind [OF over] over by (simp_all add: section_over_def)
  have "finite (dom (procs s1))" "procs s1 0 = None"
    using Cons.prems(3,4) c(1) \<open>i \<noteq> 0\<close> by (simp_all add: procs1)
  from Cons.IH [OF t1(1,2) this] obtain s' t' cs
    where s': "within (9 * length js) ?R s1 s'" "behind s' i t'" "cur t' = busy_code B [] ((ts @ [c]) @ cs) e"
      "parent t' = parent t1" "queued B s' i c js cs" "distinct cs" "\<forall>c\<in>set cs. procs s1 c = None"
      "\<forall>k. k \<noteq> i \<longrightarrow> k \<notin> set cs \<longrightarrow> procs s' k = procs s1 k" "predecessor (gp t') = last (c # cs)"
      "reaped s' = reaped s1" "heap_view G (shd s') = heap_view G (shd s1)" "finite (dom (procs s'))"
    unfolding t1(4) by blast
  have "procs s1 c \<noteq> None" "procs s1 i \<noteq> None" using procs1 \<open>i \<noteq> c\<close> by simp_all
  then have fresh: "c \<notin> set cs" "i \<notin> set cs" using s'(7) by auto
  have "waiting ?c" using fork(3) by (simp add: ready_def waiting_def)
  moreover have "procs s' c = Some ?c" using s'(8) fresh(1) \<open>i \<noteq> c\<close> procs1 by simp
  ultimately have "queued B s' i (predecessor (gp t)) (j # js) (c # cs)" using s'(5) c(1) by simp
  moreover have "procs s d = None" if "d \<in> set cs" for d
    using s'(7) that procs1 by (auto split: if_splits)
  moreover have "procs s' k = procs s k" if "k \<noteq> i" "k \<notin> set (c # cs)" for k
    using s'(8) that procs1 by simp
  moreover have "within (9 * length (j # js)) ?R s s'"
    using within_mono [OF within_trans [OF within_first [where R = ?R, OF fork(1) s1(1)] s'(1)]] by simp
  ultimately show ?case
    using s' s1(2,3) t1(3) fresh(1) c(2) by (intro exI [of _ s'] exI [of _ t'] exI [of _ "c # cs"]) simp
qed

text \<open>A job is run: from its beginning, its predecessor settled, to the exit of its thread.\<close>

definition ordered_run :: "view_policy \<Rightarrow> nat \<Rightarrow> 'l job \<Rightarrow> memory \<Rightarrow> bool" where
  "ordered_run vp n j h \<longleftrightarrow> (\<forall>s i t. ready s i t \<longrightarrow> cur t = code B j \<longrightarrow>
     settled s (predecessor (gp t)) \<longrightarrow> finite (dom (procs s)) \<longrightarrow> heap_view G (shd s) = h \<longrightarrow>
     (\<exists>s'. within (job_steps acc n j) (sys_step False G vp) s s' \<and> ran G eff i (parent t) j s s'
       \<and> reaped s \<subseteq> reaped s'))"

text \<open>The second phase: the threads run in turn, and are joined.\<close>

definition joined :: "sys \<Rightarrow> pid_t \<Rightarrow> pid_t list \<Rightarrow> sys \<Rightarrow> bool" where
  "joined s i cs s' \<longleftrightarrow> (\<forall>k u. procs s k = Some u \<longrightarrow> k \<noteq> i \<longrightarrow> k \<notin> set cs \<longrightarrow> procs s' k = Some u)
     \<and> (\<forall>k u. procs s' k = Some u \<longrightarrow> k \<in> set cs \<or> procs s k = None \<longrightarrow> k \<noteq> 0 \<and> exited u)
     \<and> reaped s \<subseteq> reaped s' \<and> finite (dom (procs s'))"

lemma run_and_join:
  assumes "behind s i t" and "cur t = Await c d" and "c \<noteq> 0" and "i \<noteq> c" and "procs s c = Some u"
    and "waiting u" and "cur u = code B j" and "parent u = i" and "settled s (predecessor (gp u))"
    and "finite (dom (procs s))" and "ordered_run vp n j (heap_view G (shd s))"
  shows "\<exists>s' t'. within (job_steps acc n j + 2) (sys_step False G vp) s s' \<and> ready s' i t' \<and> cur t' = d
    \<and> parent t' = parent t \<and> predecessor (gp t') = predecessor (gp t) \<and> joined s i [c] s' \<and> settled s' c
    \<and> heap_view G (shd s') = job_effect eff j (heap_view G (shd s))"
proof -
  let ?R = "sys_step False G vp"
  have t: "procs s i = Some t" "alive t" using assms(1) by (simp_all add: behind_def)
  have zero: "procs s 0 = None" using assms(9) by (simp add: settled_def)
  have "ready s c u" using assms(1,5,6) by (simp add: ready_def behind_def waiting_def)
  then obtain s1 where s1: "within (job_steps acc n j) ?R s s1" "ran G eff c i j s s1" "reaped s \<subseteq> reaped s1"
    using assms(7-11) unfolding ordered_run_def by metis
  note keep1 = keepsD [OF s1(2) [unfolded ran_def, THEN conjunct1]]
  obtain v where v: "procs s1 c = Some v" "exited v" "parent v = i" using s1(2) by (auto simp: ran_def)
  have "procs s1 i = Some t" using keep1(1) [OF t(1)] assms(4) by simp
  then have "behind s1 i t" using assms(1) s1(2) by (simp add: behind_def ran_def)
  moreover have zero1: "procs s1 0 = None" using keep1(3) zero by simp
  then have "gone s1 i c" using v by (auto simp: gone_def)
  ultimately obtain s2 t2 where s2: "within 2 ?R s1 s2" "ready s2 i t2" "cur t2 = d" "parent t2 = parent t"
      "predecessor (gp t2) = predecessor (gp t)" "keeps i s1 s2" "shd s2 = shd s1" "reaped s2 = insert c (reaped s1)"
    using joins [OF _ assms(2), of s1 i False G vp] assms(3) by blast
  note keep2 = keepsD [OF s2(6)]
  have c2: "procs s2 c = Some v" using keep2(1) [OF v(1)] assms(4) by simp
  have "joined s i [c] s2"
    unfolding joined_def
  proof (intro conjI allI impI)
    show "procs s2 k = Some w" if "procs s k = Some w" "k \<noteq> i" "k \<notin> set [c]" for k w
      using keep2(1) [OF keep1(1) [OF that(1)]] that(2,3) by simp
    show "k \<noteq> 0" if w: "procs s2 k = Some w" and "k \<in> set [c] \<or> procs s k = None" for k w
      using w keep2(3) [OF zero1] by (metis option.distinct(1))
    show "exited w" if w: "procs s2 k = Some w" and old: "k \<in> set [c] \<or> procs s k = None" for k w
    proof (cases "procs s1 k")
      case None
      then show ?thesis using keep2(2) [OF w] by simp
    next
      case (Some x)
      have "k \<noteq> i" using old t(1) assms(4) by auto
      then have "x = w" using keep2(1) [OF Some] w by simp
      with old Some v c2 w keep1(2) [OF Some] show ?thesis by auto
    qed
    show "reaped s \<subseteq> reaped s2" using s1(3) s2(8) by auto
    show "finite (dom (procs s2))" using keep1(4) [OF assms(10)] keep2(4) by blast
  qed
  moreover have "settled s2 c" using c2 v(2) s2(8) keep2(3) [OF zero1] by (simp add: settled_def)
  moreover have "heap_view G (shd s2) = job_effect eff j (heap_view G (shd s))"
    using s1(2) s2(7) by (simp add: ran_def)
  ultimately show ?thesis using within_trans [OF s1(1) s2(1)] s2(2-5) by blast
qed

lemma joined_trans:
  assumes "joined s i cs s1" and "joined s1 i ds s'" and "set cs \<inter> set ds = {}" and "procs s i \<noteq> None" and "i \<notin> set cs"
    and "\<And>k. k \<in> set cs \<Longrightarrow> procs s1 k \<noteq> None"
  shows "joined s i (cs @ ds) s'"
proof -
  have a: "\<And>k u. procs s k = Some u \<Longrightarrow> k \<noteq> i \<Longrightarrow> k \<notin> set cs \<Longrightarrow> procs s1 k = Some u"
      "\<And>k u. procs s1 k = Some u \<Longrightarrow> k \<in> set cs \<or> procs s k = None \<Longrightarrow> k \<noteq> 0 \<and> exited u"
      "reaped s \<subseteq> reaped s1"
    and b: "\<And>k u. procs s1 k = Some u \<Longrightarrow> k \<noteq> i \<Longrightarrow> k \<notin> set ds \<Longrightarrow> procs s' k = Some u"
      "\<And>k u. procs s' k = Some u \<Longrightarrow> k \<in> set ds \<or> procs s1 k = None \<Longrightarrow> k \<noteq> 0 \<and> exited u"
      "reaped s1 \<subseteq> reaped s'" "finite (dom (procs s'))"
    using assms(1,2) unfolding joined_def by blast+
  have "k \<noteq> 0 \<and> exited u" if u: "procs s' k = Some u" and new: "k \<in> set (cs @ ds) \<or> procs s k = None" for k u
  proof (cases "k \<in> set ds \<or> procs s1 k = None")
    case True
    then show ?thesis using b(2) u by blast
  next
    case False
    then obtain v where v: "procs s1 k = Some v" by blast
    have "k \<noteq> i" using new False assms(4,5) by auto
    then have "v = u" using b(1) [OF v] False u by simp
    then show ?thesis using a(2) [OF v] new False by auto
  qed
  moreover have "procs s' k = Some u" if "procs s k = Some u" "k \<noteq> i" "k \<notin> set (cs @ ds)" for k u
    using that a(1) b(1) by auto
  ultimately show ?thesis using a(3) b(3,4) by (auto simp: joined_def)
qed

lemma idle_joined:
  assumes "section_over G s i t d m s' t'" and "reaped s' = reaped s" and "finite (dom (procs s))" and "procs s i \<noteq> None"
  shows "joined s i [] s'"
  using assms by (auto simp: joined_def section_over_def split: if_splits)

lemma join_phase:
  assumes "live vp" and "js \<noteq> []" and "behind s i t" and "cur t = busy_code B [] cs e"
    and "queued B s i pr js cs" and "distinct cs" and "i \<notin> set cs" and "settled s pr"
    and "finite (dom (procs s))" and "\<forall>j\<in>set js. \<forall>h. ordered_run vp n j h"
  shows "\<exists>s' t'. within (\<Sum>j\<leftarrow>js. job_steps acc n j + 10) (sys_step False G vp) s s' \<and> ready s' i t'
    \<and> cur t' = e \<and> parent t' = parent t \<and> predecessor (gp t') = predecessor (gp t) \<and> joined s i cs s'
    \<and> settled s' (last cs) \<and> heap_view G (shd s') = fold (job_effect eff) js (heap_view G (shd s))"
  using assms(2-10)
proof (induction js arbitrary: s t cs pr)
  case (Cons j js)
  let ?R = "sys_step False G vp"
  obtain c cs' u where c: "cs = c # cs'" "c \<noteq> 0" "procs s c = Some u" "waiting u" "cur u = code B j" "parent u = i"
      "predecessor (gp u) = pr" "queued B s i c js cs'"
    using Cons.prems(4) by auto
  have ic: "i \<noteq> c" "i \<notin> set cs'" "c \<notin> set cs'" "distinct cs'" using Cons.prems(5,6) c(1) by auto
  have await: "cur t = Await c (busy_code B [] cs' e)" using Cons.prems(3) c(1) by simp
  have pr: "settled s (predecessor (gp u))" using Cons.prems(7) c(7) by simp
  have j: "ordered_run vp n j (heap_view G (shd s))" using Cons.prems(9) by simp
  from run_and_join [OF Cons.prems(2) await c(2) ic(1) c(3-6) pr Cons.prems(8) j] obtain s1 t1
    where s1: "within (job_steps acc n j + 2) ?R s s1" "ready s1 i t1" "cur t1 = busy_code B [] cs' e"
      "parent t1 = parent t" "predecessor (gp t1) = predecessor (gp t)" "joined s i [c] s1" "settled s1 c"
      "heap_view G (shd s1) = job_effect eff j (heap_view G (shd s))"
    by blast
  have fin1: "finite (dom (procs s1))" using s1(6) by (simp add: joined_def)
  have i1: "procs s1 i = Some t1" "alive t1" using s1(2) by (simp_all add: ready_def)
  show ?case
  proof (cases "js = []")
    case True
    then have "cs' = []" using c(8) by simp
    moreover have "within (\<Sum>j\<leftarrow>j # js. job_steps acc n j + 10) ?R s s1"
      by (rule within_mono [OF s1(1)]) simp
    ultimately show ?thesis
      using s1 c(1) True by (intro exI [of _ s1] exI [of _ t1]) simp
  next
    case False
    then have "cs' \<noteq> []" using c(8) by (cases js) auto
    then have "ends_section (cur t1)" unfolding s1(3) by (intro busy_code_ends) simp
    from idle_section [OF s1(2) aligned assms(1) this, of False] obtain s2 t2
      where s2: "within 8 ?R s1 s2" "reaped s2 = reaped s1"
        and over: "section_over G s1 i t1 (cur t1) (heap_view G (shd s1)) s2 t2" by blast
    have t2: "behind s2 i t2" "cur t2 = busy_code B [] cs' e" "parent t2 = parent t" "predecessor (gp t2) = predecessor (gp t)"
        "heap_view G (shd s2) = heap_view G (shd s1)"
      using over_behind [OF over] over s1(3-5) by (simp_all add: section_over_def)
    have procs2: "procs s2 = (procs s1)(i \<mapsto> t2)" using over by (simp add: section_over_def)
    have same: "procs s2 d = procs s d" if d: "d \<in> set cs'" for d
    proof -
      obtain v where "procs s d = Some v" using queued_procs [OF c(8) d] by blast
      moreover have "d \<noteq> i" "d \<noteq> c" using d ic by auto
      moreover from calculation have "procs s1 d = Some v" using s1(6) unfolding joined_def by simp
      ultimately show ?thesis using procs2 by simp
    qed
    have queue: "queued B s2 i c js cs'" by (rule queued_frame [OF c(8) same])
    have set2: "settled s2 c"
    proof (rule settled_keeps [OF s1(7) _ _ i1])
      show "keeps i s1 s2" by (rule over_keeps [OF over]) (simp add: i1)
    qed (simp add: s2(2))
    have fin2: "finite (dom (procs s2))" using fin1 procs2 by simp
    have runs: "\<forall>j\<in>set js. \<forall>h. ordered_run vp n j h" using Cons.prems(9) by simp
    from Cons.IH [OF False t2(1,2) queue ic(4,2) set2 fin2 runs] obtain s3 t3
      where s3: "within (\<Sum>j\<leftarrow>js. job_steps acc n j + 10) ?R s2 s3" "ready s3 i t3" "cur t3 = e"
        "parent t3 = parent t2" "predecessor (gp t3) = predecessor (gp t2)" "joined s2 i cs' s3"
        "settled s3 (last cs')" "heap_view G (shd s3) = fold (job_effect eff) js (heap_view G (shd s2))"
      by blast
    have "joined s1 i [] s2" by (rule idle_joined [OF over s2(2) fin1]) (simp add: i1)
    then have "joined s1 i ([] @ cs') s3" by (rule joined_trans [OF _ s3(6)]) (simp_all add: i1)
    moreover have "procs s i \<noteq> None" using Cons.prems(2) by (simp add: behind_def)
    moreover have "procs s1 c \<noteq> None" using s1(7) c(2) by (auto simp: settled_def)
    ultimately have "joined s i ([c] @ cs') s3" using ic by (intro joined_trans [OF s1(6)]) simp_all
    moreover have "within (\<Sum>j\<leftarrow>j # js. job_steps acc n j + 10) ?R s s3"
      by (rule within_mono [OF within_trans [OF s1(1) within_trans [OF s2(1) s3(1)]]]) simp
    ultimately show ?thesis
      using s3 t2 s1(8) c(1) \<open>cs' \<noteq> []\<close> by (intro exI [of _ s3] exI [of _ t3]) simp
  qed
qed simp

text \<open>Both phases together, from behind the section that starts them.\<close>

lemma settled_spawned:
  assumes "settled s k" and "procs s i = Some t" and "alive t" and "\<forall>c\<in>set cs. procs s c = None" and "0 \<notin> set cs"
    and "\<forall>k. k \<noteq> i \<longrightarrow> k \<notin> set cs \<longrightarrow> procs s' k = procs s k" and "reaped s' = reaped s"
  shows "settled s' k"
proof -
  have "procs s 0 = None" using assms(1) by (simp add: settled_def)
  moreover from this have "i \<noteq> 0" using assms(2) by (metis option.distinct(1))
  ultimately have zero: "procs s' 0 = None" using assms(5,6) by simp
  show ?thesis
  proof (cases "k = 0")
    case False
    then obtain u where u: "procs s k = Some u" "exited u" "k \<in> reaped s" using assms(1) by (auto simp: settled_def)
    moreover have "k \<noteq> i" using u(1,2) assms(2,3) by (auto simp: exited_def)
    moreover have "k \<notin> set cs" using u(1) assms(4) by auto
    ultimately show ?thesis using assms(6,7) zero by (simp add: settled_def)
  qed (simp add: settled_def zero)
qed

lemma joined_keeps:
  assumes "joined s1 i cs s'" and "\<forall>c\<in>set cs. procs s c = None"
    and "\<forall>k. k \<noteq> i \<longrightarrow> k \<notin> set cs \<longrightarrow> procs s1 k = procs s k" and "procs s i \<noteq> None" and "procs s' i \<noteq> None"
  shows "keeps i s s'"
proof (rule keepsI)
  have old: "\<And>k u. procs s1 k = Some u \<Longrightarrow> k \<noteq> i \<Longrightarrow> k \<notin> set cs \<Longrightarrow> procs s' k = Some u"
    and new: "\<And>k u. procs s' k = Some u \<Longrightarrow> k \<in> set cs \<or> procs s1 k = None \<Longrightarrow> k \<noteq> 0 \<and> exited u"
    and "finite (dom (procs s'))"
    using assms(1) unfolding joined_def by blast+
  then show "finite (dom (procs s'))" by simp
  show "procs s' k = Some u" if u: "procs s k = Some u" "k \<noteq> i" for k u
  proof -
    have "k \<notin> set cs" using assms(2) u(1) by auto
    then show ?thesis using old [of k u] assms(3) u by simp
  qed
  show "k \<noteq> 0 \<and> exited u" if u: "procs s' k = Some u" "procs s k = None" for k u
  proof -
    have "k \<noteq> i" using u(2) assms(4) by auto
    then show ?thesis using new [OF u(1)] assms(3) u(2) by metis
  qed
qed (use assms(4,5) in simp_all)

lemma both_phases:
  assumes "live vp" and "js \<noteq> []" and "behind s i t" and "cur t = busy_code B js [] e"
    and "settled s (predecessor (gp t))" and "finite (dom (procs s))" and "\<forall>j\<in>set js. \<forall>h. ordered_run vp n j h"
  shows "\<exists>s' t'. within (\<Sum>j\<leftarrow>js. job_steps acc n j + 19) (sys_step False G vp) s s' \<and> ready s' i t'
    \<and> cur t' = e \<and> parent t' = parent t \<and> settled s' (predecessor (gp t')) \<and> keeps i s s' \<and> reaped s \<subseteq> reaped s'
    \<and> heap_view G (shd s') = fold (job_effect eff) js (heap_view G (shd s))"
proof -
  let ?R = "sys_step False G vp"
  have i: "procs s i = Some t" "alive t" using assms(3) by (simp_all add: behind_def)
  have "procs s 0 = None" using assms(5) by (simp add: settled_def)
  from spawn_loop [OF assms(1,3,4,6) this] obtain s2 t2 cs
    where s2: "within (9 * length js) ?R s s2" "behind s2 i t2" "cur t2 = busy_code B [] cs e"
      "parent t2 = parent t" "queued B s2 i (predecessor (gp t)) js cs" "distinct cs"
      "\<forall>c\<in>set cs. procs s c = None" "\<forall>k. k \<noteq> i \<longrightarrow> k \<notin> set cs \<longrightarrow> procs s2 k = procs s k"
      "predecessor (gp t2) = last (predecessor (gp t) # cs)" "reaped s2 = reaped s"
      "heap_view G (shd s2) = heap_view G (shd s)" "finite (dom (procs s2))"
    by auto
  have "i \<notin> set cs" using i(1) s2(7) by auto
  have "cs \<noteq> []" using s2(5) assms(2) by (cases js) auto
  have "settled s2 (predecessor (gp t))"
    by (rule settled_spawned [OF assms(5) i s2(7) queued_nonzero [OF s2(5)] s2(8,10)])
  from join_phase [OF assms(1,2) s2(2,3,5,6) \<open>i \<notin> set cs\<close> this s2(12) assms(7)] obtain s3 t3
    where s3: "within (\<Sum>j\<leftarrow>js. job_steps acc n j + 10) ?R s2 s3" "ready s3 i t3" "cur t3 = e"
      "parent t3 = parent t2" "predecessor (gp t3) = predecessor (gp t2)" "joined s2 i cs s3"
      "settled s3 (last cs)" "heap_view G (shd s3) = fold (job_effect eff) js (heap_view G (shd s2))"
    by blast
  have "procs s3 i = Some t3" using s3(2) by (simp add: ready_def)
  then have "keeps i s s3" using joined_keeps [OF s3(6) s2(7,8)] i(1) by simp
  moreover have "reaped s \<subseteq> reaped s3" using s3(6) s2(10) by (simp add: joined_def)
  moreover have "9 * length js + (\<Sum>j\<leftarrow>js. job_steps acc n j + 10) \<le> (\<Sum>j\<leftarrow>js. job_steps acc n j + 19)"
    by (induction js) simp_all
  then have "within (\<Sum>j\<leftarrow>js. job_steps acc n j + 19) ?R s s3"
    by (rule within_mono [OF within_trans [OF s2(1) s3(1)]])
  ultimately show ?thesis
    using s3 s2 \<open>cs \<noteq> []\<close> by (intro exI [of _ s3] exI [of _ t3]) simp
qed

text \<open>The last section of a thread, which leaves the heap as it is, and its exit.\<close>

lemma last_section:
  assumes "live vp" and "ready s i t" and "settled s (predecessor (gp t))" and "finishes G (cur t) (heap_view G (shd s)) k"
  shows "\<exists>s' u. within (6 * k + 14) (sys_step False G vp) s s' \<and> keeps i s s' \<and> reaped s \<subseteq> reaped s'
    \<and> procs s' i = Some u \<and> exited u \<and> parent u = parent t \<and> mutex (shd s') = None
    \<and> vm_wf (global_page_version (shd s')) \<and> heap_view G (shd s') = heap_view G (shd s)"
proof -
  let ?R = "sys_step False G vp"
  from section_commits [OF assms(2) aligned assms(1) settled_waits [OF assms(3)] assms(4) [unfolded finishes_def]
      ends_section_simps(5), of False] obtain s1 t1
    where s1: "within (6 * k + 13) ?R s s1" "section_over G s i t Return (heap_view G (shd s)) s1 t1"
      "reaped s \<subseteq> reaped s1"
    by blast
  let ?u = "t1\<lparr>alive := False\<rparr>"
  let ?s' = "set_proc i ?u s1"
  have t1: "behind s1 i t1" "cur t1 = Return" "heap_view G (shd s1) = heap_view G (shd s)" "parent t1 = parent t"
    using over_behind [OF s1(2)] s1(2) by (simp_all add: section_over_def)
  have i: "procs s i \<noteq> None" "procs s1 i \<noteq> None" using assms(2) t1(1) by (simp_all add: ready_def behind_def)
  have "keeps i s ?s'"
    by (rule keeps_trans [OF over_keeps [OF s1(2) i(1)] set_proc_keeps [where t = ?u]]) (use i(2) in simp_all)
  moreover have "within (6 * k + 14) ?R s ?s'"
    by (rule within_mono [OF within_next [where R = ?R, OF s1(1) exit_step [OF s1(2)]]]) simp
  ultimately show ?thesis
    using t1 s1(3) by (intro exI [of _ ?s'] exI [of _ ?u]) (simp add: behind_def exited_def)
qed

text \<open>A job: its section, the two phases, and the code behind the joins.\<close>

lemma ordered_job:
  assumes "live vp" and "ready s i t" and "cur t = code B (Job l js e)"
    and "\<forall>j\<in>set js. \<forall>h. ordered_run vp n j h" and "js = [] \<longrightarrow> e = Return"
    and "finishes G e (job_effect eff (Job l js e) (heap_view G (shd s))) k" and "k \<le> n"
    and "settled s (predecessor (gp t))" and "finite (dom (procs s))"
  shows "\<exists>s'. within (job_steps acc n (Job l js e)) (sys_step False G vp) s s'
    \<and> ran G eff i (parent t) (Job l js e) s s' \<and> reaped s \<subseteq> reaped s'"
proof -
  let ?R = "sys_step False G vp" and ?h = "heap_view G (shd s)"
  have ends: "ends_section (busy_code B js [] e)" using assms(5) by (cases js) simp_all
  obtain a where a: "a \<le> acc l" "((local_step G) ^^ a) (cur t, ?h) (busy_code B js [] e, eff l ?h)"
    unfolding assms(3) code_busy using counted [OF ends] by blast
  from section_commits [OF assms(2) aligned assms(1) settled_waits [OF assms(8)] a(2) ends, of False] obtain s1 t1
    where s1: "within (6 * a + 13) ?R s s1" "section_over G s i t (busy_code B js [] e) (eff l ?h) s1 t1"
      "reaped s \<subseteq> reaped s1"
    by blast
  have t: "procs s i = Some t" "alive t" using assms(2) by (simp_all add: ready_def)
  have keep1: "keeps i s s1" by (rule over_keeps [OF s1(2)]) (simp add: t)
  have t1: "behind s1 i t1" "cur t1 = busy_code B js [] e" "heap_view G (shd s1) = eff l ?h"
      "parent t1 = parent t" "predecessor (gp t1) = predecessor (gp t)"
    using over_behind [OF s1(2)] s1(2) by (simp_all add: section_over_def)
  show ?thesis
  proof (cases "js = []")
    case True
    then have "cur t1 = Return" using t1(2) assms(5) by simp
    then have over: "section_over G s1 i t1 Return (heap_view G (shd s1)) s1 t1"
      using behind_over [OF t1(1)] by simp
    let ?s2 = "set_proc i (t1\<lparr>alive := False\<rparr>) s1"
    have "within (job_steps acc n (Job l js e)) ?R s ?s2"
      by (rule within_mono [OF within_next [where R = ?R, OF s1(1) exit_step [OF over]]]) (use a(1) in simp)
    moreover have "keeps i s1 ?s2" by (rule set_proc_keeps) (use t1(1) in \<open>simp_all add: behind_def\<close>)
    then have "ran G eff i (parent t) (Job l js e) s ?s2"
      by (rule ran_trans [OF keep1, where u = "t1\<lparr>alive := False\<rparr>"])
        (use t1 True \<open>cur t1 = Return\<close> in \<open>simp_all add: behind_def exited_def\<close>)
    ultimately show ?thesis using s1(3) by (intro exI [of _ ?s2]) simp
  next
    case False
    have "settled s1 (predecessor (gp t1))" using settled_keeps [OF assms(8) keep1 s1(3) t] t1(5) by simp
    from both_phases [OF assms(1) False t1(1,2) this keepsD(4) [OF keep1 assms(9)] assms(4)] obtain s2 t2
      where s2: "within (\<Sum>j\<leftarrow>js. job_steps acc n j + 19) ?R s1 s2" "ready s2 i t2" "cur t2 = e"
        "parent t2 = parent t1" "settled s2 (predecessor (gp t2))" "keeps i s1 s2" "reaped s1 \<subseteq> reaped s2"
        "heap_view G (shd s2) = fold (job_effect eff) js (heap_view G (shd s1))"
      by blast
    have heap2: "heap_view G (shd s2) = job_effect eff (Job l js e) ?h" using s2(8) t1(3) by simp
    from last_section [OF assms(1) s2(2,5) assms(6) [folded s2(3) heap2]] obtain s3 u
      where s3: "within (6 * k + 14) ?R s2 s3" "keeps i s2 s3" "reaped s2 \<subseteq> reaped s3" "procs s3 i = Some u" "exited u"
        "parent u = parent t2" "mutex (shd s3) = None" "vm_wf (global_page_version (shd s3))"
        "heap_view G (shd s3) = heap_view G (shd s2)"
      by blast
    have "(\<Sum>j\<leftarrow>js. job_steps acc n j + 19) \<le> (\<Sum>j\<leftarrow>js. job_steps acc n j + 29)" by (induction js) simp_all
    then have "within (job_steps acc n (Job l js e)) ?R s s3"
      by (intro within_mono [OF within_trans [OF s1(1) within_trans [OF s2(1) s3(1)]]]) (use assms(7) a(1) in simp)
    moreover have "ran G eff i (parent t) (Job l js e) s s3"
      by (rule ran_trans [OF keep1 keeps_trans [OF s2(6) s3(2)] s3(7,8) _ s3(4,5)])
        (simp_all add: s3(6,9) s2(4) t1(4) heap2)
    ultimately show ?thesis using s1(3) s2(7) s3(3) by blast
  qed
qed

lemma plain_runs_ordered: "live vp \<Longrightarrow> plain j \<Longrightarrow> ordered_run vp n j h"
proof (induction j arbitrary: h)
  case (Job l js e)
  have "e = Return" "\<forall>j\<in>set js. \<forall>h. ordered_run vp n j h" using Job by simp_all
  note job = ordered_job [OF Job.prems(1) _ _ this(2), where e = e and k = 0]
  show ?case
    unfolding ordered_run_def
  proof (intro allI impI)
    fix s i t
    assume "ready s i t" "cur t = code B (Job l js e)" "settled s (predecessor (gp t))" "finite (dom (procs s))"
    then show "\<exists>s'. within (job_steps acc n (Job l js e)) (sys_step False G vp) s s'
        \<and> ran G eff i (parent t) (Job l js e) s s' \<and> reaped s \<subseteq> reaped s'"
      by (intro job) (simp_all add: \<open>e = Return\<close>)
  qed
qed

text \<open>The first thread creates the thread of the main job.\<close>

lemma main_created:
  assumes "live vp" and "ready s i t" and "cur t = wrapped_main (code B j)"
    and "predecessor (gp t) = 0" and "procs s = [i \<mapsto> t]" and "i \<noteq> 0"
  shows "\<exists>s' t' c u. within 17 (sys_step False G vp) s s' \<and> behind s' i t' \<and> cur t' = Await c Return
    \<and> c \<noteq> 0 \<and> i \<noteq> c \<and> procs s' = [i \<mapsto> t', c \<mapsto> u] \<and> waiting u \<and> cur u = code B j \<and> parent u = i
    \<and> settled s' (predecessor (gp u)) \<and> heap_view G (shd s') = heap_view G (shd s)"
proof -
  let ?R = "sys_step False G vp"
  have cur: "cur t = busy_code B [j] [] Return" using assms(3) by (simp add: wrapped_main_def)
  then have "ends_section (cur t)" by simp
  from idle_section [OF assms(2) aligned assms(1) this, of False] obtain s1 t1
    where s1: "within 8 ?R s s1" "shd s1 = shd s"
      and over: "section_over G s i t (cur t) (heap_view G (shd s)) s1 t1" by blast
  have t1: "behind s1 i t1" "cur t1 = busy_code B [j] [] Return" "predecessor (gp t1) = 0" "procs s1 = [i \<mapsto> t1]"
    using over_behind [OF over] over cur assms(4,5) by (simp_all add: section_over_def)
  have "finite (dom (procs s1))" "procs s1 0 = None" using t1(4) assms(6) by simp_all
  from spawn_loop [OF assms(1) t1(1,2) this] obtain s2 t2 cs
    where s2: "within (9 * length [j]) ?R s1 s2" "behind s2 i t2" "cur t2 = busy_code B [] ([] @ cs) Return"
      "queued B s2 i 0 [j] cs" "\<forall>c\<in>set cs. procs s1 c = None"
      "\<forall>k. k \<noteq> i \<longrightarrow> k \<notin> set cs \<longrightarrow> procs s2 k = procs s1 k"
      "heap_view G (shd s2) = heap_view G (shd s1)"
    unfolding t1(3) by blast
  obtain c u where c: "cs = [c]" "c \<noteq> 0" "procs s2 c = Some u" "waiting u" "cur u = code B j" "parent u = i"
      "predecessor (gp u) = 0"
    using s2(4) by auto
  have "i \<noteq> c" using s2(5) c(1) t1(4) by auto
  have "procs s2 i = Some t2" using s2(2) by (simp add: behind_def)
  then have procs: "procs s2 = [i \<mapsto> t2, c \<mapsto> u]" using s2(6) c(1,3) t1(4) by (auto simp: fun_eq_iff)
  then have "settled s2 (predecessor (gp u))" using c(2,7) assms(6) by (simp add: settled_def)
  moreover have "within 17 ?R s s2" by (rule within_mono [OF within_trans [OF s1(1) s2(1)]]) simp
  ultimately show ?thesis using s2 c s1(2) procs \<open>i \<noteq> c\<close> by (intro exI [of _ s2] exI [of _ t2] exI [of _ c] exI [of _ u]) simp
qed

lemma ordered_program_completes:
  assumes "live vp" and "ready s i t" and "cur t = wrapped_main (code B (Job l js e))"
    and "predecessor (gp t) = 0" and "procs s = [i \<mapsto> t]" and "i \<noteq> 0"
    and "\<forall>j\<in>set js. plain j" and "js = [] \<longrightarrow> e = Return"
    and "finishes G e (job_effect eff (Job l js e) (heap_view G (shd s))) k" and "k \<le> n"
  shows "\<exists>s'. within (job_steps acc n (Job l js e) + 52) (sys_step False G vp) s s'
    \<and> (\<forall>k u. procs s' k = Some u \<longrightarrow> exited u) \<and> procs s' i \<noteq> None
    \<and> heap_view G (shd s') = job_effect eff (Job l js e) (heap_view G (shd s))"
proof -
  let ?R = "sys_step False G vp" and ?j = "Job l js e"
  from main_created [OF assms(1-6)] obtain s2 t2 c u
    where s2: "within 17 ?R s s2" "behind s2 i t2" "cur t2 = Await c Return" "heap_view G (shd s2) = heap_view G (shd s)"
      and c: "c \<noteq> 0" "i \<noteq> c" "procs s2 = [i \<mapsto> t2, c \<mapsto> u]" "waiting u" "cur u = code B ?j" "parent u = i"
        "settled s2 (predecessor (gp u))"
    by blast
  have u: "procs s2 c = Some u" and fin: "finite (dom (procs s2))" using c(3) by simp_all
  have "ordered_run vp n ?j (heap_view G (shd s2))"
    unfolding ordered_run_def
  proof (intro allI impI)
    fix s3 k3 t3
    assume at: "ready s3 k3 t3" "cur t3 = code B ?j" "settled s3 (predecessor (gp t3))"
      "finite (dom (procs s3))" "heap_view G (shd s3) = heap_view G (shd s2)"
    show "\<exists>s'. within (job_steps acc n ?j) ?R s3 s' \<and> ran G eff k3 (parent t3) ?j s3 s' \<and> reaped s3 \<subseteq> reaped s'"
      by (rule ordered_job [OF assms(1) at(1,2) _ _ _ assms(10) at(3,4)])
        (use assms(1,7-9) at(5) s2(4) plain_runs_ordered in auto)
  qed
  from run_and_join [OF s2(2,3) c(1,2) u c(4-7) fin this] obtain s3 t3
    where s3: "within (job_steps acc n ?j + 2) ?R s2 s3" "ready s3 i t3" "cur t3 = Return" "joined s2 i [c] s3"
      "heap_view G (shd s3) = job_effect eff ?j (heap_view G (shd s2))"
    by blast
  have "ends_section (cur t3)" using s3(3) by simp
  from idle_section [OF s3(2) aligned assms(1) this, of False] obtain s4 t4
    where s4: "within 8 ?R s3 s4" "shd s4 = shd s3"
      and over4: "section_over G s3 i t3 (cur t3) (heap_view G (shd s3)) s4 t4" by blast
  let ?t5 = "t4\<lparr>alive := False\<rparr>"
  let ?s5 = "set_proc i ?t5 s4"
  have t4: "procs s4 = (procs s3)(i \<mapsto> t4)" "pc t4 = After" "cur t4 = Return"
    using over4 s3(3) by (simp_all add: section_over_def)
  note path = within_trans [OF s2(1) within_trans [OF s3(1)
      within_next [where R = ?R, OF s4(1) exit_step [OF over4 [unfolded s3(3)]]]]]
  have "exited v" if v: "procs ?s5 k = Some v" for k v
  proof (cases "k = i")
    case True
    then show ?thesis using v t4(2,3) by (auto simp: exited_def)
  next
    case False
    then have "procs s3 k = Some v" using v t4(1) by simp
    moreover have "k \<in> set [c] \<or> procs s2 k = None" using False c(3) by auto
    ultimately show ?thesis using s3(4) unfolding joined_def by blast
  qed
  moreover have "within (job_steps acc n ?j + 52) ?R s ?s5" by (rule within_mono [OF path]) simp
  moreover have "heap_view G (shd ?s5) = job_effect eff ?j (heap_view G (shd s))"
    using s2(4) s3(5) s4(2) by simp
  ultimately show ?thesis by (intro exI [of _ ?s5]) auto
qed

text \<open>The main job gets behind its joins: its thread is about to run its last section.\<close>

lemma gets_behind_joins:
  assumes "live vp" and "ready s i t" and "cur t = wrapped_main (code B (Job l js e))"
    and "predecessor (gp t) = 0" and "procs s = [i \<mapsto> t]" and "i \<noteq> 0"
    and "\<forall>j\<in>set js. plain j" and "js \<noteq> []"
  shows "\<exists>s' c u. within (job_steps acc n (Job l js e) + 17) (sys_step False G vp) s s'
    \<and> ready s' c u \<and> cur u = e \<and> (\<forall>k v. procs s' k = Some v \<longrightarrow> alive v \<or> exited v)"
proof -
  let ?R = "sys_step False G vp" and ?j = "Job l js e"
  from main_created [OF assms(1-6)] obtain s2 t2 c u
    where s2: "within 17 ?R s s2" "behind s2 i t2"
      and c: "c \<noteq> 0" "i \<noteq> c" "procs s2 = [i \<mapsto> t2, c \<mapsto> u]" "waiting u" "cur u = code B ?j"
        "settled s2 (predecessor (gp u))"
    by blast
  have u: "procs s2 c = Some u" "alive u" and fin: "finite (dom (procs s2))" using c(3,4) by (simp_all add: waiting_def)
  have t2: "procs s2 i = Some t2" "alive t2" using s2(2) by (simp_all add: behind_def)
  have ready: "ready s2 c u" using s2(2) u c(4) by (simp add: ready_def behind_def waiting_def)
  have ends: "ends_section (busy_code B js [] e)" using assms(8) by (rule busy_code_ends [OF disjI1])
  obtain a where a: "a \<le> acc l" "((local_step G) ^^ a) (cur u, heap_view G (shd s2)) (busy_code B js [] e, eff l (heap_view G (shd s2)))"
    unfolding c(5) code_busy using counted [OF ends] by blast
  from section_commits [OF ready aligned assms(1) settled_waits [OF c(6)] a(2) ends, of False] obtain s3 t3
    where s3: "within (6 * a + 13) ?R s2 s3" "section_over G s2 c u (busy_code B js [] e) (eff l (heap_view G (shd s2))) s3 t3"
      "reaped s2 \<subseteq> reaped s3"
    by blast
  have keep3: "keeps c s2 s3" by (rule over_keeps [OF s3(2)]) (simp add: u)
  have t3: "behind s3 c t3" "cur t3 = busy_code B js [] e" "predecessor (gp t3) = predecessor (gp u)"
    using over_behind [OF s3(2)] s3(2) by (simp_all add: section_over_def)
  have "settled s3 (predecessor (gp t3))" using settled_keeps [OF c(6) keep3 s3(3) u] t3(3) by simp
  moreover have "\<forall>j\<in>set js. \<forall>h. ordered_run vp n j h" using assms(1,7) plain_runs_ordered by blast
  ultimately obtain s4 t4
    where s4: "within (\<Sum>j\<leftarrow>js. job_steps acc n j + 19) ?R s3 s4" "ready s4 c t4" "cur t4 = e" "keeps c s3 s4"
    using both_phases [OF assms(1,8) t3(1,2) _ keepsD(4) [OF keep3 fin]] by blast
  have keep: "keeps c s2 s4" by (rule keeps_trans [OF keep3 s4(4)])
  have "alive v \<or> exited v" if v: "procs s4 k = Some v" for k v
  proof (cases "k = c")
    case True
    then show ?thesis using v s4(2) by (simp add: ready_def)
  next
    case False
    show ?thesis
    proof (cases "procs s2 k")
      case None
      then show ?thesis using keepsD(2) [OF keep v] by simp
    next
      case (Some w)
      then have "w = v" using keepsD(1) [OF keep Some False] v by simp
      moreover have "k = i" using Some c(3) False by (auto split: if_splits)
      ultimately show ?thesis using Some t2 by simp
    qed
  qed
  moreover have "(\<Sum>j\<leftarrow>js. job_steps acc n j + 19) \<le> (\<Sum>j\<leftarrow>js. job_steps acc n j + 29)" by (induction js) simp_all
  then have "within (job_steps acc n ?j + 17) ?R s s4"
    by (intro within_mono [OF within_trans [OF s2(1) within_trans [OF s3(1) s4(1)]]]) (use a(1) in simp)
  ultimately show ?thesis using s4(2,3) by blast
qed

lemma any_program_completes:
  assumes "live vp" and "ready s i t" and "cur t = wrapped_main (code B (Job l js e))"
    and "predecessor (gp t) = 0" and "procs s = [i \<mapsto> t]" and "i \<noteq> 0"
    and "\<forall>j\<in>set js. plain j" and "js \<noteq> []"
    and "finishes G e (job_effect eff (Job l js e) (heap_view G (shd s))) k" and "k \<le> n"
  shows "\<exists>s'. within (job_steps acc n (Job l js e) + 52) (sys_step no_order G vp) s s'
    \<and> (\<forall>k u. procs s' k = Some u \<longrightarrow> exited u) \<and> procs s' i \<noteq> None
    \<and> heap_view G (shd s') = job_effect eff (Job l js e) (heap_view G (shd s))"
  using program_completes [OF assms] ordered_program_completes [OF assms(1-7) _ assms(9,10)] assms(8)
  by (cases no_order) simp_all

end

end
