(* ===== verification/Cells.thy ===== *)
theory Cells
  imports Atomic_Sections
begin

text \<open>
  What C programs do with the bytes of the heap: they read and write words of several bytes in
  little-endian order, and they loop. Each construct comes with the number of accesses it makes
  and its effect on the memory.
\<close>

section \<open>Bytes and words\<close>

fun bytes_of :: "nat \<Rightarrow> nat \<Rightarrow> byte list" where
  "bytes_of 0 v = []"
| "bytes_of (Suc n) v = of_nat v # bytes_of n (v div 256)"

fun value_of :: "byte list \<Rightarrow> nat" where
  "value_of [] = 0"
| "value_of (b # bs) = unat b + 256 * value_of bs"

lemma length_bytes_of [simp]: "length (bytes_of n v) = n"
  by (induction n arbitrary: v) simp_all

lemma value_bytes: "value_of (bytes_of n v) = v mod 256 ^ n"
proof (induction n arbitrary: v)
  case (Suc n)
  have "v mod 256 ^ Suc n = v mod 256 + 256 * (v div 256 mod 256 ^ n)"
    by (simp add: mod_mult2_eq)
  with Suc show ?case by (simp add: unat_of_nat)
qed simp

definition read_bytes :: "memory \<Rightarrow> addr \<Rightarrow> nat \<Rightarrow> byte list" where
  "read_bytes m a n = map (\<lambda>i. m (a + of_nat i)) [0..<n]"

fun put_bytes :: "addr \<Rightarrow> byte list \<Rightarrow> memory \<Rightarrow> memory" where
  "put_bytes a [] m = m"
| "put_bytes a (b # bs) m = put_bytes (a + 1) bs (m(a := b))"

lemma read_bytes_Suc: "read_bytes m a (Suc n) = m a # read_bytes m (a + 1) n"
  by (simp add: read_bytes_def upt_conv_Cons map_Suc_upt [symmetric] add.assoc del: upt_Suc)

lemma length_read_bytes [simp]: "length (read_bytes m a n) = n"
  by (simp add: read_bytes_def)

text \<open>A word and the bytes that hold it.\<close>

abbreviation width :: "'w::len itself \<Rightarrow> nat" where
  "width w \<equiv> LENGTH('w) div 8"

definition word_at :: "memory \<Rightarrow> addr \<Rightarrow> 'w::len word" where
  "word_at m a = of_nat (value_of (read_bytes m a (width TYPE('w))))"

definition put_word :: "addr \<Rightarrow> 'w::len word \<Rightarrow> memory \<Rightarrow> memory" where
  "put_word a w = put_bytes a (bytes_of (width TYPE('w)) (unat w))"

text \<open>The bytes of a block, without wrapping around the address space.\<close>

definition extent :: "addr \<Rightarrow> nat \<Rightarrow> addr set" where
  "extent a n = (\<lambda>i. a + of_nat i) ` {..<n}"

lemma extent_Suc: "extent a (Suc n) = insert a (extent (a + 1) n)"
  by (simp add: extent_def lessThan_Suc_eq_insert_0 image_image add.assoc)

lemma put_bytes_other: "x \<notin> extent a (length bs) \<Longrightarrow> put_bytes a bs m x = m x"
  by (induction bs arbitrary: a m) (auto simp: extent_Suc)

lemma read_put_other: "extent a n \<inter> extent b (length bs) = {} \<Longrightarrow> read_bytes (put_bytes b bs m) a n = read_bytes m a n"
  unfolding read_bytes_def by (intro map_cong refl put_bytes_other) (auto simp: extent_def)

lemma first_fresh: "n < 2 ^ 64 \<Longrightarrow> a \<notin> extent (a + 1 :: addr) n"
proof
  assume n: "n < 2 ^ 64" and "a \<in> extent (a + 1) n"
  then obtain i where i: "i < n" "a = a + 1 + of_nat i" by (auto simp: extent_def)
  then have "of_nat (Suc i) = (0 :: addr)" by (simp add: add.assoc)
  then have "2 ^ LENGTH(64) dvd Suc i" unfolding word_of_nat_eq_0_iff .
  with i n show False by (auto dest: dvd_imp_le)
qed

lemma read_put_same: "length bs \<le> 2 ^ 64 \<Longrightarrow> read_bytes (put_bytes a bs m) a (length bs) = bs"
proof (induction bs arbitrary: a m)
  case (Cons b bs)
  have "a \<notin> extent (a + 1) (length bs)" using Cons.prems by (intro first_fresh) simp
  then show ?case using Cons by (simp add: read_bytes_Suc put_bytes_other)
qed (simp add: read_bytes_def)

lemma word_at_put_same:
  assumes "8 dvd LENGTH('w)" and "LENGTH('w::len) \<le> 2 ^ 64"
  shows "word_at (put_word a (w :: 'w word) m) a = w"
proof -
  have "256 ^ width TYPE('w) = (2 :: nat) ^ LENGTH('w)"
    using assms(1) power_mult [of "2 :: nat" 8 "width TYPE('w)"] by simp
  then have "value_of (bytes_of (width TYPE('w)) (unat w)) = unat w"
    by (simp add: value_bytes)
  moreover have "width TYPE('w) \<le> 2 ^ 64" using assms(2) by simp
  ultimately show ?thesis
    using read_put_same [of "bytes_of (width TYPE('w)) (unat w)" a m]
    by (simp add: word_at_def put_word_def)
qed

lemma word_at_put_other:
  "extent a (width TYPE('w)) \<inter> extent b (width TYPE('v)) = {} \<Longrightarrow>
    (word_at (put_word b (v :: 'v::len word) m) a :: 'w::len word) = word_at m a"
  by (simp add: word_at_def put_word_def read_put_other)

section \<open>Programs on words\<close>

fun load_bytes :: "addr \<Rightarrow> nat \<Rightarrow> (byte list \<Rightarrow> prog) \<Rightarrow> prog" where
  "load_bytes a 0 k = k []"
| "load_bytes a (Suc n) k = Load a (\<lambda>b. load_bytes (a + 1) n (\<lambda>bs. k (b # bs)))"

fun store_bytes :: "addr \<Rightarrow> byte list \<Rightarrow> prog \<Rightarrow> prog" where
  "store_bytes a [] c = c"
| "store_bytes a (b # bs) c = Store a b (store_bytes (a + 1) bs c)"

definition load_word :: "addr \<Rightarrow> ('w::len word \<Rightarrow> prog) \<Rightarrow> prog" where
  "load_word a k = load_bytes a (width TYPE('w)) (\<lambda>bs. k (of_nat (value_of bs)))"

definition store_word :: "addr \<Rightarrow> 'w::len word \<Rightarrow> prog \<Rightarrow> prog" where
  "store_word a w = store_bytes a (bytes_of (width TYPE('w)) (unat w))"

text \<open>\<open>for (int i = lo; i < n; i++) body\<close>, with \<open>c\<close> the code behind the loop.\<close>

function for_loop :: "nat \<Rightarrow> nat \<Rightarrow> (nat \<Rightarrow> prog \<Rightarrow> prog) \<Rightarrow> prog \<Rightarrow> prog" where
  "for_loop lo n body c = (if lo < n then body lo (for_loop (Suc lo) n body c) else c)"
  by pat_completeness auto
termination by (relation "measure (\<lambda>(lo, n, _). n - lo)") auto

declare for_loop.simps [simp del]

text \<open>\<open>takes G k c m d m'\<close>: from \<open>c\<close>, \<open>k\<close> accesses lead to \<open>d\<close> with memory \<open>m'\<close>.\<close>

definition takes :: "heap_globals \<Rightarrow> nat \<Rightarrow> prog \<Rightarrow> memory \<Rightarrow> prog \<Rightarrow> memory \<Rightarrow> bool" where
  "takes G k c m d m' \<longleftrightarrow> ((local_step G) ^^ k) (c, m) (d, m')"

lemma takes_refl [simp]: "takes G 0 c m c m"
  by (simp add: takes_def)

lemma takes_trans: "takes G j c m d m' \<Longrightarrow> takes G k d m' e m'' \<Longrightarrow> takes G (j + k) c m e m''"
  unfolding takes_def by (metis relcomppI relpowp_add)

lemma takes_load: "in_heap G a \<Longrightarrow> takes G k (f (m a)) m d m' \<Longrightarrow> takes G (Suc k) (Load a f) m d m'"
  unfolding takes_def by (rule relpowp_Suc_I2 [where P = "local_step G", OF local_step.load])

lemma takes_store: "in_heap G a \<Longrightarrow> takes G k c (m(a := b)) d m' \<Longrightarrow> takes G (Suc k) (Store a b c) m d m'"
  unfolding takes_def by (rule relpowp_Suc_I2 [where P = "local_step G", OF local_step.store])

lemma takes_runs: "takes G k c m d m' \<Longrightarrow> runs G c m d m'"
  unfolding takes_def runs_def by (rule relpowp_imp_rtranclp)

lemma takes_load_bytes:
  "extent a n \<subseteq> Collect (in_heap G) \<Longrightarrow> takes G n (load_bytes a n k) m (k (read_bytes m a n)) m"
proof (induction n arbitrary: a k)
  case (Suc n)
  then show ?case by (auto simp: extent_Suc read_bytes_Suc intro!: takes_load)
qed (simp add: read_bytes_def)

lemma takes_store_bytes:
  "extent a (length bs) \<subseteq> Collect (in_heap G) \<Longrightarrow>
    takes G (length bs) (store_bytes a bs c) m c (put_bytes a bs m)"
  by (induction bs arbitrary: a m) (auto simp: extent_Suc intro!: takes_store)

lemma takes_load_word:
  "extent a (width TYPE('w)) \<subseteq> Collect (in_heap G) \<Longrightarrow>
    takes G (width TYPE('w)) (load_word a k) m (k (word_at m a :: 'w::len word)) m"
  unfolding load_word_def word_at_def by (rule takes_load_bytes)

lemma takes_store_word:
  "extent a (width TYPE('w)) \<subseteq> Collect (in_heap G) \<Longrightarrow>
    takes G (width TYPE('w)) (store_word a (w :: 'w::len word) c) m c (put_word a w m)"
  unfolding store_word_def put_word_def
  using takes_store_bytes [of a "bytes_of (width TYPE('w)) (unat w)" G c m] by simp

text \<open>
  A loop whose body makes \<open>k\<close> accesses and has the effect \<open>f i\<close>, as long as the memory
  satisfies \<open>P\<close>.
\<close>

lemma takes_for_loop_while:
  assumes "\<And>i c m. lo \<le> i \<Longrightarrow> i < n \<Longrightarrow> P m \<Longrightarrow> takes G k (body i c) m c (f i m)"
    and "\<And>i m. P m \<Longrightarrow> P (f i m)" and "P m"
  shows "takes G (k * (n - lo)) (for_loop lo n body c) m c (fold f [lo..<n] m)"
  using assms
proof (induction "n - lo" arbitrary: lo m)
  case 0
  then show ?case by (simp add: for_loop.simps [of lo])
next
  case (Suc x)
  then have lo: "lo < n" by simp
  have "takes G k (body lo (for_loop (Suc lo) n body c)) m (for_loop (Suc lo) n body c) (f lo m)"
    using Suc.prems lo by simp
  moreover have "takes G (k * (n - Suc lo)) (for_loop (Suc lo) n body c) (f lo m) c
      (fold f [Suc lo..<n] (f lo m))"
    using Suc.hyps(2) Suc.prems by (intro Suc.hyps(1)) simp_all
  ultimately have "takes G (k + k * (n - Suc lo)) (for_loop lo n body c) m c
      (fold f [Suc lo..<n] (f lo m))"
    using lo by (simp add: for_loop.simps [of lo] takes_trans)
  moreover have "k + k * (n - Suc lo) = k * (n - lo)"
    using lo by (metis Suc_diff_Suc mult_Suc_right)
  ultimately show ?case using lo by (simp add: upt_conv_Cons)
qed

lemma takes_for_loop:
  assumes "\<And>i c m. lo \<le> i \<Longrightarrow> i < n \<Longrightarrow> takes G k (body i c) m c (f i m)"
  shows "takes G (k * (n - lo)) (for_loop lo n body c) m c (fold f [lo..<n] m)"
  by (rule takes_for_loop_while [where P = "\<lambda>m. True"]) (rule assms TrueI | assumption)+

lemma takes_read_loop:
  assumes "\<And>i c. lo \<le> i \<Longrightarrow> i < n \<Longrightarrow> takes G k (body i c) m c m"
  shows "takes G (k * (n - lo)) (for_loop lo n body c) m c m"
proof -
  have "fold (\<lambda>i m. m) xs m = m" for xs :: "nat list" by (induction xs) simp_all
  moreover have "takes G (k * (n - lo)) (for_loop lo n body c) m c (fold (\<lambda>i m. m) [lo..<n] m)"
    by (rule takes_for_loop_while [where P = "(=) m"]) (auto intro: assms)
  ultimately show ?thesis by simp
qed

end
