(* ===== verification/Log.thy ===== *)
theory Log
  imports Prelude
begin

text \<open>
  \<open>src/src/log.h\<close> and \<open>src/src/color_log.hh\<close>: the stream loggers behind
  \<open>REQUIRE\<close>, \<open>FATAL\<close> and their relatives, and the per-process coloured log lines.
  Standard error is the string written so far. A logger's destructor ends the line and, for a
  fatal one, aborts the process, so the outcome of a statement is the output and whether the
  process is still alive.
\<close>

section \<open>Colours and numbers\<close>

definition ESC :: char where
  "ESC = CHR 0x1B"

definition newline :: string where
  "newline = [CHR 0x0A]"

definition InfoColor :: string where "InfoColor = ESC # ''[01;34m''"

definition WarningColor :: string where "WarningColor = ESC # ''[01;33m''"

definition FatalColor :: string where "FatalColor = ESC # ''[01;31m''"

definition SourceColor :: string where "SourceColor = ESC # ''[34m''"

definition EndColor :: string where "EndColor = ESC # ''[0m''"

text \<open>\<open>operator<<\<close> of the standard stream on an unsigned number.\<close>

fun show_nat :: "nat \<Rightarrow> string" where
  "show_nat n = (if n < 10 then [char_of (48 + n)] else show_nat (n div 10) @ [char_of (48 + n mod 10)])"

declare show_nat.simps [simp del]

section \<open>The silent logger\<close>

datatype logger_base = Logger_base

definition base_indent :: "nat \<Rightarrow> nat \<Rightarrow> logger_base \<Rightarrow> logger_base" where
  "base_indent n tab_size l = Logger_base"

definition base_put :: "string \<Rightarrow> logger_base \<Rightarrow> logger_base" where
  "base_put t l = Logger_base"

section \<open>The logger\<close>

record logger =
  exits :: bool
  owes_end :: bool

definition new_logger :: "bool \<Rightarrow> bool \<Rightarrow> logger" where
  "new_logger e d = \<lparr>exits = e, owes_end = d\<rparr>"

text \<open>The move constructor: the new logger and what is left of the old one.\<close>

definition move_logger :: "logger \<Rightarrow> logger \<times> logger" where
  "move_logger other = (\<lparr>exits = exits other, owes_end = owes_end other\<rparr>, other\<lparr>owes_end := False\<rparr>)"

definition assign_logger :: "logger \<Rightarrow> logger \<Rightarrow> logger \<times> logger" where
  "assign_logger l other = (l\<lparr>exits := exits other, owes_end := owes_end other\<rparr>, other\<lparr>owes_end := False\<rparr>)"

text \<open>The destructor: the output and whether it aborts.\<close>

definition destroy_logger :: "logger \<Rightarrow> string \<Rightarrow> string \<times> bool" where
  "destroy_logger l err = (if owes_end l then (err @ EndColor @ newline, exits l) else (err, False))"

fun tab_loop :: "nat \<Rightarrow> string \<Rightarrow> string" where
  "tab_loop 0 err = err"
| "tab_loop (Suc j) err = tab_loop j (err @ '' '')"

fun indent_loop :: "nat \<Rightarrow> nat \<Rightarrow> string \<Rightarrow> string" where
  "indent_loop 0 tab_size err = err"
| "indent_loop (Suc i) tab_size err = indent_loop i tab_size (tab_loop tab_size err)"

definition indent :: "nat \<Rightarrow> nat \<Rightarrow> logger \<times> string \<Rightarrow> logger \<times> string" where
  "indent n tab_size = (\<lambda>(l, err). (l, indent_loop n tab_size err))"

definition put :: "string \<Rightarrow> logger \<times> string \<Rightarrow> logger \<times> string" where
  "put t = (\<lambda>(l, err). (l, err @ t))"

section \<open>The macros\<close>

text \<open>\<open>LOG(color, exit)\<close>, with and without \<open>NDEBUG\<close>.\<close>

definition LOG_NDEBUG :: "string \<Rightarrow> bool \<Rightarrow> string \<Rightarrow> logger \<times> string" where
  "LOG_NDEBUG color e err = put color (new_logger e True, err)"

definition LOG :: "string \<Rightarrow> nat \<Rightarrow> string \<Rightarrow> bool \<Rightarrow> string \<Rightarrow> logger \<times> string" where
  "LOG file line color e err =
     (let l = (new_logger e True, err);
          l = put SourceColor l; l = put ''['' l; l = put file l; l = put '':'' l;
          l = put (show_nat line) l; l = put ''] '' l
      in put color l)"

definition INFO :: "string \<Rightarrow> nat \<Rightarrow> string \<Rightarrow> logger \<times> string" where
  "INFO file line = LOG file line InfoColor False"

definition WARNING :: "string \<Rightarrow> nat \<Rightarrow> string \<Rightarrow> logger \<times> string" where
  "WARNING file line = LOG file line WarningColor False"

definition FATAL :: "string \<Rightarrow> nat \<Rightarrow> string \<Rightarrow> logger \<times> string" where
  "FATAL file line = LOG file line FatalColor True"

text \<open>
  Whole statements \<open>M(cond) << msg;\<close>. The conditional operator binds weaker than \<open><<\<close>,
  so the message belongs to the failing side; the logger dies at the end of the statement.
\<close>

definition finish :: "logger \<times> string \<Rightarrow> string \<times> bool" where
  "finish = (\<lambda>(l, err). destroy_logger l err)"

definition PREFER :: "bool \<Rightarrow> string \<Rightarrow> nat \<Rightarrow> string \<Rightarrow> string \<Rightarrow> string \<times> bool" where
  "PREFER cond file line msg err =
     (if cond then (err, False) else finish (put msg (WARNING file line err)))"

definition REQUIRE :: "bool \<Rightarrow> string \<Rightarrow> nat \<Rightarrow> string \<Rightarrow> string \<Rightarrow> string \<times> bool" where
  "REQUIRE cond file line msg err =
     (if cond then (err, False) else finish (put msg (FATAL file line err)))"

definition ASSERT :: "bool \<Rightarrow> string \<Rightarrow> nat \<Rightarrow> string \<Rightarrow> string \<Rightarrow> string \<times> bool" where
  "ASSERT cond file line msg err =
     (if cond then (err, False) else finish (put msg (FATAL file line err)))"

section \<open>Coloured log lines\<close>

definition RED :: string where "RED = ESC # ''[1;31m''"

definition GREEN :: string where "GREEN = ESC # ''[1;32m''"

definition YELLOW :: string where "YELLOW = ESC # ''[1;33m''"

definition BLUE :: string where "BLUE = ESC # ''[1;34m''"

definition MAGENTA :: string where "MAGENTA = ESC # ''[1;35m''"

definition CYAN :: string where "CYAN = ESC # ''[1;36m''"

definition END :: string where "END = ESC # ''[0m'' @ newline"

definition process_color :: "pid_t \<Rightarrow> string" where
  "process_color pid =
     (let color = pid mod 6 in
      if color = 0 then RED
      else if color = 1 then GREEN
      else if color = 2 then YELLOW
      else if color = 3 then BLUE
      else if color = 4 then MAGENTA
      else if color = 5 then CYAN
      else '''')"

definition ProcessChooseColor :: "pid_t \<Rightarrow> string" where
  "ProcessChooseColor pid = process_color pid @ show_nat pid @ '': ''"

text \<open>\<open>logprint\<close> is whether \<open>LOGPRINT\<close> is defined.\<close>

definition ColorLog :: "bool \<Rightarrow> pid_t \<Rightarrow> string \<Rightarrow> string \<Rightarrow> string" where
  "ColorLog logprint pid x err = (if logprint then err @ ProcessChooseColor pid @ x @ END else err)"

lemmas color_defs = RED_def GREEN_def YELLOW_def BLUE_def MAGENTA_def CYAN_def

lemmas log_defs = LOG_def INFO_def WARNING_def FATAL_def put_def new_logger_def finish_def
  destroy_logger_def Let_def

section \<open>Properties\<close>

text \<open>
  \<open>REQUIRE\<close> and \<open>PREFER\<close> are silent when their condition holds; otherwise they
  print the source position, the colour, the message and the end of the line, once, and
  \<open>REQUIRE\<close> alone aborts the process.
\<close>

lemma require_statement:
  "REQUIRE cond file line msg err =
    (if cond then (err, False)
     else (err @ SourceColor @ ''['' @ file @ '':'' @ show_nat line @ ''] '' @ FatalColor @ msg
       @ EndColor @ newline, True))
   \<and> PREFER cond file line msg err =
    (if cond then (err, False)
     else (err @ SourceColor @ ''['' @ file @ '':'' @ show_nat line @ ''] '' @ WarningColor @ msg
       @ EndColor @ newline, False))"
  by (simp add: REQUIRE_def PREFER_def log_defs)

fun move_times :: "nat \<Rightarrow> logger \<Rightarrow> logger list" where
  "move_times 0 l = [l]"
| "move_times (Suc n) l = (let (l', old) = move_logger l in old # move_times n l')"

fun destroy_all :: "logger list \<Rightarrow> string \<Rightarrow> string \<times> bool" where
  "destroy_all [] err = (err, False)"
| "destroy_all (l # ls) err =
     (let (err, dead) = destroy_logger l err in if dead then (err, True) else destroy_all ls err)"

text \<open>
  Moving a logger moves the duty to end the line: however often it is moved, destroying
  all the loggers involved prints the end of the line once if the first one would have printed
  it, and aborts only then.
\<close>

lemma moved_logger_ends_line_once:
  "destroy_all (move_times n l) err = destroy_logger l err"
  by (induction n arbitrary: l) (auto simp: move_logger_def destroy_logger_def)

text \<open>
  Two processes log in the same colour exactly when their ids agree modulo six, and a
  line is the colour, the id, the text and the terminator, or nothing when logging is off.
\<close>

lemma color_log_line:
  "(process_color pid = process_color pid' \<longleftrightarrow> pid mod 6 = pid' mod 6)
   \<and> ColorLog True pid x err = err @ process_color pid @ show_nat pid @ '': '' @ x @ END
   \<and> ColorLog False pid x err = err"
proof -
  have "k < 6 \<Longrightarrow> k \<in> {0, 1, 2, 3, 4, 5 :: nat}" for k by auto
  then have "pid mod 6 \<in> {0, 1, 2, 3, 4, 5}" "pid' mod 6 \<in> {0, 1, 2, 3, 4, 5}" by simp_all
  then have "process_color pid = process_color pid' \<longleftrightarrow> pid mod 6 = pid' mod 6"
    by (elim insertE) (simp_all add: process_color_def color_defs)
  then show ?thesis by (simp add: ColorLog_def ProcessChooseColor_def)
qed

end
