(* ===== verification/Blob_Programs.thy ===== *)
theory Blob_Programs
  imports Ordered_Completion Cells Scenarios Log
begin

text \<open>
  \<open>example/test.cc\<close>, and \<open>pthread/nolock.cc\<close>, \<open>pthread/lock.cc\<close> and \<open>pthread/serial.cc\<close>,
  which differ in the constants and in where the increments run: threads add one to every
  counter of a block of the heap, without synchronisation, and the program checks the sums.
  The constants of the files are arguments: \<open>A\<close> and \<open>B\<close> are \<open>A_SIZE\<close> and \<open>B_SIZE\<close>,
  \<open>n\<close> is \<open>THREAD_NUM\<close>, \<open>k\<close> is \<open>SECONDARY_THREAD_NUM\<close>, and \<open>double\<close> says
  whether \<open>DOUBLE\<close> is defined. What \<open>malloc\<close> returned is the address \<open>b\<close>. Output to the
  terminal is left out; what it reads from the heap is not.
\<close>

section \<open>The block\<close>

text \<open>\<open>struct blob\<close>: two arrays of \<open>int\<close>, and a \<open>size_t\<close> aligned to eight bytes.\<close>

definition a_cell :: "addr \<Rightarrow> nat \<Rightarrow> addr" where
  "a_cell b i = b + of_nat (4 * i)"

definition b_cell :: "nat \<Rightarrow> addr \<Rightarrow> nat \<Rightarrow> addr" where
  "b_cell A b i = b + of_nat (4 * A + 4 * i)"

definition c_offset :: "nat \<Rightarrow> nat \<Rightarrow> nat" where
  "c_offset A B = next_multiple (4 * A + 4 * B) 8"

definition c_cell :: "nat \<Rightarrow> nat \<Rightarrow> addr \<Rightarrow> addr" where
  "c_cell A B b = b + of_nat (c_offset A B)"

definition sizeof_blob :: "nat \<Rightarrow> nat \<Rightarrow> nat" where
  "sizeof_blob A B = c_offset A B + 8"

section \<open>The threads\<close>

text \<open>\<open>x = x + 1\<close> for an \<open>int\<close> or a \<open>size_t\<close> of the block.\<close>

definition increment :: "'w::len itself \<Rightarrow> addr \<Rightarrow> prog \<Rightarrow> prog" where
  "increment w a c = load_word a (\<lambda>v :: 'w word. store_word a (v + 1) c)"

definition increment_all :: "nat \<Rightarrow> nat \<Rightarrow> addr \<Rightarrow> prog \<Rightarrow> prog" where
  "increment_all A B b c =
     for_loop 0 A (\<lambda>i. increment TYPE(32) (a_cell b i))
      (for_loop 0 B (\<lambda>i. increment TYPE(32) (b_cell A b i))
        (increment TYPE(64) (c_cell A B b) c))"

definition fn2 :: "nat \<Rightarrow> nat \<Rightarrow> addr \<Rightarrow> prog" where
  "fn2 A B b = increment_all A B b Return"

definition fn1 :: "bool \<Rightarrow> nat \<Rightarrow> nat \<Rightarrow> nat \<Rightarrow> addr \<Rightarrow> prog" where
  "fn1 double k A B b =
     increment_all A B b
      (if double then create_all (replicate k (fn2 A B b)) (\<lambda>ts. join_all ts Return) else Return)"

section \<open>The main programs\<close>

text \<open>A failing \<open>REQUIRE\<close> aborts the process.\<close>

definition require_word :: "addr \<Rightarrow> 'w::len word \<Rightarrow> prog \<Rightarrow> prog" where
  "require_word a expected c = load_word a (\<lambda>v. if v = expected then c else Quit)"

definition expected_count :: "bool \<Rightarrow> nat \<Rightarrow> nat \<Rightarrow> nat" where
  "expected_count double n k = (if double then n * (k + 1) else n)"

definition verify :: "nat \<Rightarrow> nat \<Rightarrow> addr \<Rightarrow> nat \<Rightarrow> prog \<Rightarrow> prog" where
  "verify A B b expected c =
     for_loop 0 A (\<lambda>i. require_word (a_cell b i) (of_nat expected :: 32 word))
      (for_loop 0 B (\<lambda>i. require_word (b_cell A b i) (of_nat expected :: 32 word))
        (require_word (c_cell A B b) (of_nat expected :: 64 word) c))"

definition memset_blob :: "nat \<Rightarrow> nat \<Rightarrow> addr \<Rightarrow> prog \<Rightarrow> prog" where
  "memset_blob A B b = store_bytes b (replicate (sizeof_blob A B) 0)"

definition print_c :: "nat \<Rightarrow> nat \<Rightarrow> addr \<Rightarrow> prog" where
  "print_c A B b = load_word (c_cell A B b) (\<lambda>v :: 64 word. Return)"

definition test_main :: "bool \<Rightarrow> nat \<Rightarrow> nat \<Rightarrow> nat \<Rightarrow> nat \<Rightarrow> addr \<Rightarrow> prog" where
  "test_main double n k A B b =
     memset_blob A B b
      (create_all (replicate n (fn1 double k A B b))
        (\<lambda>ts. join_all ts (verify A B b (expected_count double n k) (print_c A B b))))"

definition serial_verify :: "nat \<Rightarrow> nat \<Rightarrow> nat \<Rightarrow> addr \<Rightarrow> prog \<Rightarrow> prog" where
  "serial_verify n A B b c = verify A B b (expected_count False n 0) c"

definition serial_main :: "nat \<Rightarrow> nat \<Rightarrow> nat \<Rightarrow> addr \<Rightarrow> prog" where
  "serial_main n A B b =
     memset_blob A B b (for_loop 0 n (\<lambda>t. increment_all A B b) (serial_verify n A B b (print_c A B b)))"

text \<open>The programs with the constants of their files; \<open>nolock.cc\<close> defines \<open>DOUBLE\<close>.\<close>

definition test_program :: "addr \<Rightarrow> prog" where
  "test_program b = test_main False 20 30 100 150 b"

definition nolock_fn2 :: "addr \<Rightarrow> prog" where
  "nolock_fn2 b = increment_all 1000 1500 b Return"

definition nolock_fn1 :: "addr \<Rightarrow> prog" where
  "nolock_fn1 b =
     increment_all 1000 1500 b (create_all (replicate 50 (nolock_fn2 b)) (\<lambda>ts. join_all ts Return))"

definition nolock_verify :: "addr \<Rightarrow> prog \<Rightarrow> prog" where
  "nolock_verify b c = verify 1000 1500 b (50 * (50 + 1)) c"

definition nolock_main :: "addr \<Rightarrow> prog" where
  "nolock_main b =
     memset_blob 1000 1500 b
      (create_all (replicate 50 (nolock_fn1 b))
        (\<lambda>ts. join_all ts (nolock_verify b (print_c 1000 1500 b))))"

lemma nolock_is_test: "nolock_main b = test_main True 50 50 1000 1500 b"
  by (simp add: nolock_main_def nolock_fn1_def nolock_fn2_def nolock_verify_def test_main_def
    fn1_def fn2_def expected_count_def)

text \<open>
  \<open>lock.cc\<close>: its mutex is a global variable, so under the library each process has its own copy,
  which a created thread takes over from its creator. Locking a locked mutex, which nobody else
  could unlock, never returns (\<open>None\<close>). A section that is rolled back has unlocked before.
\<close>

definition mutex_lock :: "bool \<Rightarrow> bool option" where
  "mutex_lock locked = (if locked then None else Some True)"

definition mutex_unlock :: "bool \<Rightarrow> bool option" where
  "mutex_unlock locked = Some False"

definition lock_fn2 :: "bool \<Rightarrow> addr \<Rightarrow> prog option" where
  "lock_fn2 m b =
     Option.bind (mutex_lock m) (\<lambda>m.
       Option.bind (mutex_unlock m) (\<lambda>m. Some (increment_all 1000 1500 b Return)))"

definition lock_fn1 :: "bool \<Rightarrow> addr \<Rightarrow> prog option" where
  "lock_fn1 m b =
     Option.bind (mutex_lock m) (\<lambda>m.
       Option.bind (mutex_unlock m) (\<lambda>m. Some (increment_all 1000 1500 b Return)))"

definition lock_verify :: "addr \<Rightarrow> prog \<Rightarrow> prog" where
  "lock_verify b c = verify 1000 1500 b 1000 c"

definition lock_main :: "bool \<Rightarrow> addr \<Rightarrow> prog option" where
  "lock_main m b =
     map_option (\<lambda>thread. memset_blob 1000 1500 b
       (create_all (replicate 1000 thread)
         (\<lambda>ts. join_all ts (lock_verify b (print_c 1000 1500 b))))) (lock_fn1 m b)"

lemma lock_fn2_is_fn2: "lock_fn2 False b = Some (fn2 1000 1500 b)"
  by (simp add: lock_fn2_def mutex_lock_def mutex_unlock_def fn2_def)

lemma lock_is_test: "lock_main False b = Some (test_main False 1000 k 1000 1500 b)"
  by (simp add: lock_main_def lock_fn1_def mutex_lock_def mutex_unlock_def lock_verify_def test_main_def
    fn1_def expected_count_def)

section \<open>Printing the block\<close>

text \<open>
  \<open>print_blob\<close>, which a user can call from \<open>main\<close>: what it writes to the terminal, from the
  memory the process sees. \<open>%d\<close> prints an \<open>int\<close>, so the two arrays are read as signed words.
\<close>

definition show_int :: "32 word \<Rightarrow> string" where
  "show_int v = (if sint v < 0 then ''-'' @ show_nat (nat (- sint v)) else show_nat (nat (sint v)))"

definition print_cells :: "(nat \<Rightarrow> addr) \<Rightarrow> nat \<Rightarrow> memory \<Rightarrow> string" where
  "print_cells address n m = concat (map (\<lambda>i. '' '' @ show_int (word_at m (address i))) [0..<n])"

definition print_blob :: "nat \<Rightarrow> nat \<Rightarrow> addr \<Rightarrow> memory \<Rightarrow> string" where
  "print_blob A B b m =
     ''a = '' @ print_cells (a_cell b) A m @ [CHR 0x0A] @
     ''b = '' @ print_cells (b_cell A b) B m @ [CHR 0x0A]"

definition nolock_print_blob :: "addr \<Rightarrow> memory \<Rightarrow> string" where
  "nolock_print_blob b m =
     ''a = '' @ print_cells (a_cell b) 1000 m @ [CHR 0x0A] @
     ''b = '' @ print_cells (b_cell 1000 b) 1500 m @ [CHR 0x0A]"

definition lock_print_blob :: "addr \<Rightarrow> memory \<Rightarrow> string" where
  "lock_print_blob b m =
     ''a = '' @ print_cells (a_cell b) 1000 m @ [CHR 0x0A] @
     ''b = '' @ print_cells (b_cell 1000 b) 1500 m @ [CHR 0x0A]"

section \<open>Effects of the sections\<close>

definition bump :: "'w::len itself \<Rightarrow> addr \<Rightarrow> memory \<Rightarrow> memory" where
  "bump w a m = put_word a (word_at m a + 1 :: 'w word) m"

definition bump_all :: "nat \<Rightarrow> nat \<Rightarrow> addr \<Rightarrow> memory \<Rightarrow> memory" where
  "bump_all A B b m =
     bump TYPE(64) (c_cell A B b)
      (fold (\<lambda>i. bump TYPE(32) (b_cell A b i)) [0..<B]
        (fold (\<lambda>i. bump TYPE(32) (a_cell b i)) [0..<A] m))"

datatype blob_section = Zero | Add_One

fun blob_code :: "nat \<Rightarrow> nat \<Rightarrow> addr \<Rightarrow> blob_section \<Rightarrow> prog \<Rightarrow> prog" where
  "blob_code A B b Zero = memset_blob A B b"
| "blob_code A B b Add_One = increment_all A B b"

fun blob_effect :: "nat \<Rightarrow> nat \<Rightarrow> addr \<Rightarrow> blob_section \<Rightarrow> memory \<Rightarrow> memory" where
  "blob_effect A B b Zero = put_bytes b (replicate (sizeof_blob A B) 0)"
| "blob_effect A B b Add_One = bump_all A B b"

fun blob_accesses :: "nat \<Rightarrow> nat \<Rightarrow> blob_section \<Rightarrow> nat" where
  "blob_accesses A B Zero = sizeof_blob A B"
| "blob_accesses A B Add_One = 8 * A + 8 * B + 16"

definition fn1_job :: "bool \<Rightarrow> nat \<Rightarrow> blob_section job" where
  "fn1_job double k = Job Add_One (replicate (if double then k else 0) (Job Add_One [] Return)) Return"

definition test_job :: "bool \<Rightarrow> nat \<Rightarrow> nat \<Rightarrow> nat \<Rightarrow> nat \<Rightarrow> addr \<Rightarrow> blob_section job" where
  "test_job double n k A B b = Job Zero (replicate n (fn1_job double k))
     (verify A B b (expected_count double n k) (print_c A B b))"

lemma code_test_job: "code (blob_code A B b) (test_job double n k A B b) = test_main double n k A B b"
  by (simp add: test_job_def test_main_def fn1_job_def fn1_def fn2_def)

text \<open>The code of \<open>main\<close> behind the joins.\<close>

definition final_check :: "bool \<Rightarrow> nat \<Rightarrow> nat \<Rightarrow> nat \<Rightarrow> nat \<Rightarrow> addr \<Rightarrow> prog" where
  "final_check double n k A B b = verify A B b (expected_count double n k) (print_c A B b)"

text \<open>All counters of the block hold \<open>x\<close>.\<close>

definition all_counts :: "nat \<Rightarrow> nat \<Rightarrow> addr \<Rightarrow> memory \<Rightarrow> nat \<Rightarrow> bool" where
  "all_counts A B b m x \<longleftrightarrow> (\<forall>i<A. word_at m (a_cell b i) = (of_nat x :: 32 word))
     \<and> (\<forall>i<B. word_at m (b_cell A b i) = (of_nat x :: 32 word))
     \<and> word_at m (c_cell A B b) = (of_nat x :: 64 word)"

text \<open>Equal counters, as every completed run leaves them, are printed as so many equal numbers.\<close>

lemma print_blob_counts:
  assumes "all_counts A B b m x" and "x < 2 ^ 31"
  shows "print_blob A B b m =
    ''a = '' @ concat (replicate A ('' '' @ show_nat x)) @ [CHR 0x0A] @
    ''b = '' @ concat (replicate B ('' '' @ show_nat x)) @ [CHR 0x0A]"
proof -
  have x: "sint (of_nat x :: 32 word) = int x"
    using assms(2) by (simp add: signed_of_nat signed_take_bit_int_eq_self)
  have "print_cells address n m = concat (replicate n ('' '' @ show_nat x))"
    if "\<forall>i<n. word_at m (address i) = (of_nat x :: 32 word)" for address n
  proof -
    have "map (\<lambda>i. '' '' @ show_int (word_at m (address i))) [0..<n] = map (\<lambda>i. '' '' @ show_nat x) [0..<n]"
      using that x by (simp add: show_int_def)
    then show ?thesis by (simp add: print_cells_def map_replicate_const)
  qed
  with assms(1) show ?thesis by (simp add: print_blob_def all_counts_def)
qed

lemma cells_apart:
  assumes "o1 + n1 \<le> o2" and "o2 + n2 \<le> 2 ^ 64"
  shows "extent (b + of_nat o1) n1 \<inter> extent (b + of_nat o2) n2 = {}"
    and "extent (b + of_nat o2) n2 \<inter> extent (b + of_nat o1) n1 = {}"
proof -
  have "b + of_nat o1 + of_nat i \<noteq> b + of_nat o2 + (of_nat j :: addr)" if "i < n1" "j < n2" for i j
  proof
    assume "b + of_nat o1 + of_nat i = b + of_nat o2 + (of_nat j :: addr)"
    then have "of_nat (o1 + i) = (of_nat (o2 + j) :: addr)" by (simp add: algebra_simps)
    then have "unat (of_nat (o1 + i) :: addr) = unat (of_nat (o2 + j) :: addr)" by (rule arg_cong)
    then have "(o1 + i) mod 2 ^ LENGTH(64) = (o2 + j) mod 2 ^ LENGTH(64)" unfolding unat_of_nat .
    with that assms show False by simp
  qed
  then show "extent (b + of_nat o1) n1 \<inter> extent (b + of_nat o2) n2 = {}" by (auto simp: extent_def)
  then show "extent (b + of_nat o2) n2 \<inter> extent (b + of_nat o1) n1 = {}" by blast
qed

lemma bump_other:
  "extent a (width TYPE('w)) \<inter> extent b (width TYPE('v)) = {} \<Longrightarrow>
    (word_at (bump TYPE('v::len) b m) a :: 'w::len word) = word_at m a"
  by (simp add: bump_def word_at_put_other)

lemma fold_bump_other:
  assumes "\<And>i. i \<in> set is \<Longrightarrow> extent a (width TYPE('w)) \<inter> extent (f i) (width TYPE('v)) = {}"
  shows "(word_at (fold (\<lambda>i. bump TYPE('v::len) (f i)) is m) a :: 'w::len word) = word_at m a"
  using assms by (induction "is" arbitrary: m) (simp_all add: bump_other)

lemma fold_bump_one:
  assumes "i \<in> set is" and "distinct is"
    and "\<And>j. j \<in> set is \<Longrightarrow> j \<noteq> i \<Longrightarrow> extent (f i) (width TYPE('w)) \<inter> extent (f j) (width TYPE('w)) = {}"
    and "8 dvd LENGTH('w)" and "LENGTH('w) \<le> 2 ^ 64"
  shows "word_at (fold (\<lambda>i. bump TYPE('w::len) (f i)) is m) (f i) = (word_at m (f i) + 1 :: 'w word)"
  using assms
proof (induction "is" arbitrary: m)
  case (Cons j js)
  show ?case
  proof (cases "j = i")
    case True
    then have "\<And>l. l \<in> set js \<Longrightarrow> extent (f i) (width TYPE('w)) \<inter> extent (f l) (width TYPE('w)) = {}"
      using Cons.prems(2,3) by auto
    note other = fold_bump_other [of js "f i" f, OF this]
    moreover have "word_at (bump TYPE('w) (f i) m) (f i) = (word_at m (f i) + 1 :: 'w word)"
      unfolding bump_def by (rule word_at_put_same [OF assms(4,5)])
    ultimately show ?thesis using True by simp
  next
    case False
    with Cons.prems have "word_at (bump TYPE('w) (f j) m) (f i) = (word_at m (f i) :: 'w word)"
      by (intro bump_other) simp
    with False Cons show ?thesis by simp
  qed
qed simp

lemma blob_bounds:
  "4 * A + 4 * B \<le> c_offset A B" "c_offset A B + 8 = sizeof_blob A B"
  by (simp_all add: c_offset_def sizeof_blob_def next_multiple_ge)

lemma bump_counts:
  assumes "sizeof_blob A B \<le> 2 ^ 64" and "all_counts A B b m x"
  shows "all_counts A B b (bump_all A B b m) (Suc x)"
proof -
  note size = assms(1) [folded blob_bounds(2)] blob_bounds(1) [of A B]
  have aa: "extent (a_cell b i) 4 \<inter> extent (a_cell b j) 4 = {}" if "i < A" "j < A" "i \<noteq> j" for i j
    unfolding a_cell_def using that size
    by (cases "i < j") (rule cells_apart(1), simp, simp, rule cells_apart(2), simp_all)
  have ab: "extent (a_cell b i) 4 \<inter> extent (b_cell A b j) 4 = {}" "extent (b_cell A b j) 4 \<inter> extent (a_cell b i) 4 = {}"
    if "i < A" "j < B" for i j
    unfolding a_cell_def b_cell_def using that size
    by - (rule cells_apart(1), simp, simp, rule cells_apart(2), simp_all)
  have bb: "extent (b_cell A b i) 4 \<inter> extent (b_cell A b j) 4 = {}" if "i < B" "j < B" "i \<noteq> j" for i j
    unfolding b_cell_def using that size
    by (cases "i < j") (rule cells_apart(1), simp, simp, rule cells_apart(2), simp_all)
  have ac: "extent (a_cell b i) 4 \<inter> extent (c_cell A B b) 8 = {}" "extent (c_cell A B b) 8 \<inter> extent (a_cell b i) 4 = {}"
    if "i < A" for i
    unfolding a_cell_def c_cell_def using that size
    by - (rule cells_apart(1), simp, simp, rule cells_apart(2), simp_all)
  have bc: "extent (b_cell A b i) 4 \<inter> extent (c_cell A B b) 8 = {}" "extent (c_cell A B b) 8 \<inter> extent (b_cell A b i) 4 = {}"
    if "i < B" for i
    unfolding b_cell_def c_cell_def using that size
    by - (rule cells_apart(1), simp, simp, rule cells_apart(2), simp_all)
  let ?m1 = "fold (\<lambda>i. bump TYPE(32) (a_cell b i)) [0..<A] m"
  let ?m2 = "fold (\<lambda>i. bump TYPE(32) (b_cell A b i)) [0..<B] ?m1"
  have m: "bump_all A B b m = bump TYPE(64) (c_cell A B b) ?m2" by (simp add: bump_all_def)
  have "word_at (bump_all A B b m) (a_cell b i) = (of_nat (Suc x) :: 32 word)" if "i < A" for i
  proof -
    have "word_at (bump_all A B b m) (a_cell b i) = (word_at ?m2 (a_cell b i) :: 32 word)"
      unfolding m by (rule bump_other) (use ac that in simp)
    also have "\<dots> = word_at ?m1 (a_cell b i)" by (rule fold_bump_other) (use ab that in simp)
    also have "\<dots> = word_at m (a_cell b i) + 1" by (rule fold_bump_one) (use aa that in simp_all)
    finally show ?thesis using assms(2) that by (simp add: all_counts_def)
  qed
  moreover have "word_at (bump_all A B b m) (b_cell A b i) = (of_nat (Suc x) :: 32 word)" if "i < B" for i
  proof -
    have "word_at (bump_all A B b m) (b_cell A b i) = (word_at ?m2 (b_cell A b i) :: 32 word)"
      unfolding m by (rule bump_other) (use bc that in simp)
    also have "\<dots> = word_at ?m1 (b_cell A b i) + 1" by (rule fold_bump_one) (use bb that in simp_all)
    also have "(word_at ?m1 (b_cell A b i) :: 32 word) = word_at m (b_cell A b i)"
      by (rule fold_bump_other) (use ab that in simp)
    finally show ?thesis using assms(2) that by (simp add: all_counts_def)
  qed
  moreover have "word_at (bump_all A B b m) (c_cell A B b) = (of_nat (Suc x) :: 64 word)"
  proof -
    have "word_at (bump_all A B b m) (c_cell A B b) = (word_at ?m2 (c_cell A B b) + 1 :: 64 word)"
      unfolding m bump_def by (rule word_at_put_same) simp_all
    also have "(word_at ?m2 (c_cell A B b) :: 64 word) = word_at ?m1 (c_cell A B b)"
      by (rule fold_bump_other) (use bc in simp)
    also have "\<dots> = word_at m (c_cell A B b)" by (rule fold_bump_other) (use ac in simp)
    finally show ?thesis using assms(2) by (simp add: all_counts_def)
  qed
  ultimately show ?thesis by (simp add: all_counts_def)
qed

section \<open>The programs keep the contracts\<close>

lemma subcell: "o1 + n \<le> N \<Longrightarrow> extent (b + of_nat o1) n \<subseteq> extent b N"
  by (auto simp: extent_def add.assoc intro!: image_eqI [of _ _ "o1 + _"])

lemma counters_in_block:
  "i < A \<Longrightarrow> extent (a_cell b i) 4 \<subseteq> extent b (sizeof_blob A B)"
  "i < B \<Longrightarrow> extent (b_cell A b i) 4 \<subseteq> extent b (sizeof_blob A B)"
  "extent (c_cell A B b) 8 \<subseteq> extent b (sizeof_blob A B)"
  using blob_bounds [of A B] unfolding a_cell_def b_cell_def c_cell_def
  by - (rule subcell, simp)+

lemma put_zero: "x \<in> extent a n \<Longrightarrow> put_bytes a (replicate n 0) m x = 0"
proof (induction n arbitrary: a m)
  case (Suc n)
  then show ?case by (cases "x \<in> extent (a + 1) n") (auto simp: extent_Suc put_bytes_other)
qed (simp add: extent_def)

lemma value_zeros: "value_of (replicate n 0) = 0"
  by (induction n) simp_all

lemma zero_word:
  assumes "extent a (width TYPE('w)) \<subseteq> extent b n"
  shows "word_at (put_bytes b (replicate n 0) m) a = (0 :: 'w::len word)"
proof -
  have "put_bytes b (replicate n 0) m (a + of_nat i) = 0" if "i < width TYPE('w)" for i
    using assms that by (intro put_zero) (auto simp: extent_def)
  then have "read_bytes (put_bytes b (replicate n 0) m) a (width TYPE('w)) = replicate (width TYPE('w)) 0"
    by (intro nth_equalityI) (simp_all add: read_bytes_def)
  then show ?thesis by (simp add: word_at_def value_zeros)
qed

lemma zero_counts: "all_counts A B b (blob_effect A B b Zero m) 0"
  using counters_in_block by (simp add: all_counts_def zero_word)

lemma takes_increment:
  assumes "extent a (width TYPE('w)) \<subseteq> Collect (in_heap G)"
  shows "takes G (2 * width TYPE('w)) (increment TYPE('w::len) a c) m c (bump TYPE('w) a m)"
  unfolding increment_def bump_def mult_2
  by (rule takes_trans [OF takes_load_word takes_store_word]) (rule assms)+

lemma takes_require:
  assumes "extent a (width TYPE('w)) \<subseteq> Collect (in_heap G)" and "word_at m a = (w :: 'w::len word)"
  shows "takes G (width TYPE('w)) (require_word a w c) m c m"
  using takes_load_word [OF assms(1), of "\<lambda>v. if v = w then c else Quit" m] assms(2)
  by (simp add: require_word_def)

lemma quiet_load_bytes: "(\<And>bs. quiet G (k bs)) \<Longrightarrow> quiet G (load_bytes a n k)"
  by (induction n arbitrary: a k) (auto intro: quiet_Load)

lemma quiet_require: "quiet G c \<Longrightarrow> quiet G (require_word a w c)"
  by (auto simp: require_word_def load_word_def intro: quiet_load_bytes)

lemma quiet_for_loop:
  assumes "\<And>i c. quiet G c \<Longrightarrow> quiet G (body i c)" and "quiet G c"
  shows "quiet G (for_loop lo n body c)"
  using assms by (induction lo n body c rule: for_loop.induct) (metis for_loop.simps)

lemma quiet_verify: "quiet G c \<Longrightarrow> quiet G (verify A B b x c)"
  by (auto simp: verify_def intro!: quiet_for_loop quiet_require)

lemma loads_bytes: "n > 0 \<Longrightarrow> \<not> ends_section (load_bytes a n k)"
  by (cases n) simp_all

lemma loads_for_loop:
  assumes "\<And>i c. \<not> ends_section (body i c)" and "\<not> ends_section c"
  shows "\<not> ends_section (for_loop lo n body c)"
  using assms by (cases "lo < n") (simp_all add: for_loop.simps [of lo])

lemma loads_verify: "\<not> ends_section (verify A B b x c)"
proof -
  have narrow: "\<not> ends_section (require_word a (w :: 32 word) c)"
    and wide: "\<not> ends_section (require_word a (v :: 64 word) c)" for a w v c
    by (simp_all add: require_word_def load_word_def loads_bytes)
  show ?thesis unfolding verify_def by (rule loads_for_loop loads_for_loop narrow wide)+
qed

lemma quiet_print_c: "quiet G (print_c A B b)"
  by (auto simp: print_c_def load_word_def intro!: quiet_load_bytes)

locale blob_block =
  fixes G :: heap_globals and A B :: nat and b :: addr
  assumes heap: "heap_aligned G"
    and block: "extent b (sizeof_blob A B) \<subseteq> Collect (in_heap G)"
    and bounded: "sizeof_blob A B \<le> 2 ^ 64"
begin

lemma counters_in_heap:
  "i < A \<Longrightarrow> extent (a_cell b i) 4 \<subseteq> Collect (in_heap G)"
  "i < B \<Longrightarrow> extent (b_cell A b i) 4 \<subseteq> Collect (in_heap G)"
  "extent (c_cell A B b) 8 \<subseteq> Collect (in_heap G)"
  by (rule subset_trans [OF _ block]; rule counters_in_block; assumption?)+

lemma takes_increment_all: "takes G (8 * A + 8 * B + 16) (increment_all A B b c) m c (bump_all A B b m)"
proof -
  have a: "takes G 8 (increment TYPE(32) (a_cell b i) c) m c (bump TYPE(32) (a_cell b i) m)" if "i < A" for i c m
    using takes_increment [of "a_cell b i" G c m, where 'w = 32] counters_in_heap(1) [OF that] by simp
  have b: "takes G 8 (increment TYPE(32) (b_cell A b i) c) m c (bump TYPE(32) (b_cell A b i) m)" if "i < B" for i c m
    using takes_increment [of "b_cell A b i" G c m, where 'w = 32] counters_in_heap(2) [OF that] by simp
  have c: "takes G 16 (increment TYPE(64) (c_cell A B b) c) m c (bump TYPE(64) (c_cell A B b) m)" for c m
    using takes_increment [of "c_cell A B b" G c m, where 'w = 64] counters_in_heap(3) by simp
  have "takes G (8 * (A - 0) + (8 * (B - 0) + 16)) (increment_all A B b c) m c (bump_all A B b m)"
    unfolding increment_all_def bump_all_def
    by (rule takes_trans [OF takes_for_loop takes_trans [OF takes_for_loop c]]) (simp_all add: a b)
  then show ?thesis by (simp add: add.assoc)
qed

lemma takes_memset: "takes G (sizeof_blob A B) (memset_blob A B b c) m c (blob_effect A B b Zero m)"
  using takes_store_bytes [of b "replicate (sizeof_blob A B) 0" G c m] block
  by (simp add: memset_blob_def)

lemma takes_verify:
  assumes "all_counts A B b m x"
  shows "takes G (4 * A + 4 * B + 8) (verify A B b x c) m c m"
proof -
  have a: "takes G 4 (require_word (a_cell b i) (of_nat x :: 32 word) c) m c m" if "i < A" for i c
    using takes_require [of "a_cell b i" G m "of_nat x :: 32 word" c] counters_in_heap(1) [OF that] assms that
    by (simp add: all_counts_def)
  have b: "takes G 4 (require_word (b_cell A b i) (of_nat x :: 32 word) c) m c m" if "i < B" for i c
    using takes_require [of "b_cell A b i" G m "of_nat x :: 32 word" c] counters_in_heap(2) [OF that] assms that
    by (simp add: all_counts_def)
  have c: "takes G 8 (require_word (c_cell A B b) (of_nat x :: 64 word) c) m c m" for c
    using takes_require [of "c_cell A B b" G m "of_nat x :: 64 word" c] counters_in_heap(3) assms
    by (simp add: all_counts_def)
  have "takes G (4 * (A - 0) + (4 * (B - 0) + 8)) (verify A B b x c) m c m"
    unfolding verify_def
    by (rule takes_trans [OF takes_read_loop takes_trans [OF takes_read_loop c]]) (simp_all add: a b)
  then show ?thesis by (simp add: add.assoc)
qed

lemma takes_end:
  "all_counts A B b m x \<Longrightarrow>
    takes G (4 * A + 4 * B + 16) (verify A B b x (print_c A B b)) m Return m"
proof -
  assume "all_counts A B b m x"
  moreover have "takes G 8 (print_c A B b) m Return m"
    using takes_load_word [of "c_cell A B b" G "\<lambda>v :: 64 word. Return" m] counters_in_heap(3)
    by (simp add: print_c_def)
  ultimately have "takes G (4 * A + 4 * B + 8 + 8) (verify A B b x (print_c A B b)) m Return m"
    using takes_trans [OF takes_verify] by blast
  then show ?thesis by (simp add: add.commute)
qed

lemma count_effects:
  "all_counts A B b (fold (blob_effect A B b) (Zero # replicate n Add_One) m) n"
proof -
  have "all_counts A B b (fold (blob_effect A B b) (replicate k Add_One) m) (x + k)"
    if "all_counts A B b m x" for k x m
    using that bump_counts [OF bounded] by (induction k arbitrary: x m) fastforce+
  from this [OF zero_counts, of n] show ?thesis by simp
qed

lemma takes_serial:
  "\<exists>k. takes G k (serial_main n A B b) m Return (fold (blob_effect A B b) (Zero # replicate n Add_One) m)"
proof -
  let ?zero = "blob_effect A B b Zero m" and ?m = "fold (blob_effect A B b) (Zero # replicate n Add_One) m"
  have "fold (\<lambda>t. bump_all A B b) xs m1 = (bump_all A B b ^^ length xs) m1"
    for xs :: "nat list" and m1 by (induction xs arbitrary: m1) (simp_all add: funpow_swap1)
  from this [of "[0..<n]" ?zero] have "fold (\<lambda>t. bump_all A B b) [0..<n] ?zero = ?m" by simp
  moreover have "takes G ((8 * A + 8 * B + 16) * (n - 0)) (for_loop 0 n (\<lambda>t. increment_all A B b) c) ?zero c
      (fold (\<lambda>t. bump_all A B b) [0..<n] ?zero)" for c
    by (rule takes_for_loop) (rule takes_increment_all)
  ultimately show ?thesis
    unfolding serial_main_def serial_verify_def expected_count_def
    using takes_trans [OF takes_memset takes_trans [OF _ takes_end [OF count_effects]]] by metis
qed

end

sublocale blob_block \<subseteq> blob: counted_sections G "blob_code A B b" "blob_effect A B b" "blob_accesses A B"
proof
  fix c l m
  show "\<exists>k\<le>blob_accesses A B l. ((local_step G) ^^ k) (blob_code A B b l c, m) (c, blob_effect A B b l m)"
    using takes_memset takes_increment_all
    by (intro exI [of _ "blob_accesses A B l"]) (cases l; simp add: takes_def)
qed (rule heap)

section \<open>Runs of the program\<close>

lemma labels_test_job:
  "labels (test_job double n k A B b) = add_mset Zero (replicate_mset (expected_count double n k) Add_One)"
proof -
  have "labels (fn1_job double k) = replicate_mset (if double then k + 1 else 1) Add_One"
    using sum_replicate_mset [of k 1 Add_One] by (simp add: fn1_job_def)
  then show ?thesis
    using sum_replicate_mset [of n "Suc k" Add_One] sum_replicate_mset [of n 1 Add_One]
    by (simp add: test_job_def expected_count_def)
qed

lemma good_test_job: "n > 0 \<Longrightarrow> good_job G (test_job double n k A B b)"
  by (auto simp: test_job_def fn1_job_def intro: quiet_verify quiet_print_c)

lemma final_check_last: "final_check double n k A B b \<notin> other_finishes (test_job double n k A B b)"
proof -
  have "final_check double n k A B b \<noteq> Return"
    using loads_verify [of A B b "expected_count double n k" "print_c A B b"] by (auto simp: final_check_def)
  then show ?thesis by (auto simp: other_finishes_def test_job_def fn1_job_def)
qed

text \<open>Both sections change the heap: the one from ones to zeros, the other from zeros to ones.\<close>

lemma effects_change:
  assumes "sizeof_blob A B \<le> 2 ^ 64"
  shows "\<exists>m. blob_effect A B b l m \<noteq> m"
proof -
  let ?zeros = "blob_effect A B b Zero (\<lambda>_. 0)"
  let ?ones = "blob_effect A B b Add_One ?zeros"
  have counts: "all_counts A B b ?zeros 0" "all_counts A B b ?ones 1" "all_counts A B b (blob_effect A B b Zero ?ones) 0"
    using zero_counts bump_counts [OF assms zero_counts, of b] by simp_all
  have differ: "m \<noteq> m'" if "all_counts A B b m 0" "all_counts A B b m' 1" for m m'
    using that by (auto simp: all_counts_def)
  show ?thesis
  proof (cases l)
    case Zero
    then show ?thesis using differ [OF counts(3,2)] by blast
  next
    case Add_One
    then show ?thesis using differ [OF counts(1,2)] by metis
  qed
qed

context blob_block
begin

lemma heap_behind_joins:
  assumes "n > 0" and "live vp" and "initial (wrapped_main (test_main double n k A B b)) s0"
    and "sys_run no_order G vp s0 steps s" and "no_crash s" and "at_code (final_check double n k A B b) s"
    and "mutex (shd s) = None"
  shows "heap_view G (shd s) = fold (blob_effect A B b)
    (Zero # replicate (expected_count double n k) Add_One) (heap_view G (shd s0))"
proof -
  let ?j = "test_job double n k A B b"
  have last: "job.finish ?j = final_check double n k A B b" by (simp add: test_job_def final_check_def)
  then have "\<not> ends_section (job.finish ?j)" using loads_verify by (simp add: final_check_def)
  moreover have "job.finish ?j \<notin> other_finishes ?j" unfolding last by (rule final_check_last)
  ultimately obtain ls where "mset ls = labels ?j" "hd ls = Zero"
      "heap_view G (shd s) = fold (blob_effect A B b) ls (heap_view G (shd s0))"
    using blob.result_behind_joins [OF good_test_job [OF assms(1), of G double k A B b], unfolded code_test_job last,
        OF assms(3) heap assms(2,4-7) _ _ effects_change [OF bounded]]
    unfolding last by (auto simp: test_job_def)
  then show ?thesis using one_first labels_test_job by metis
qed

lemma test_ends:
  assumes "n > 0" and "live vp" and "ready s i t" and "cur t = wrapped_main (test_main double n k A B b)"
    and "predecessor (gp t) = 0" and "procs s = [i \<mapsto> t]" and "i \<noteq> 0"
  shows "\<exists>s'. within (job_steps (blob_accesses A B) (4 * A + 4 * B + 16) (test_job double n k A B b) + 52)
      (sys_step no_order G vp) s s'
    \<and> (\<forall>k u. procs s' k = Some u \<longrightarrow> exited u) \<and> procs s' i \<noteq> None"
proof -
  let ?x = "expected_count double n k"
  let ?e = "verify A B b ?x (print_c A B b)"
    and ?h = "job_effect (blob_effect A B b) (test_job double n k A B b) (heap_view G (shd s))"
    and ?bump = "bump_all A B b" and ?k = "if double then k else 0"
  have "job_effect (blob_effect A B b) (Job Add_One [] Return) = ?bump" by (simp add: fun_eq_iff)
  then have "job_effect (blob_effect A B b) (fn1_job double k) = ?bump ^^ Suc ?k"
    by (intro ext) (simp add: fn1_job_def funpow_swap1)
  then have "?h = ((?bump ^^ Suc ?k) ^^ n) (blob_effect A B b Zero (heap_view G (shd s)))"
    by (simp add: test_job_def)
  also have "(?bump ^^ Suc ?k) ^^ n = ?bump ^^ ?x"
    unfolding funpow_mult by (rule arg_cong [where f = "\<lambda>i. ?bump ^^ i"]) (simp add: expected_count_def)
  also have "(?bump ^^ ?x) (blob_effect A B b Zero (heap_view G (shd s)))
      = fold (blob_effect A B b) (Zero # replicate ?x Add_One) (heap_view G (shd s))" by simp
  finally have "all_counts A B b ?h ?x" using count_effects by simp
  then have "finishes G ?e ?h (4 * A + 4 * B + 16)"
    using takes_end by (simp add: finishes_def takes_def)
  then have fin: "finishes G ?e (job_effect (blob_effect A B b) (Job Zero (replicate n (fn1_job double k)) ?e)
      (heap_view G (shd s))) (4 * A + 4 * B + 16)" by (simp only: test_job_def)
  have cur: "cur t = wrapped_main (code (blob_code A B b) (Job Zero (replicate n (fn1_job double k)) ?e))"
    unfolding assms(4) code_test_job [symmetric] test_job_def ..
  have "\<forall>j\<in>set (replicate n (fn1_job double k)). plain j" "replicate n (fn1_job double k) \<noteq> []"
    using assms(1) by (auto simp: fn1_job_def)
  from blob.any_program_completes [OF assms(2,3) cur assms(5-7) this fin order_refl]
  show ?thesis unfolding test_job_def by blast
qed

end

lemma exited_completed:
  assumes "\<forall>k u. procs s k = Some u \<longrightarrow> exited u" and "procs s0 = [i \<mapsto> t]" and "procs s i \<noteq> None"
  shows "completed s0 s"
  using assms by (fastforce simp: completed_def exited_def abs_thread_def)

lemma heap_cells:
  assumes "off + n \<le> 524288"
  shows "extent (local_heap G + of_nat off) n \<subseteq> Collect (in_heap G)"
proof
  fix x assume "x \<in> extent (local_heap G + of_nat off) n"
  then obtain i where i: "i < n" "x - local_heap G = of_nat (off + i)" by (auto simp: extent_def)
  have "unat (of_nat (off + i) :: addr) = off + i"
    unfolding unat_of_nat using i(1) assms by simp
  then have "x - local_heap G < 524288" using i assms by (simp add: word_less_nat_alt)
  then show "x \<in> Collect (in_heap G)" by (simp add: in_heap_def HEAP_SIZE_def)
qed

section \<open>Properties\<close>

text \<open>
  C11: Unsynchronised increments are not lost. Whatever the interleaving, rollbacks included, when
  \<open>main\<close> is behind its joins (the threads, any numbers of them, with or without threads of
  their own, on arrays of any size, have been joined, and none has crashed) and has yet to check,
  every counter of the block holds the number of threads that incremented it; so \<open>verify\<close>,
  from there, passes all its checks and returns.
\<close>

theorem test_counts:
  assumes "heap_aligned G" and "live vp" and "extent b (sizeof_blob A B) \<subseteq> Collect (in_heap G)"
    and "sizeof_blob A B \<le> 2 ^ 64" and "n > 0"
    and "initial (wrapped_main (test_main double n k A B b)) s0"
    and "sys_run no_order G vp s0 steps s" and "no_crash s" and "at_code (final_check double n k A B b) s"
    and "mutex (shd s) = None"
  shows "all_counts A B b (heap_view G (shd s)) (expected_count double n k)
    \<and> runs G (final_check double n k A B b) (heap_view G (shd s)) Return (heap_view G (shd s))"
proof (rule context_conjI)
  note block = blob_block.intro [OF assms(1,3,4)]
  show counts: "all_counts A B b (heap_view G (shd s)) (expected_count double n k)"
    unfolding blob_block.heap_behind_joins [OF block assms(5,2,6-10)] by (rule blob_block.count_effects [OF block])
  show "runs G (final_check double n k A B b) (heap_view G (shd s)) Return (heap_view G (shd s))"
    unfolding final_check_def by (rule takes_runs [OF blob_block.takes_end [OF block counts]])
qed

definition test_block :: addr where
  "test_block = local_heap sample_heap + of_nat 16"

interpretation sample: blob_block sample_heap 100 150 test_block
proof
  have "sizeof_blob 100 150 = 1008" by (simp add: sizeof_blob_def c_offset_def next_multiple_def)
  then show "extent test_block (sizeof_blob 100 150) \<subseteq> Collect (in_heap sample_heap)"
      "sizeof_blob 100 150 \<le> 2 ^ 64"
    unfolding test_block_def by (simp_all only: heap_cells) simp_all
qed (rule sample_aligned)

text \<open>\<open>main\<close> of \<open>example/test.cc\<close>, with its constants, gets behind its joins.\<close>

lemma test_joins:
  "\<exists>steps s. sys_run False sample_heap live_view (starting (wrapped_main (test_program test_block))) steps s
    \<and> no_crash s \<and> at_code (final_check False 20 30 100 150 test_block) s \<and> mutex (shd s) = None"
proof -
  let ?c = "wrapped_main (test_program test_block)" and ?e = "final_check False 20 30 100 150 test_block"
  let ?j = "Job Zero (replicate 20 (fn1_job False 30)) ?e"
  let ?n = "job_steps (blob_accesses 100 150) 0 ?j + 17"
  have size: "sizeof_blob 100 150 = 1008" by (simp add: sizeof_blob_def c_offset_def next_multiple_def)
  have procs: "procs (starting ?c) = [1 \<mapsto> first_process ?c]" by (simp add: starting_def)
  have "code (blob_code 100 150 test_block) ?j = test_program test_block"
    using code_test_job [of 100 150 test_block False 20 30]
    by (simp only: test_job_def final_check_def test_program_def)
  then have cur: "cur (first_process ?c) = wrapped_main (code (blob_code 100 150 test_block) ?j)"
    by (simp add: first_process_def)
  have pred: "predecessor (gp (first_process ?c)) = 0" by simp
  have "\<forall>j\<in>set (replicate 20 (fn1_job False 30)). plain j" "replicate 20 (fn1_job False 30) \<noteq> []"
    by (simp_all add: fn1_job_def)
  from sample.blob.gets_behind_joins [OF live_live_view starting_ready cur pred procs one_neq_zero this, of 0]
  obtain s c u where s: "within ?n (sys_step False sample_heap live_view) (starting ?c) s"
      "ready s c u" "cur u = ?e" "\<And>k v. procs s k = Some v \<Longrightarrow> alive v \<or> exited v"
    by blast
  have "?n < 2 ^ 64" by (simp add: fn1_job_def size sum_list_replicate)
  then have "\<exists>steps. sys_run False sample_heap live_view (starting ?c) steps s"
    using reachable_within [OF s(1)] by simp
  moreover have "no_crash s"
    using s(4) by (fastforce simp: no_crash_def abs_thread_def where_is_def exited_def)
  moreover have "at_code ?e s"
    using s(2,3) unfolding at_code_def by (intro exI [of _ c] exI [of _ u]) (simp add: ready_def abs_thread_def where_is_def)
  moreover have "mutex (shd s) = None" using s(2) by (simp add: ready_def)
  ultimately show ?thesis by blast
qed

theorem test_counts_witness:
  "\<exists>s. (\<exists>steps. sys_run False sample_heap live_view (starting (wrapped_main (test_program test_block))) steps s)
    \<and> at_code (final_check False 20 30 100 150 test_block) s
    \<and> all_counts 100 150 test_block (heap_view sample_heap (shd s)) 20"
proof -
  obtain steps s where s: "sys_run False sample_heap live_view (starting (wrapped_main (test_program test_block))) steps s"
      "no_crash s" "at_code (final_check False 20 30 100 150 test_block) s" "mutex (shd s) = None"
    using test_joins by blast
  have "all_counts 100 150 test_block (heap_view sample_heap (shd s)) (expected_count False 20 30)
      \<and> runs sample_heap (final_check False 20 30 100 150 test_block) (heap_view sample_heap (shd s)) Return
        (heap_view sample_heap (shd s))"
    by (rule test_counts [OF sample_aligned live_live_view sample.block sample.bounded _ starting_initial
          s [unfolded test_program_def]]) simp
  with s(1,3) show ?thesis by (auto simp: expected_count_def)
qed

text \<open>
  C12: The parallel program computes what the sequential one computes. When \<open>main\<close> of
  \<open>test.cc\<close> is behind its joins, with no process crashed, and has yet to check, the shared
  heap, as a whole, is the heap the program of \<open>serial.cc\<close> (the same block, as many rounds as
  there are threads) leaves when it runs alone, and that program returns.
\<close>

theorem parallel_is_serial:
  assumes "heap_aligned G" and "live vp" and "extent b (sizeof_blob A B) \<subseteq> Collect (in_heap G)"
    and "sizeof_blob A B \<le> 2 ^ 64" and "n > 0"
    and "initial (wrapped_main (test_main double n k A B b)) s0"
    and "sys_run no_order G vp s0 steps s" and "no_crash s" and "at_code (final_check double n k A B b) s"
    and "mutex (shd s) = None"
  shows "runs G (serial_main (expected_count double n k) A B b) (heap_view G (shd s0))
    Return (heap_view G (shd s))"
proof -
  note block = blob_block.intro [OF assms(1,3,4)]
  show ?thesis
    unfolding blob_block.heap_behind_joins [OF block assms(5,2,6-10)]
    using blob_block.takes_serial [OF block] takes_runs by blast
qed

theorem parallel_is_serial_witness:
  "\<exists>s. (\<exists>steps. sys_run False sample_heap live_view (starting (wrapped_main (test_program test_block))) steps s)
    \<and> at_code (final_check False 20 30 100 150 test_block) s
    \<and> runs sample_heap (serial_main 20 100 150 test_block) (\<lambda>a. 0) Return (heap_view sample_heap (shd s))"
proof -
  let ?c = "wrapped_main (test_main False 20 30 100 150 test_block)"
  obtain steps s where s: "sys_run False sample_heap live_view (starting (wrapped_main (test_program test_block))) steps s"
      "no_crash s" "at_code (final_check False 20 30 100 150 test_block) s" "mutex (shd s) = None"
    using test_joins by blast
  have "runs sample_heap (serial_main (expected_count False 20 30) 100 150 test_block)
      (heap_view sample_heap (shd (starting ?c))) Return (heap_view sample_heap (shd s))"
    by (rule parallel_is_serial [OF sample_aligned live_live_view sample.block sample.bounded _ starting_initial
          s [unfolded test_program_def]]) simp
  moreover have "heap_view sample_heap (shd (starting ?c)) = (\<lambda>a. 0)"
    by (simp add: starting_def heap_view_def fun_eq_iff)
  ultimately show ?thesis using s(1,3) by (intro exI [of _ s]) (auto simp: expected_count_def)
qed

text \<open>
  C13: The program can run to its end. With and without \<open>NO_ORDER\<close> there is, from its start, a
  run in which every section commits, every join returns, no check of \<open>verify\<close> fails and all
  processes exit, of at most the given number of steps.
\<close>

theorem test_can_complete:
  assumes "heap_aligned G" and "live vp" and "extent b (sizeof_blob A B) \<subseteq> Collect (in_heap G)"
    and "sizeof_blob A B \<le> 2 ^ 64" and "n > 0" and "i \<noteq> 0"
    and "ready s0 i t" and "procs s0 = [i \<mapsto> t]" and "predecessor (gp t) = 0"
    and "cur t = wrapped_main (test_main double n k A B b)"
  shows "\<exists>s. within (job_steps (blob_accesses A B) (4 * A + 4 * B + 16) (test_job double n k A B b) + 52)
      (sys_step no_order G vp) s0 s \<and> completed s0 s"
proof -
  note block = blob_block.intro [OF assms(1,3,4)]
  show ?thesis
    using blob_block.test_ends [OF block assms(5,2,7,10,9,8,6)] exited_completed [OF _ assms(8)] by blast
qed

theorem test_can_complete_witness:
  "\<exists>s. (sys_step False sample_heap live_view)\<^sup>*\<^sup>* (starting (wrapped_main (nolock_main test_block))) s
    \<and> completed (starting (wrapped_main (nolock_main test_block))) s"
proof -
  let ?c = "wrapped_main (test_main True 50 50 1000 1500 test_block)"
  have size: "sizeof_blob 1000 1500 = 10008" by (simp add: sizeof_blob_def c_offset_def next_multiple_def)
  then have block: "extent test_block (sizeof_blob 1000 1500) \<subseteq> Collect (in_heap sample_heap)"
      "sizeof_blob 1000 1500 \<le> 2 ^ 64"
    unfolding test_block_def by (simp_all only: heap_cells) simp_all
  have "procs (starting ?c) = [1 \<mapsto> first_process ?c]" by (simp add: starting_def)
  from test_can_complete [where no_order = False, OF sample_aligned live_live_view block _ _ starting_ready this, of 50 True 50]
  show ?thesis unfolding nolock_is_test using within_rtranclp [where R = "sys_step False sample_heap live_view"] by auto
qed

end
