(* ===== verification/Startup.thy ===== *)
theory Startup
  imports Libgthread Blob_Programs
begin

text \<open>
  From the start of a program to its first section: \<open>__libc_start_main\<close> and \<open>wrapped_main\<close> of
  \<open>src/libgthread.hh\<close> with \<open>GlobalHeapInit\<close> (\<open>src/bump_allocator.cc\<close>), \<open>InitGThread\<close>
  (\<open>src/gthread.cc\<close>), \<open>Initialize\<close> (\<open>src/gstm.cc\<close>) and \<open>InitStackContext\<close>
  (\<open>src/stack_context.cc\<close>), composed as the code calls them. What comes out is the state from which
  the system of \<open>Processes\<close> runs. libc's start routine is taken to call the function it is given;
  the program is taken to write nothing to the heap before (what it writes is lost, see
  \<open>untouched_section_drops_copies\<close> in \<open>GThread\<close>).
\<close>

section \<open>Starting a program\<close>

text \<open>What the system calls of the start return, in the order of the code.\<close>

record start_env =
  open_ret :: int
  ftruncate_ret :: int
  shared_map :: addr
  private_map :: addr
  start_pid :: pid_t
  init_calls_of :: init_calls
  maps :: "string list"

text \<open>
  \<open>ftruncate\<close> cuts \<open>shm_object\<close> to \<open>HEAP_SIZE\<close> bytes or fills it up with zeros. The file is not
  emptied when it is opened, so a file that was there keeps its bytes.
\<close>

definition resized :: "byte list \<Rightarrow> u64 \<Rightarrow> byte" where
  "resized file off = (if off < HEAP_SIZE \<and> unat off < length file then file ! unat off else 0)"

text \<open>
  The process before \<open>InitGThread\<close>: its maps do not exist yet, \<open>predecessor_\<close> and \<open>tid_\<close> are
  zero, and the private mapping is accessible and shows the file.
\<close>

definition mapped_process :: "byte list \<Rightarrow> gproc" where
  "mapped_process file =
     \<lparr>read_set_version = [], write_set_version = [], local_page_version = [],
      prot_of = (\<lambda>page. PROT_READ_WRITE), copied = (\<lambda>page. False), own = (\<lambda>a. 0), base = resized file,
      tid = 0, predecessor = 0\<rparr>"

definition mapped_object :: "byte list \<Rightarrow> shared" where
  "mapped_object file =
     \<lparr>global_page_version = [], shm = resized file, mutex = None, rollback_count = 0\<rparr>"

text \<open>
  \<open>wrapped_main\<close> up to its \<open>AtomicBegin\<close>; what it still has to run is \<open>c\<close>. The state of the
  allocators behind the maps before and after is \<open>al\<close> and left out.
\<close>

definition enter_wrapped_main ::
  "start_env \<Rightarrow> private_arena \<times> share_state \<Rightarrow> 'cpu machine \<Rightarrow> byte list \<Rightarrow> prog \<Rightarrow> heap_globals \<Rightarrow> exit_reason + (heap_globals \<times> sys)" where
  "enter_wrapped_main env al m file c G =
     bind_result
       (InitGThread G (start_pid env) (init_calls_of env) (maps env) (al, (mapped_process file, m), mapped_object file))
       (\<lambda>(al, (p, m), sh). Inr (G,
          \<lparr>procs = [start_pid env \<mapsto> \<lparr>gp = p, pc = Save, cur = c, ctx = c, parent = 0, alive = True\<rparr>],
           shd = sh, reaped = {}\<rparr>))"

definition program_start ::
  "start_env \<Rightarrow> private_arena \<times> share_state \<Rightarrow> 'cpu machine \<Rightarrow> byte list \<Rightarrow> prog \<Rightarrow> heap_globals \<Rightarrow> exit_reason + (heap_globals \<times> sys)" where
  "program_start env al m file real_main g =
     bind_result
       (libc_start_main (open_ret env) (ftruncate_ret env) (shared_map env) (private_map env)
         (enter_wrapped_main env al m file) real_main g)
       (\<lambda>r. r)"

section \<open>The state after the start\<close>

lemma Initialize_Inr:
  assumes "Initialize G c (al, p, sh) = Inr (al', p', sh')"
  shows "p' = p\<lparr>read_set_version := vm_clear, write_set_version := vm_clear, local_page_version := vm_clear\<rparr>
    \<and> sh' = sh\<lparr>mutex := None, global_page_version := vm_clear, rollback_count := 0\<rparr>"
  using assms
  by (auto simp: Initialize_def SetupInterProcessMutex_def InitMapping_def Let_def bind_result_Inr_iff
      split: if_splits prod.splits)

text \<open>The one process a start leaves, and the shared state.\<close>

definition first_thread :: "start_env \<Rightarrow> byte list \<Rightarrow> prog \<Rightarrow> thread" where
  "first_thread env file c =
     \<lparr>gp = mapped_process file\<lparr>tid := start_pid env\<rparr>, pc = Save, cur = c, ctx = c, parent = 0, alive = True\<rparr>"

lemma program_start_Inr:
  assumes "program_start env al m file main g = Inr (G, s)"
  shows "s = \<lparr>procs = [start_pid env \<mapsto> first_thread env file (wrapped_main main)],
      shd = mapped_object file, reaped = {}\<rparr>"
    and "local_heap G = private_map env"
proof -
  obtain al' st where
    "GlobalHeapInit (open_ret env) (ftruncate_ret env) (shared_map env) (private_map env) g = Inr G"
    "InitGThread G (start_pid env) (init_calls_of env) (maps env) (al, (mapped_process file, m), mapped_object file)
      = Inr (al', st)"
    and st: "s = \<lparr>procs = [start_pid env \<mapsto> \<lparr>gp = fst (fst st), pc = Save, cur = wrapped_main main,
        ctx = wrapped_main main, parent = 0, alive = True\<rparr>], shd = snd st, reaped = {}\<rparr>"
    using assms
    by (auto simp: program_start_def libc_start_main_def enter_wrapped_main_def bind_result_Inr_iff
        split: prod.splits)
  then have init: "fst (fst st) = mapped_process file\<lparr>tid := start_pid env\<rparr>" "snd st = mapped_object file"
    by (auto simp: InitGThread_def bind_result_Inr_iff mapped_process_def mapped_object_def vm_clear_def
        dest!: Initialize_Inr split: prod.splits)
  show "s = \<lparr>procs = [start_pid env \<mapsto> first_thread env file (wrapped_main main)],
      shd = mapped_object file, reaped = {}\<rparr>"
    unfolding st init first_thread_def ..
  show "local_heap G = private_map env"
    using \<open>GlobalHeapInit _ _ _ _ _ = _\<close> by (auto simp: GlobalHeapInit_def Let_def split: if_splits)
qed

lemma started_heap:
  assumes "program_start env al m file main g = Inr (G, s)"
  shows "heap_view G (shd s) a = resized file (a - private_map env)"
  using program_start_Inr [OF assms] by (simp add: heap_view_def mapped_object_def)

lemma started_aligned:
  assumes "program_start env al m file main g = Inr (G, s)" and "4096 dvd unat (private_map env)"
    and "unat (private_map env) + 524288 < 2 ^ 64"
  shows "heap_aligned G"
  using assms(2,3) program_start_Inr(2) [OF assms(1)] by (simp add: heap_aligned_def)

text \<open>The start establishes what the properties of the system and of the programs assume.\<close>

lemma started_initial:
  assumes "program_start env al m file main g = Inr (G, s)" and "start_pid env \<noteq> 0"
  shows "initial (wrapped_main main) s"
    and "ready s (start_pid env) (first_thread env file (wrapped_main main))"
    and "procs s = [start_pid env \<mapsto> first_thread env file (wrapped_main main)]"
    and "threads (abs_sys G s) = [start_pid env \<mapsto> Running (wrapped_main main)]"
proof -
  note s = program_start_Inr(1) [OF assms(1)]
  show "initial (wrapped_main main) s"
    unfolding initial_def s
    by (intro conjI exI [of _ "start_pid env"] exI [of _ "first_thread env file (wrapped_main main)"])
      (simp_all add: assms(2) first_thread_def mapped_process_def mapped_object_def)
  show "ready s (start_pid env) (first_thread env file (wrapped_main main))"
    by (simp add: s ready_def first_thread_def mapped_process_def mapped_object_def no_copies_def vm_wf_def)
  show "procs s = [start_pid env \<mapsto> first_thread env file (wrapped_main main)]" by (simp add: s)
  show "threads (abs_sys G s) = [start_pid env \<mapsto> Running (wrapped_main main)]"
    by (simp add: s abs_sys_def abs_thread_def where_is_def first_thread_def fun_eq_iff)
qed

lemma first_thread_simps [simp]:
  "cur (first_thread env file c) = c" "predecessor (gp (first_thread env file c)) = 0"
  by (simp_all add: first_thread_def mapped_process_def)

section \<open>The next program\<close>

text \<open>The bytes a run leaves in \<open>shm_object\<close>, which nobody unlinks.\<close>

definition file_after :: "sys \<Rightarrow> byte list" where
  "file_after s = map (\<lambda>off. shm (shd s) (of_nat off)) [0..<unat HEAP_SIZE]"

text \<open>
  The next program that is started in the same directory starts with the heap the last one left,
  and not with zeros.
\<close>

lemma heap_outlives_run:
  assumes "program_start env al m (file_after s) main g = Inr (G', s')" and "off < HEAP_SIZE"
  shows "heap_view G' (shd s') (local_heap G' + off) = heap_view G (shd s) (local_heap G + off)"
proof -
  have "unat off < unat HEAP_SIZE" using assms(2) by (simp add: word_less_nat_alt)
  then have "resized (file_after s) off = shm (shd s) off"
    using assms(2) by (simp add: resized_def file_after_def del: HEAP_SIZE_def)
  then show ?thesis
    using started_heap [OF assms(1), of "private_map env + off"] program_start_Inr(2) [OF assms(1)]
    by (simp add: heap_view_def)
qed

section \<open>Properties\<close>

text \<open>
  C2: A program's run, from its start. If all calls of the start succeed, whatever they return, then
  every run of the system that follows implements a run of the atomic machine whose only thread
  is \<open>wrapped_main\<close> in the process that was started, and whose heap holds the bytes of the file
  \<open>shm_object\<close> as it was found, followed by zeros; when the mutex is free, the shared heap is
  the atomic machine's. \<open>mmap\<close> returns whole pages, and process ids are not zero.
\<close>

theorem started_program_is_serial:
  assumes "program_start env al m file main g = Inr (G, s0)"
    and "4096 dvd unat (private_map env)" and "unat (private_map env) + 524288 < 2 ^ 64"
    and "start_pid env \<noteq> 0" and "live vp" and "sys_run no_order G vp s0 n s"
  shows "(astep G)\<^sup>*\<^sup>*
      \<lparr>heap = (\<lambda>a. resized file (a - private_map env)), threads = [start_pid env \<mapsto> Running (wrapped_main main)]\<rparr>
      (abs_sys G s)
    \<and> (mutex (shd s) = None \<longrightarrow> heap (abs_sys G s) = heap_view G (shd s))"
proof -
  note start = started_initial [OF assms(1,4)]
  note serial = initial_serial [OF start(1) started_aligned [OF assms(1-3)] assms(5)]
  have "abs_sys G s0 = \<lparr>heap = (\<lambda>a. resized file (a - private_map env)),
      threads = [start_pid env \<mapsto> Running (wrapped_main main)]\<rparr>"
    using serial(2) start(4) started_heap [OF assms(1)] by (auto simp: fun_eq_iff)
  moreover have "(astep G)\<^sup>*\<^sup>* (abs_sys G s0) (abs_sys G s)"
    using serial.refines [OF assms(6) [unfolded sys_run_def] serial(1)] by simp
  moreover have "heap (abs_sys G s) = heap_view G (shd s)" if "mutex (shd s) = None"
    using pending_free [OF that] by (simp add: abs_sys_def fun_eq_iff final_heap_def)
  ultimately show ?thesis by simp
qed

definition sample_env :: start_env where
  "sample_env = \<lparr>open_ret = 3, ftruncate_ret = 0, shared_map = 0x7ffff7f01000, private_map = 0x7ffff7e81000,
     start_pid = 6642, init_calls_of = sample_calls,
     maps = [''5000-6000 r-xp heap'', stack_line 0x7ffc0000 0x7ffc2000 ''rw-p '']\<rparr>"

lemma sample_initialized:
  "Initialize G sample_calls ((pa, sa), p, sh) =
    Inr ((\<lparr>head_p = 0x7000, used_p = 0\<rparr>, share_started sample_calls sa),
      p\<lparr>read_set_version := vm_clear, write_set_version := vm_clear, local_page_version := vm_clear\<rparr>,
      sh\<lparr>mutex := None, global_page_version := vm_clear, rollback_count := 0\<rparr>)"
proof -
  have "share_head_at sample_calls \<noteq> share_used_at sample_calls" by (simp add: sample_calls_def)
  from Initialize_outcome [OF this, of G pa sa p sh] show ?thesis by (simp add: sample_calls_def MAP_FAILED_def)
qed

lemma sample_start: "\<exists>s. program_start sample_env (no_arena, no_share) sample_machine [] main zero_globals = Inr (sample_heap, s)"
proof -
  have "find_stack (maps sample_env) = Some (of_nat 0x7ffc0000, of_nat 0x7ffc2000)"
    using find_stack_skip [where ls = "[''5000-6000 r-xp heap'']"] stack_line_names
      scan_stack_line [where lo = "0x7ffc0000" and hi = "0x7ffc2000" and middle = "''rw-p ''"]
    by (simp add: sample_env_def names_stack_def stack_suffix_def)
  then show ?thesis
    by (simp add: program_start_def libc_start_main_def enter_wrapped_main_def InitGThread_def
      sample_initialized InitStackContext_def GetStackBottom_def sample_env_def sample_init)
qed

text \<open>\<open>test.cc\<close> runs from its start to its end.\<close>

lemma sample_program_run:
  assumes "program_start sample_env (no_arena, no_share) sample_machine [] (test_program test_block) zero_globals = Inr (sample_heap, s0)"
  shows "\<exists>n s. sys_run no_order sample_heap live_view s0 n s \<and> completed s0 s"
proof -
  let ?n = "job_steps (blob_accesses 100 150) (4 * 100 + 4 * 150 + 16) (test_job False 20 30 100 150 test_block) + 52"
  have "start_pid sample_env \<noteq> 0" by (simp add: sample_env_def)
  note start = started_initial [OF assms this]
  have size: "sizeof_blob 100 150 = 1008" by (simp add: sizeof_blob_def c_offset_def next_multiple_def)
  obtain s where s: "within ?n (sys_step no_order sample_heap live_view) s0 s"
      "\<forall>k u. procs s k = Some u \<longrightarrow> exited u" "procs s (start_pid sample_env) \<noteq> None"
    using sample.test_ends [where no_order = no_order, OF _ live_live_view start(2) _ _ start(3) \<open>start_pid sample_env \<noteq> 0\<close>,
        of 20 False 30]
    by (auto simp: test_program_def)
  have "?n < 2 ^ 64" by (simp add: test_job_def fn1_job_def size sum_list_replicate)
  then have "\<exists>n. sys_run no_order sample_heap live_view s0 n s"
    using sys_run_within [OF s(1), of 0 s0] sys_run_start by auto
  then show ?thesis using exited_completed [OF s(2) start(3) s(3)] by blast
qed

theorem started_program_is_serial_witness:
  "\<exists>s0 n s. program_start sample_env (no_arena, no_share) sample_machine [] (test_program test_block) zero_globals = Inr (sample_heap, s0)
    \<and> sys_run False sample_heap live_view s0 n s \<and> completed s0 s
    \<and> (astep sample_heap)\<^sup>*\<^sup>*
        \<lparr>heap = (\<lambda>a. 0), threads = [6642 \<mapsto> Running (wrapped_main (test_program test_block))]\<rparr>
        (abs_sys sample_heap s)"
proof -
  obtain s0 where s0: "program_start sample_env (no_arena, no_share) sample_machine [] (test_program test_block) zero_globals
      = Inr (sample_heap, s0)"
    using sample_start by blast
  obtain n s where run: "sys_run False sample_heap live_view s0 n s" "completed s0 s"
    using sample_program_run [OF s0] by blast
  have "(\<lambda>a. resized [] (a - private_map sample_env)) = (\<lambda>a. 0)" by (simp add: resized_def fun_eq_iff)
  moreover have "4096 dvd unat (private_map sample_env)" "unat (private_map sample_env) + 524288 < 2 ^ 64"
      "start_pid sample_env = 6642"
    by (simp_all add: sample_env_def)
  ultimately have "(astep sample_heap)\<^sup>*\<^sup>*
        \<lparr>heap = (\<lambda>a. 0), threads = [6642 \<mapsto> Running (wrapped_main (test_program test_block))]\<rparr>
        (abs_sys sample_heap s)"
    using started_program_is_serial [OF s0 _ _ _ live_live_view run(1)] by simp
  with s0 run show ?thesis by blast
qed

end
