(* ===== verification/Wrapper.thy ===== *)
theory Wrapper
  imports Bump_Allocator
begin

text \<open>
  The malloc family of \<open>src/src/wrapper.hh\<close> (as \<open>src/src/gnuwrapper.cc\<close> instantiates it,
  with the prefix \<open>hoard_\<close>), on top of \<open>xxmalloc\<close>. A process here is its heap globals,
  its byte memory and its id. Each function takes its C arguments and the process and
  returns its C result and the process. \<open>NULL\<close> is the address 0. The Windows sections
  of the header are not modelled.
\<close>

section \<open>State\<close>

record process =
  globals :: heap_globals
  mem :: memory
  self :: pid_t

abbreviation NULL :: addr where
  "NULL \<equiv> 0"

text \<open>The block the next allocation of this process will return.\<close>

definition bump_ptr :: "process \<Rightarrow> addr" where
  "bump_ptr p = subheaps (globals p) ! subheap_index (self p)"

definition EINVAL :: int where
  "EINVAL = 22"

definition ENOMEM :: int where
  "ENOMEM = 12"

section \<open>malloc, free and calloc\<close>

definition hoard_free :: "addr \<Rightarrow> process \<Rightarrow> process" where
  "hoard_free ptr p = p\<lparr>globals := xxfree ptr (globals p)\<rparr>"

definition hoard_malloc :: "u64 \<Rightarrow> process \<Rightarrow> addr \<times> process" where
  "hoard_malloc sz p =
     (if drop_bit (8 * 8 - 1) sz \<noteq> 0 then (NULL, p)
      else let (ptr, g) = xxmalloc (self p) sz (globals p) in (ptr, p\<lparr>globals := g\<rparr>))"


section \<open>Aligned allocation\<close>

definition hoard_memalign :: "u64 \<Rightarrow> u64 \<Rightarrow> process \<Rightarrow> addr \<times> process" where
  "hoard_memalign alignment sz p =
     (if alignment = 0 \<or> alignment AND (alignment - 1) \<noteq> 0 then (NULL, p)
      else if alignment = 8 then hoard_malloc sz p
      else
        let (ptr, p) = hoard_malloc sz p in
        if ptr AND (alignment - 1) = ptr then (ptr, p)
        else
          let p = hoard_free ptr p;
              (ptr, p) = hoard_malloc (sz + 2 * alignment) p
          in ((ptr + alignment - 1) AND NOT (alignment - 1), p))"

text \<open>The result is the code's return value and what \<open>*memptr\<close> holds afterwards.\<close>

definition hoard_posix_memalign ::
  "addr \<Rightarrow> u64 \<Rightarrow> u64 \<Rightarrow> process \<Rightarrow> (int \<times> addr) \<times> process" where
  "hoard_posix_memalign memptr alignment sz p =
     (if alignment = 0 \<or> alignment AND (alignment - 1) \<noteq> 0 then ((EINVAL, memptr), p)
      else let (ptr, p) = hoard_memalign alignment sz p in
        if ptr = NULL then ((ENOMEM, memptr), p) else ((0, ptr), p))"

text \<open>\<open>size % alignment\<close> comes before any check of the alignment.\<close>

definition hoard_aligned_alloc :: "u64 \<Rightarrow> u64 \<Rightarrow> process \<Rightarrow> exit_reason + (addr \<times> process)" where
  "hoard_aligned_alloc alignment sz p =
     (if alignment = 0 then Inl SigFpe
      else let sz = sz + alignment - (sz mod alignment) in Inr (hoard_memalign alignment sz p))"

definition hoard_malloc_usable_size :: "addr \<Rightarrow> u64" where
  "hoard_malloc_usable_size ptr = xxmalloc_usable_size ptr"

definition hoard_cfree :: "addr \<Rightarrow> process \<Rightarrow> process" where
  "hoard_cfree ptr p = p\<lparr>globals := xxfree ptr (globals p)\<rparr>"

definition hoard_malloc_good_size :: "u64 \<Rightarrow> process \<Rightarrow> u64 \<times> process" where
  "hoard_malloc_good_size sz p =
     (let (ptr, p) = hoard_malloc sz p;
          objSize = hoard_malloc_usable_size ptr;
          p = hoard_free ptr p
      in (objSize, p))"

section \<open>realloc\<close>

definition hoard_realloc :: "addr \<Rightarrow> u64 \<Rightarrow> process \<Rightarrow> addr \<times> process" where
  "hoard_realloc ptr sz p =
     (if ptr = NULL then hoard_malloc sz p
      else if sz = 0 then (NULL, hoard_free ptr p)
      else
        let objSize = hoard_malloc_usable_size ptr;
            (buf, p) = hoard_malloc sz p
        in
          if buf \<noteq> NULL \<and> objSize = hoard_malloc_usable_size buf
          then (ptr, hoard_free buf p)
          else
            let p = (if buf \<noteq> NULL
                     then p\<lparr>mem := memcpy (mem p) buf ptr (if objSize < sz then objSize else sz)\<rparr>
                     else p)
            in (buf, hoard_free ptr p))"

section \<open>Strings\<close>

text \<open>\<open>strlen\<close> searches for the terminator and does not return when there is none.\<close>

partial_function (option) strlen :: "memory \<Rightarrow> addr \<Rightarrow> u64 \<Rightarrow> u64 option" where
  "strlen m s k = (if m (s + k) = 0 then Some k else strlen m s (k + 1))"

fun strnlen :: "memory \<Rightarrow> addr \<Rightarrow> u64 \<Rightarrow> nat \<Rightarrow> u64" where
  "strnlen m s k 0 = k"
| "strnlen m s k (Suc n) = (if m (s + k) = 0 then k else strnlen m s (k + 1) n)"

definition hoard_strndup :: "addr \<Rightarrow> u64 \<Rightarrow> process \<Rightarrow> addr \<times> process" where
  "hoard_strndup s sz p =
     (if s \<noteq> NULL then
        let cappedLength = strnlen (mem p) s 0 (unat sz);
            (newString, p) = hoard_malloc (cappedLength + 1) p
        in
          if newString \<noteq> NULL then
            (newString,
             p\<lparr>mem := (memcpy (mem p) newString s cappedLength)(newString + cappedLength := 0)\<rparr>)
          else (newString, p)
      else (NULL, p))"

definition hoard_strdup :: "addr \<Rightarrow> process \<Rightarrow> (addr \<times> process) option" where
  "hoard_strdup s p =
     (if s \<noteq> NULL then
        (case strlen (mem p) s 0 of
           None \<Rightarrow> None
         | Some n \<Rightarrow>
             let (newString, p) = hoard_malloc (n + 1) p in
             Some (newString,
               if newString \<noteq> NULL then p\<lparr>mem := memcpy (mem p) newString s (n + 1)\<rparr> else p))
      else Some (NULL, p))"

text \<open>\<open>getcwd\<close> hands a buffer of its own to the C library's function, a parameter here.\<close>

definition PATH_MAX :: u64 where
  "PATH_MAX = 4096"

definition hoard_getcwd ::
  "(addr \<Rightarrow> u64 \<Rightarrow> process \<Rightarrow> addr \<times> process) \<Rightarrow> addr \<Rightarrow> u64 \<Rightarrow> process \<Rightarrow> addr \<times> process" where
  "hoard_getcwd real_getcwd buf sz p =
     (if buf = NULL then
        let sz = (if sz = 0 then PATH_MAX else sz);
            (buf, p) = hoard_malloc sz p
        in real_getcwd buf sz p
      else real_getcwd buf sz p)"

section \<open>GNU extensions and the operators\<close>

definition hoard_mallopt :: "int \<Rightarrow> int \<Rightarrow> int" where
  "hoard_mallopt param value = 1"

definition hoard_malloc_trim :: "u64 \<Rightarrow> int" where
  "hoard_malloc_trim pad = 0"

definition hoard_malloc_stats :: "process \<Rightarrow> process" where
  "hoard_malloc_stats p = p"

definition hoard_malloc_get_state :: addr where
  "hoard_malloc_get_state = NULL"

definition hoard_malloc_set_state :: "addr \<Rightarrow> int" where
  "hoard_malloc_set_state ptr = 0"

record mallinfo =
  arena_bytes :: int
  ordblks :: int
  smblks :: int
  hblks :: int
  hblkhd :: int
  usmblks :: int
  fsmblks :: int
  uordblks :: int
  fordblks :: int
  keepcost :: int

definition hoard_mallinfo :: mallinfo where
  "hoard_mallinfo = \<lparr>arena_bytes = 0, ordblks = 0, smblks = 0, hblks = 0, hblkhd = 0,
     usmblks = 0, fsmblks = 0, uordblks = 0, fordblks = 0, keepcost = 0\<rparr>"

text \<open>The four allocating operators; the throwing ones raise \<open>bad_alloc\<close>.\<close>

definition operator_new :: "u64 \<Rightarrow> process \<Rightarrow> exit_reason + (addr \<times> process)" where
  "operator_new sz p =
     (let (ptr, p) = hoard_malloc sz p in if ptr = NULL then Inl BadAlloc else Inr (ptr, p))"

definition operator_delete :: "addr \<Rightarrow> process \<Rightarrow> process" where
  "operator_delete ptr p = hoard_free ptr p"

definition operator_new_nothrow :: "u64 \<Rightarrow> process \<Rightarrow> addr \<times> process" where
  "operator_new_nothrow sz p = hoard_malloc sz p"

definition operator_new_array :: "u64 \<Rightarrow> process \<Rightarrow> exit_reason + (addr \<times> process)" where
  "operator_new_array sz p =
     (let (ptr, p) = hoard_malloc sz p in if ptr = NULL then Inl BadAlloc else Inr (ptr, p))"

definition operator_new_array_nothrow :: "u64 \<Rightarrow> process \<Rightarrow> addr \<times> process" where
  "operator_new_array_nothrow sz p = hoard_malloc sz p"

definition operator_delete_array :: "addr \<Rightarrow> process \<Rightarrow> process" where
  "operator_delete_array ptr p = hoard_free ptr p"

definition hoard_valloc :: "u64 \<Rightarrow> process \<Rightarrow> addr \<times> process" where
  "hoard_valloc sz p = hoard_memalign 8192 sz p"

definition hoard_pvalloc :: "u64 \<Rightarrow> process \<Rightarrow> addr \<times> process" where
  "hoard_pvalloc sz p = hoard_valloc ((sz + 8191) AND NOT 8191) p"

definition hoard_recalloc :: "addr \<Rightarrow> u64 \<Rightarrow> u64 \<Rightarrow> process \<Rightarrow> addr \<times> process" where
  "hoard_recalloc q num sz p =
     (let (ptr, p) = hoard_realloc q (num * sz) p in
      (ptr,
       if q = NULL \<and> ptr \<noteq> NULL
       then p\<lparr>mem := memset (mem p) ptr 0 (hoard_malloc_usable_size ptr)\<rparr>
       else p))"

section \<open>Lemmas\<close>

lemma request_too_big: "drop_bit 63 (sz :: u64) = 0 \<longleftrightarrow> unat sz < 2 ^ 63"
proof -
  have "unat (drop_bit 63 sz) = unat sz div 2 ^ 63" by (rule unat_drop_bit)
  then have "drop_bit 63 sz = 0 \<longleftrightarrow> unat sz div 2 ^ 63 = 0" by (metis unat_eq_zero)
  then show ?thesis by (simp add: div_eq_0_iff)
qed

lemma hoard_malloc_null: "2 ^ 63 \<le> unat sz \<Longrightarrow> hoard_malloc sz p = (NULL, p)"
  using request_too_big [of sz] by (simp add: hoard_malloc_def)

lemma hoard_malloc_ok:
  "unat sz < 2 ^ 63 \<Longrightarrow>
    hoard_malloc sz p = (bump_ptr p, p\<lparr>globals := snd (xxmalloc (self p) sz (globals p))\<rparr>)"
  using request_too_big [of sz] xxmalloc_simps(1) [of "self p" sz "globals p"]
  by (simp add: hoard_malloc_def bump_ptr_def case_prod_beta del: xxmalloc_simps)

lemma hoard_malloc_frame [simp]:
  "mem (snd (hoard_malloc sz p)) = mem p"
  "self (snd (hoard_malloc sz p)) = self p"
  by (cases "unat sz < 2 ^ 63"; simp add: hoard_malloc_ok hoard_malloc_null)+

lemma hoard_free_id [simp]: "hoard_free ptr p = p"
  by (simp add: hoard_free_def xxfree_def)

lemma usable_size_zero [simp]: "hoard_malloc_usable_size ptr = 0"
  by (simp add: hoard_malloc_usable_size_def xxmalloc_usable_size_def)

lemma bump_ptr_malloc:
  assumes "unat sz < 2 ^ 63" and "length (subheaps (globals p)) = 16"
  shows "bump_ptr (snd (hoard_malloc sz p)) = bump_ptr p + ROUND_UP sz MIN_ALIGNED_SIZE"
  using assms by (simp add: hoard_malloc_ok bump_ptr_def)

lemma length_subheaps_malloc [simp]:
  "length (subheaps (globals (snd (hoard_malloc sz p)))) = length (subheaps (globals p))"
  by (cases "unat sz < 2 ^ 63") (simp_all add: hoard_malloc_ok hoard_malloc_null)

interpretation hm: arena "\<lambda>p n. hoard_malloc n p" bump_ptr
  "\<lambda>p n. unat n < 2 ^ 63 \<and> length (subheaps (globals p)) = 16"
  by unfold_locales (simp_all add: bump_ptr_malloc, simp add: hoard_malloc_ok)


lemma unat_push_drop: "unat (push_bit k (drop_bit k (y :: u64))) = unat y div 2 ^ k * 2 ^ k"
proof -
  have "unat y div 2 ^ k * 2 ^ k \<le> unat y" by simp
  then have "unat y div 2 ^ k * 2 ^ k < 2 ^ 64"
    using unat_lt_2p64 [of y] by linarith
  then show ?thesis by (simp only: unat_push_bit unat_drop_bit)
qed

lemma next_multiple_by_div:
  "(x + (2 ^ k - 1)) div 2 ^ k * 2 ^ k = next_multiple x (2 ^ k)"
proof (rule antisym)
  let ?z = "(x + (2 ^ k - 1)) div 2 ^ k * 2 ^ k"
  have "x + (2 ^ k - 1) < ?z + 2 ^ k"
    using mod_less_divisor [of "2 ^ k" "x + (2 ^ k - 1)"]
      div_mult_mod_eq [of "x + (2 ^ k - 1)" "2 ^ k"] by (simp del: mod_less_divisor)
  then have "x \<le> ?z" by simp
  then show "next_multiple x (2 ^ k) \<le> ?z" by (intro next_multiple_least) simp_all
  have "?z \<le> x + (2 ^ k - 1)" by simp
  also have "\<dots> < next_multiple x (2 ^ k) + 2 ^ k"
    using next_multiple_ge [of x "2 ^ k"] by (intro add_le_less_mono) simp_all
  finally have lt: "?z < next_multiple x (2 ^ k) + 2 ^ k" .
  have "2 ^ k dvd next_multiple x (2 ^ k)" by (simp add: next_multiple_dvd)
  then obtain q where q: "next_multiple x (2 ^ k) = q * 2 ^ k"
    by (auto elim!: dvdE simp: mult.commute)
  with lt have "(x + (2 ^ k - 1)) div 2 ^ k * 2 ^ k < Suc q * 2 ^ k" by simp
  then have "(x + (2 ^ k - 1)) div 2 ^ k < Suc q" by (simp only: mult_less_cancel2)
  then have "(x + (2 ^ k - 1)) div 2 ^ k \<le> q" by simp
  then show "?z \<le> next_multiple x (2 ^ k)" unfolding q by (rule mult_le_mono1)
qed

text \<open>Rounding a pointer up to a power of two by masking.\<close>

lemma align_up:
  fixes x :: u64
  assumes "k < 64" and "unat x + 2 ^ k \<le> 2 ^ 64"
  shows "unat ((x + 2 ^ k - 1) AND NOT (2 ^ k - 1)) = next_multiple (unat x) (2 ^ k)"
proof -
  have pow: "unat ((2 :: u64) ^ k) = 2 ^ k"
    using assms(1) by (rule unat_power_2)
  have sum: "x + 2 ^ k - 1 = x + (2 ^ k - 1)" by simp
  have m: "unat ((2 :: u64) ^ k - 1) = 2 ^ k - 1"
    using pow by (subst unat_diff_no_wrap) simp_all
  have y: "unat (x + 2 ^ k - 1) = unat x + (2 ^ k - 1)"
    unfolding sum using assms(2) by (subst unat_add_no_wrap) (simp_all add: m less_le_trans)
  let ?y = "x + 2 ^ k - 1"
  have "?y AND NOT (2 ^ k - 1) = push_bit k (drop_bit k ?y)"
    by (simp only: mask_eq_exp_minus_1 [symmetric] and_not_mask)
  also have "unat \<dots> = (unat ?y div 2 ^ k) * 2 ^ k"
    by (simp add: unat_push_drop)
  finally show ?thesis unfolding y next_multiple_by_div .
qed

text \<open>The power-of-two test, on powers of two.\<close>

lemma pow2_test: "(2 :: u64) ^ k AND (2 ^ k - 1) = 0"
  by (rule bit_eqI) (auto simp: bit_simps mask_eq_exp_minus_1 [symmetric] simp flip: push_bit_eq_mult)

lemma pow2_nonzero: "k < 64 \<Longrightarrow> (2 :: u64) ^ k \<noteq> 0"
  using unat_power_2 [of k] by (metis power_not_zero unat_0 zero_neq_numeral)

lemma and_low_eq: "k < 64 \<Longrightarrow> (x :: u64) AND (2 ^ k - 1) = x \<longleftrightarrow> unat x < 2 ^ k"
proof -
  assume "k < 64"
  have "x AND (2 ^ k - 1) = take_bit k x" by (simp add: take_bit_eq_mask mask_eq_exp_minus_1)
  moreover have "unat (take_bit k x) = unat x mod 2 ^ k"
    by (simp add: unsigned_take_bit_eq take_bit_eq_mod [symmetric])
  ultimately show ?thesis by (metis mod_less mod_less_divisor word_eq_unatI zero_less_numeral zero_less_power)
qed

section \<open>Properties\<close>


definition sample_process :: process where
  "sample_process = \<lparr>globals = sample_heap, mem = (\<lambda>_. 7), self = 6642\<rparr>"

lemma sample_bump_ptr: "bump_ptr sample_process = 0x7ffff7e91000"
  by (simp add: bump_ptr_def sample_process_def sample_heap_def subheap_index_def util_consts)


lemma memalign_second_block:
  assumes "k < 60" and "k \<noteq> 3" and "length (subheaps (globals p)) = 16"
    and "2 ^ k \<le> unat (bump_ptr p)" and "unat sz < 2 ^ 63" and "unat (sz + 2 * 2 ^ k) < 2 ^ 63"
  defines "q \<equiv> bump_ptr p + ROUND_UP sz MIN_ALIGNED_SIZE"
  shows "fst (hoard_memalign (2 ^ k) sz p) = (q + 2 ^ k - 1) AND NOT (2 ^ k - 1)"
    and "bump_ptr (snd (hoard_memalign (2 ^ k) sz p)) = q + ROUND_UP (sz + 2 * 2 ^ k) MIN_ALIGNED_SIZE"
proof -
  have ne8: "(2 :: u64) ^ k \<noteq> 8"
  proof
    assume "(2 :: u64) ^ k = 8"
    moreover have "unat ((2 :: u64) ^ k) = 2 ^ k" using assms(1) by (simp add: unat_power_2)
    ultimately have "unat (8 :: u64) = 2 ^ k" by (rule subst)
    then have "2 ^ k = (2 :: nat) ^ 3" by simp
    then have "k = 3" by (simp only: power_inject_exp)
    then show False using assms(2) by simp
  qed
  obtain p1 where p1: "hoard_malloc sz p = (bump_ptr p, p1)"
    using assms(5) by (simp add: hoard_malloc_ok)
  have q: "bump_ptr p1 = q"
    using bump_ptr_malloc [OF assms(5,3)] p1 by (simp add: q_def)
  have len: "length (subheaps (globals p1)) = 16"
    using assms(3) p1 length_subheaps_malloc [of sz p] by simp
  obtain p2 where p2: "hoard_malloc (sz + 2 * 2 ^ k) p1 = (q, p2)"
    using assms(6) q by (simp add: hoard_malloc_ok)
  have "bump_ptr p AND (2 ^ k - 1) \<noteq> bump_ptr p"
    using assms(1,4) by (simp add: and_low_eq)
  then have "hoard_memalign (2 ^ k) sz p = ((q + 2 ^ k - 1) AND NOT (2 ^ k - 1), p2)"
    using assms(1) ne8 p1 p2
    by (simp add: hoard_memalign_def pow2_nonzero pow2_test)
  then show "fst (hoard_memalign (2 ^ k) sz p) = (q + 2 ^ k - 1) AND NOT (2 ^ k - 1)"
    and "bump_ptr (snd (hoard_memalign (2 ^ k) sz p)) = q + ROUND_UP (sz + 2 * 2 ^ k) MIN_ALIGNED_SIZE"
    using bump_ptr_malloc [OF assms(6) len] p2 q by simp_all
qed

text \<open>
  \<open>memalign\<close> for a power of two other than 8: the result is aligned, and the \<open>sz\<close>
  bytes at it lie inside the second, larger block, the only one handed out: the first block is
  given up even when it happens to be aligned, since the test compares the masked pointer with
  the pointer itself instead of with zero.
\<close>

lemma memalign_aligned:
  assumes "k < 60" and "k \<noteq> 3" and "length (subheaps (globals p)) = 16"
    and "2 ^ k \<le> unat (bump_ptr p)"
    and "unat (bump_ptr p) + 2 * unat sz + 2 * 2 ^ k + 32 \<le> 2 ^ 63"
  shows "\<exists>r. fst (hoard_memalign (2 ^ k) sz p) = r
    \<and> 2 ^ k dvd unat r
    \<and> unat (bump_ptr p) + rounded sz \<le> unat r
    \<and> unat r + unat sz \<le> unat (bump_ptr (snd (hoard_memalign (2 ^ k) sz p)))"
proof -
  let ?q = "bump_ptr p + ROUND_UP sz MIN_ALIGNED_SIZE"
  let ?big = "sz + 2 * 2 ^ k"
  have rsz: "rounded sz < unat sz + 16" by (simp add: rounded_def next_multiple_lt)
  have q: "unat ?q = unat (bump_ptr p) + rounded sz"
    using assms(5) rsz by (subst unat_add_no_wrap) (simp_all add: unat_round_16)
  have big: "unat ?big = unat sz + 2 * 2 ^ k"
  proof -
    have "unat (2 * 2 ^ k :: u64) = 2 * 2 ^ k"
      using assms(1,5) by (subst unat_mult_no_wrap) (simp_all add: unat_power_2)
    then show ?thesis using assms(5) by (subst unat_add_no_wrap) simp_all
  qed
  have rbig: "rounded ?big < unat sz + 2 * 2 ^ k + 16" "unat sz + 2 * 2 ^ k \<le> rounded ?big"
    using next_multiple_lt [of 16 "unat ?big"] rounded_ge [of ?big] big
    by (simp_all add: rounded_def)
  have sizes: "unat sz < 2 ^ 63" "unat ?big < 2 ^ 63" using big assms(5) by simp_all
  note run = memalign_second_block [OF assms(1-4) sizes]
  have "unat (bump_ptr (snd (hoard_memalign (2 ^ k) sz p))) = unat ?q + rounded ?big"
    using run(2) q rbig(1) rsz assms(5) by (simp add: unat_add_no_wrap unat_round_16)
  moreover have "unat (fst (hoard_memalign (2 ^ k) sz p)) = next_multiple (unat ?q) (2 ^ k)"
    unfolding run(1) using assms(1,5) q rsz by (intro align_up) simp_all
  moreover have "next_multiple (unat ?q) (2 ^ k) < unat ?q + 2 ^ k"
    by (simp add: next_multiple_lt)
  ultimately show ?thesis
    using q rbig(2) next_multiple_dvd [of "2 ^ k" "unat ?q"] next_multiple_ge [of "unat ?q" "2 ^ k"]
    by simp
qed

text \<open>
  C34: \<open>realloc\<close> never moves and never grows a block. Because \<open>xxmalloc_usable_size\<close> is
  constantly 0, the "same actual size" test always succeeds: for any non-null pointer and any size
  other than zero and below \<open>2 ^ 63\<close>, if the allocator's next block is not at address zero,
  the caller gets its old pointer back, no byte is copied, and the fresh block is abandoned. A larger
  size is refused with the null pointer, nothing copied either.
\<close>

theorem realloc_returns_old_block:
  assumes "ptr \<noteq> NULL" and "sz \<noteq> 0" and "bump_ptr p \<noteq> NULL"
  shows "hoard_realloc ptr sz p = (if unat sz < 2 ^ 63 then (ptr, snd (hoard_malloc sz p)) else (NULL, p))
    \<and> mem (snd (hoard_realloc ptr sz p)) = mem p"
  using assms
  by (cases "unat sz < 2 ^ 63") (simp_all add: hoard_realloc_def hoard_malloc_ok hoard_malloc_null)

theorem realloc_returns_old_block_witness:
  "fst (hoard_realloc 0x7ffff7e91000 4096 sample_process) = 0x7ffff7e91000
    \<and> mem (snd (hoard_realloc 0x7ffff7e91000 4096 sample_process)) = mem sample_process"
  using realloc_returns_old_block [of "0x7ffff7e91000" 4096 sample_process]
  by (simp add: sample_bump_ptr)

text \<open>
  \<open>aligned_alloc\<close> adds a whole alignment to a size that is a multiple of it already,
  where its comment says that it rounds up if necessary, and divides by zero when the alignment
  is zero, before the check that would have refused it.
\<close>

lemma aligned_alloc_size:
  "hoard_aligned_alloc alignment sz p =
    (if alignment = 0 then Inl SigFpe
     else if sz mod alignment = 0 then Inr (hoard_memalign alignment (sz + alignment) p)
     else Inr (hoard_memalign alignment (ROUND_UP sz alignment) p))"
  by (simp add: hoard_aligned_alloc_def ROUND_UP_def Let_def add_diff_eq)

lemma strlen_result:
  assumes "\<And>i. i < n \<Longrightarrow> m (s + of_nat (j + i)) \<noteq> 0" and "m (s + of_nat (j + n)) = 0"
  shows "strlen m s (of_nat j) = Some (of_nat (j + n))"
  using assms
proof (induction n arbitrary: j)
  case 0
  then show ?case by (subst strlen.simps) simp
next
  case (Suc n)
  have "m (s + of_nat j) \<noteq> 0" using Suc.prems(1) [of 0] by simp
  moreover have "of_nat j + 1 = (of_nat (Suc j) :: u64)" by simp
  moreover have "strlen m s (of_nat (Suc j)) = Some (of_nat (Suc j + n))"
  proof (rule Suc.IH)
    show "m (s + of_nat (Suc j + i)) \<noteq> 0" if "i < n" for i
      using Suc.prems(1) [of "Suc i"] that by simp
    show "m (s + of_nat (Suc j + n)) = 0" using Suc.prems(2) by simp
  qed
  ultimately show ?case by (subst strlen.simps) (simp only: if_False add_Suc add_Suc_right)
qed

text \<open>
  \<open>strdup\<close> makes a copy: if the string at \<open>s\<close> has length \<open>n\<close> and the new block
  does not overlap it, the result holds the same characters and the terminator, and the
  original is untouched.
\<close>

lemma strdup_copies:
  assumes "\<forall>i<n. mem p (s + of_nat i) \<noteq> 0" and "mem p (s + of_nat n) = 0"
    and "s \<noteq> NULL" and "bump_ptr p \<noteq> NULL" and "n < 2 ^ 62"
    and "region s (of_nat n + 1) \<inter> region (bump_ptr p) (of_nat n + 1) = {}"
  shows "\<exists>p'. hoard_strdup s p = Some (bump_ptr p, p')
    \<and> (\<forall>i\<le>n. mem p' (bump_ptr p + of_nat i) = mem p (s + of_nat i)
        \<and> mem p' (s + of_nat i) = mem p (s + of_nat i))"
proof -
  have len: "strlen (mem p) s 0 = Some (of_nat n)"
    using strlen_result [of n "mem p" s 0] assms(1,2) by simp
  have nn: "unat (of_nat n :: u64) = n" using assms(5) by (simp add: unat_of_nat)
  then have n1: "unat (of_nat n + 1 :: u64) = n + 1"
    using assms(5) by (simp add: unat_add_no_wrap)
  have small: "of_nat i < (of_nat n + 1 :: u64)" if "i \<le> n" for i
  proof -
    have "unat (of_nat i :: u64) = i" using that assms(5) by (simp add: unat_of_nat)
    with n1 that show ?thesis by (simp only: word_less_nat_alt)
  qed
  have apart: "\<not> s + of_nat i - bump_ptr p < of_nat n + 1" if "i \<le> n" for i
  proof
    assume "s + of_nat i - bump_ptr p < of_nat n + 1"
    then have "s + of_nat i \<in> region s (of_nat n + 1) \<inter> region (bump_ptr p) (of_nat n + 1)"
      using small [OF that] by simp
    with assms(6) show False by blast
  qed
  have "unat (of_nat n + 1 :: u64) < 2 ^ 63" using n1 assms(5) by simp
  then show ?thesis
    using len assms(3,4) small apart
    by (simp add: hoard_strdup_def hoard_malloc_ok memcpy_def)
qed

end
