(* ===== verification/Interposition.thy ===== *)
theory Interposition
  imports Wrapper
begin

text \<open>
  How the calls of a program reach the library: \<open>src/gnuwrapper.cc\<close> and the Linux part of
  \<open>src/interpose.hh\<close>. A function of the library stands for itself by its symbol; the dynamic
  linker's \<open>dlsym(RTLD_NEXT, name)\<close> is a parameter.
\<close>

section \<open>Weak aliases\<close>

text \<open>
  \<open>WEAK_REDEF\<close>: the name becomes a weak alias of the function with the prefix \<open>hoard_\<close>, which
  is \<open>CUSTOM_PREFIX\<close>. \<open>INTERPOSE\<close>: of the one with the prefix \<open>__interpose_\<close>.
\<close>

definition CUSTOM_PREFIX :: "string \<Rightarrow> string" where
  "CUSTOM_PREFIX x = ''hoard_'' @ x"

definition WEAK_REDEF :: "string \<Rightarrow> string \<times> string" where
  "WEAK_REDEF fname = (fname, ''hoard_'' @ fname)"

definition gnuwrapper_symbols :: "(string \<times> string) list" where
  "gnuwrapper_symbols = map WEAK_REDEF
     [''malloc'', ''free'', ''cfree'', ''calloc'', ''realloc'', ''memalign'', ''posix_memalign'',
      ''aligned_alloc'', ''malloc_usable_size'']"

definition interpose_alias :: "string \<Rightarrow> string \<times> string" where
  "interpose_alias name = (name, ''__interpose_'' @ name)"

text \<open>What \<open>src/wrapper.hh\<close> defines through \<open>CUSTOM_PREFIX\<close> when \<open>gnuwrapper.cc\<close> includes it on Linux.\<close>

definition wrapper_functions :: "string list" where
  "wrapper_functions = map CUSTOM_PREFIX
     [''free'', ''malloc'', ''calloc'', ''posix_memalign'', ''memalign'', ''aligned_alloc'',
      ''malloc_usable_size'', ''cfree'', ''malloc_good_size'', ''realloc'', ''strndup'', ''strdup'',
      ''getcwd'', ''mallopt'', ''malloc_trim'', ''malloc_stats'', ''malloc_get_state'',
      ''malloc_set_state'', ''mallinfo'', ''valloc'', ''pvalloc'', ''recalloc'']"

text \<open>The symbols that the library defines under their own names, and those it redirects.\<close>

definition library_symbols :: "(string \<times> string) list" where
  "library_symbols =
     gnuwrapper_symbols @ map interpose_alias [''pthread_create'', ''pthread_join'']
       @ [(''__libc_start_main'', ''__libc_start_main'')]"

definition client_call :: "string \<Rightarrow> string option" where
  "client_call name = map_of library_symbols name"

section \<open>The real functions\<close>

text \<open>
  \<open>real::NAME\<close> looks its function up at the first call and keeps it; \<open>asked\<close> counts the
  lookups.
\<close>

record 'f real_symbol =
  initialized :: bool
  real_fn :: 'f
  asked :: nat

definition real_call :: "(string \<Rightarrow> 'f) \<Rightarrow> string \<Rightarrow> 'f real_symbol \<Rightarrow> 'f \<times> 'f real_symbol" where
  "real_call dlsym name r =
     (let r = (if \<not> initialized r
               then r\<lparr>real_fn := dlsym name, asked := asked r + 1, initialized := True\<rparr> else r)
      in (real_fn r, r))"

fun real_calls :: "(string \<Rightarrow> 'f) \<Rightarrow> string \<Rightarrow> nat \<Rightarrow> 'f real_symbol \<Rightarrow> 'f list \<times> 'f real_symbol" where
  "real_calls dlsym name 0 r = ([], r)"
| "real_calls dlsym name (Suc n) r =
     (let (f, r) = real_call dlsym name r; (fs, r) = real_calls dlsym name n r in (f # fs, r))"

lemma real_calls_initialized:
  "initialized r \<Longrightarrow> real_calls dlsym name n r = (replicate n (real_fn r), r)"
  by (induction n) (simp_all add: real_call_def)

lemma real_calls_fresh:
  assumes "\<not> initialized r" and "n > 0"
  shows "fst (real_calls dlsym name n r) = replicate n (dlsym name)
    \<and> asked (snd (real_calls dlsym name n r)) = asked r + 1"
  using assms
  by (cases n) (simp_all add: real_call_def real_calls_initialized Let_def)

section \<open>What is redirected\<close>

text \<open>Every redirected allocation function is one that the wrapper defines.\<close>

lemma redirected_defined: "snd ` set gnuwrapper_symbols \<subseteq> set wrapper_functions"
  by (simp add: gnuwrapper_symbols_def wrapper_functions_def WEAK_REDEF_def CUSTOM_PREFIX_def)

definition redirected :: "string \<Rightarrow> bool" where
  "redirected name \<longleftrightarrow> client_call name = Some (CUSTOM_PREFIX name)"

lemma not_redirected:
  "\<forall>name\<in>{''valloc'', ''pvalloc'', ''strdup'', ''strndup'', ''getcwd'', ''malloc_good_size'',
      ''mallopt'', ''malloc_trim'', ''malloc_stats'', ''malloc_get_state'', ''malloc_set_state'',
      ''mallinfo'', ''recalloc''}.
    CUSTOM_PREFIX name \<in> set wrapper_functions \<and> client_call name = None"
  by (simp add: wrapper_functions_def client_call_def library_symbols_def gnuwrapper_symbols_def
    WEAK_REDEF_def interpose_alias_def)

end
