(* ===== verification/Windows_Env.thy ===== *)
theory Windows_Env
  imports Prelude
begin

text \<open>
  The part of \<open>src/wrapper.hh\<close> that is compiled on Windows only: \<open>getenv\<close> and \<open>putenv\<close>
  on top of \<open>GetEnvironmentVariable\<close> and \<open>SetEnvironmentVariable\<close>, which are parameters:
  \<open>getvar name e\<close> is the length that is returned and the characters stored, \<open>setvar name value e\<close>
  the environment afterwards, or \<open>None\<close> if the call fails. A string here is what stands before its terminating NUL.
\<close>

section \<open>The functions\<close>

text \<open>\<open>None\<close> is the null pointer; the result is a new block that holds the string.\<close>

definition hoard_getenv :: "(string \<Rightarrow> 'e \<Rightarrow> nat \<times> string) \<Rightarrow> string \<Rightarrow> 'e \<Rightarrow> exit_reason + string option" where
  "hoard_getenv getvar name e =
     (let (len, buf) = getvar name e in
      if len = 0 then Inr None
      else if len \<ge> 32767 then Inl Undefined
      else Inr (Some (take (len + 1) buf)))"

text \<open>
  \<open>printf\<close> of a string that is not a format: a conversion other than \<open>%%\<close> reads arguments
  that are not there.
\<close>

fun printf_plain :: "string \<Rightarrow> string option" where
  "printf_plain [] = Some []"
| "printf_plain (c # cs) =
     (if c \<noteq> CHR ''%'' then map_option ((#) c) (printf_plain cs)
      else (case cs of
              [] \<Rightarrow> None
            | d # ds \<Rightarrow> if d = CHR ''%'' then map_option ((#) CHR ''%'') (printf_plain ds) else None))"

definition setting_line :: "string \<Rightarrow> string \<Rightarrow> string" where
  "setting_line first second = ''setting '' @ first @ '' to '' @ second @ [CHR 0x0A]"

text \<open>The result, the environment, and what is printed; whether the system accepts the setting is ignored.\<close>

definition CUSTOM_PUTENV ::
  "(string \<Rightarrow> string \<Rightarrow> 'e \<Rightarrow> 'e option) \<Rightarrow> string \<Rightarrow> 'e \<Rightarrow> exit_reason + (int \<times> 'e \<times> string)" where
  "CUSTOM_PUTENV setvar str e =
     (let name = takeWhile (\<lambda>c. c \<noteq> CHR ''='') str; rest = dropWhile (\<lambda>c. c \<noteq> CHR ''='') str in
      if rest \<noteq> [] then
        let value = tl rest in
        if length name \<ge> 32767 \<or> length value \<ge> 32767 then Inl Undefined
        else
          let buf = setting_line name value in
          if length buf \<ge> 255 then Inl Undefined
          else
            (case printf_plain buf of
               None \<Rightarrow> Inl Undefined
             | Some out \<Rightarrow> Inr (0, case setvar name value e of None \<Rightarrow> e | Some e' \<Rightarrow> e', out))
      else Inr (-1, e, []))"

section \<open>Lemmas\<close>

lemma length_setting_line: "length (setting_line n v) = length n + length v + 13"
  by (simp add: setting_line_def)

lemma printf_plain_safe: "CHR ''%'' \<notin> set cs \<Longrightarrow> printf_plain cs = Some cs"
  by (induction cs) auto

lemma printf_plain_percent: "CHR ''%'' \<notin> set cs \<Longrightarrow> d \<noteq> CHR ''%'' \<Longrightarrow> printf_plain (cs @ CHR ''%'' # d # ds) = None"
  by (induction cs) auto

lemma split_at_equals:
  "CHR ''='' \<notin> set name \<Longrightarrow> takeWhile (\<lambda>c. c \<noteq> CHR ''='') (name @ CHR ''='' # value) = name
    \<and> dropWhile (\<lambda>c. c \<noteq> CHR ''='') (name @ CHR ''='' # value) = CHR ''='' # value"
  by (induction name) auto

section \<open>Properties\<close>

text \<open>
  What the system documents: a variable is read back if it has a name, without an equals sign, and
  the system accepted the setting.
\<close>

definition reads_back :: "(string \<Rightarrow> 'e \<Rightarrow> nat \<times> string) \<Rightarrow> (string \<Rightarrow> string \<Rightarrow> 'e \<Rightarrow> 'e option) \<Rightarrow> bool" where
  "reads_back getvar setvar \<longleftrightarrow>
     (\<forall>name value e e'. name \<noteq> [] \<longrightarrow> CHR ''='' \<notin> set name \<longrightarrow> length value < 32767 \<longrightarrow>
       setvar name value e = Some e' \<longrightarrow> getvar name e' = (length value, value))"

text \<open>
  C40: \<open>getenv\<close> returns what \<open>putenv\<close> has stored, if the system accepts the setting, as long as
  name and value have at most 241 characters together and the line printed is safe as a format
  string (as it is without percent signs): \<open>putenv\<close> prints the two through a buffer of 255
  characters, which longer ones overrun, and as a format string. A setting the system refuses
  changes nothing, but \<open>putenv\<close> reports success. An empty value is lost: \<open>getenv\<close> reports the
  variable as missing.
\<close>

theorem putenv_getenv:
  assumes "reads_back getvar setvar" and "name \<noteq> []" and "CHR ''='' \<notin> set name"
  shows "if length name + length value > 241 \<or> printf_plain (setting_line name value) = None
    then CUSTOM_PUTENV setvar (name @ CHR ''='' # value) e = Inl Undefined
    else \<exists>e' out. CUSTOM_PUTENV setvar (name @ CHR ''='' # value) e = Inr (0, e', out)
      \<and> (if setvar name value e = None then e' = e
         else hoard_getenv getvar name e' = Inr (if value = [] then None else Some value))
      \<and> (CHR ''%'' \<notin> set (name @ value) \<longrightarrow> out = setting_line name value)"
proof -
  have "CHR ''%'' \<notin> set (setting_line name value)" if "CHR ''%'' \<notin> set (name @ value)"
    using that by (simp add: setting_line_def)
  moreover have "getvar name e' = (length value, value)"
    if "setvar name value e = Some e'" "length value < 32767" for e'
    using assms that unfolding reads_back_def by blast
  ultimately show ?thesis
    using split_at_equals [OF assms(3)]
    by (cases "setvar name value e")
      (auto simp: CUSTOM_PUTENV_def hoard_getenv_def length_setting_line printf_plain_safe Let_def)
qed

text \<open>An environment as a list of assignments; a variable without a name is refused.\<close>

definition env_get :: "string \<Rightarrow> (string \<times> string) list \<Rightarrow> nat \<times> string" where
  "env_get name e = (case map_of e name of None \<Rightarrow> (0, []) | Some v \<Rightarrow> (length v, v))"

definition env_set :: "string \<Rightarrow> string \<Rightarrow> (string \<times> string) list \<Rightarrow> (string \<times> string) list option" where
  "env_set name value e = (if name = [] then None else Some (AList.update name value e))"

theorem putenv_getenv_witness:
  "\<exists>e'. CUSTOM_PUTENV env_set ''HOME=/root'' [] = Inr (0, e', setting_line ''HOME'' ''/root'')
    \<and> hoard_getenv env_get ''HOME'' e' = Inr (Some ''/root'')"
proof -
  have "reads_back env_get env_set"
    by (auto simp: reads_back_def env_get_def env_set_def update_conv split: if_splits)
  moreover have "printf_plain (setting_line ''HOME'' ''/root'') \<noteq> None" "env_set ''HOME'' ''/root'' [] \<noteq> None"
    by (simp_all add: setting_line_def env_set_def)
  ultimately show ?thesis using putenv_getenv [of env_get env_set "''HOME''" "''/root''" "[]"] by auto
qed

end
