(* ===== verification/Race_Programs.thy ===== *)
theory Race_Programs
  imports Blob_Programs
begin

text \<open>
  \<open>pthread/race_condition.cc\<close> and \<open>pthread/order_violation.cc\<close>, run on the library as its
  README describes: two programs whose threads share a structure of two \<open>int\<close>s without
  synchronisation. \<open>n\<close> is \<open>THREAD_NUM\<close>, \<open>a\<close> is what \<open>malloc\<close> returned; output to the
  terminal is left out, what it reads from the heap is not.
\<close>

section \<open>The structure\<close>

definition x_of :: "addr \<Rightarrow> addr" where
  "x_of a = a + of_nat 0"

definition y_of :: "addr \<Rightarrow> addr" where
  "y_of a = a + of_nat 4"

definition ints :: "memory \<Rightarrow> addr \<Rightarrow> 32 word \<times> 32 word" where
  "ints m a = (word_at m (x_of a), word_at m (y_of a))"

definition set_x :: "addr \<Rightarrow> 32 word \<Rightarrow> prog \<Rightarrow> prog" where
  "set_x a v = store_word (x_of a) v"

definition set_y :: "addr \<Rightarrow> 32 word \<Rightarrow> prog \<Rightarrow> prog" where
  "set_y a v = store_word (y_of a) v"

section \<open>The race\<close>

definition race_fn1 :: "addr \<Rightarrow> prog" where
  "race_fn1 a = increment TYPE(32) (x_of a) (increment TYPE(32) (y_of a) Return)"

text \<open>The condition of the \<open>if\<close> reads \<open>y\<close> only when \<open>x\<close> is as expected.\<close>

definition print_ints :: "addr \<Rightarrow> prog" where
  "print_ints a = load_word (x_of a) (\<lambda>x :: 32 word. load_word (y_of a) (\<lambda>y :: 32 word. Return))"

definition race_check :: "nat \<Rightarrow> addr \<Rightarrow> prog" where
  "race_check n a =
     load_word (x_of a) (\<lambda>x. if x \<noteq> (of_nat n :: 32 word) then print_ints a
       else load_word (y_of a) (\<lambda>y. if y \<noteq> (of_nat n :: 32 word) then print_ints a else Return))"

definition race_main :: "nat \<Rightarrow> addr \<Rightarrow> prog" where
  "race_main n a =
     set_x a 0 (set_y a 0
      (create_all (replicate n (race_fn1 a)) (\<lambda>ts. join_all ts (race_check n a))))"

section \<open>The order violation\<close>

definition order_fn2 :: "addr \<Rightarrow> prog" where
  "order_fn2 a = load_word (x_of a) (\<lambda>x. if x = (1 :: 32 word) then set_y a 0 Return else Return)"

definition order_fn1 :: "addr \<Rightarrow> prog" where
  "order_fn1 a = load_word (y_of a) (\<lambda>y. if y = (1 :: 32 word) then set_x a 0 Return else Return)"

definition order_main :: "addr \<Rightarrow> prog" where
  "order_main a =
     set_x a 1 (set_y a 1
      (create_all [order_fn1 a, order_fn2 a] (\<lambda>ts. join_all ts (print_ints a))))"

section \<open>Sections and effects\<close>

datatype race_section = Race_Start | Race_Thread

fun race_code :: "addr \<Rightarrow> race_section \<Rightarrow> prog \<Rightarrow> prog" where
  "race_code a Race_Start c = set_x a 0 (set_y a 0 c)"
| "race_code a Race_Thread c = increment TYPE(32) (x_of a) (increment TYPE(32) (y_of a) c)"

fun race_effect :: "addr \<Rightarrow> race_section \<Rightarrow> memory \<Rightarrow> memory" where
  "race_effect a Race_Start m = put_word (y_of a) (0 :: 32 word) (put_word (x_of a) (0 :: 32 word) m)"
| "race_effect a Race_Thread m = bump TYPE(32) (y_of a) (bump TYPE(32) (x_of a) m)"

definition race_job :: "nat \<Rightarrow> addr \<Rightarrow> race_section job" where
  "race_job n a = Job Race_Start (replicate n (Job Race_Thread [] Return)) (race_check n a)"

datatype order_section = Order_Start | First | Second

fun order_code :: "addr \<Rightarrow> order_section \<Rightarrow> prog \<Rightarrow> prog" where
  "order_code a Order_Start c = set_x a 1 (set_y a 1 c)"
| "order_code a First c = load_word (y_of a) (\<lambda>y. if y = (1 :: 32 word) then set_x a 0 c else c)"
| "order_code a Second c = load_word (x_of a) (\<lambda>x. if x = (1 :: 32 word) then set_y a 0 c else c)"

fun order_effect :: "addr \<Rightarrow> order_section \<Rightarrow> memory \<Rightarrow> memory" where
  "order_effect a Order_Start m = put_word (y_of a) (1 :: 32 word) (put_word (x_of a) (1 :: 32 word) m)"
| "order_effect a First m = (if snd (ints m a) = 1 then put_word (x_of a) (0 :: 32 word) m else m)"
| "order_effect a Second m = (if fst (ints m a) = 1 then put_word (y_of a) (0 :: 32 word) m else m)"

definition order_job :: "addr \<Rightarrow> order_section job" where
  "order_job a = Job Order_Start [Job First [] Return, Job Second [] Return] (print_ints a)"

lemma code_race_job: "code (race_code a) (race_job n a) = race_main n a"
  by (simp add: race_job_def race_main_def race_fn1_def)

lemma code_order_job: "code (order_code a) (order_job a) = order_main a"
  by (simp add: order_job_def order_main_def order_fn1_def order_fn2_def)

lemma ints_apart: "extent (x_of a) 4 \<inter> extent (y_of a) 4 = {}" "extent (y_of a) 4 \<inter> extent (x_of a) 4 = {}"
  unfolding x_of_def y_of_def by (intro cells_apart; simp)+

lemma ints_put [simp]:
  "ints (put_word (x_of a) (v :: 32 word) m) a = (v, snd (ints m a))"
  "ints (put_word (y_of a) (v :: 32 word) m) a = (fst (ints m a), v)"
  by (simp_all add: ints_def ints_apart word_at_put_same word_at_put_other)

lemma ints_bump [simp]:
  "ints (bump TYPE(32) (x_of a) m) a = (fst (ints m a) + 1, snd (ints m a))"
  "ints (bump TYPE(32) (y_of a) m) a = (fst (ints m a), snd (ints m a) + 1)"
  by (simp_all add: bump_def) (simp_all add: ints_def)

lemma race_count: "ints (fold (race_effect a) (Race_Start # replicate n Race_Thread) m) a = (of_nat n, of_nat n)"
proof -
  have "ints ((race_effect a Race_Thread ^^ n) m') a = (fst (ints m' a) + of_nat n, snd (ints m' a) + of_nat n)"
    for m' by (induction n) (simp_all add: algebra_simps)
  from this [of "race_effect a Race_Start m"] show ?thesis by simp
qed

lemma quiet_load_word: "(\<And>w. quiet G (k w)) \<Longrightarrow> quiet G (load_word a k)"
  by (simp add: load_word_def quiet_load_bytes)

lemma quiet_print_ints: "quiet G (print_ints a)"
  by (simp add: print_ints_def quiet_load_word)

lemma good_jobs: "n > 0 \<Longrightarrow> good_job G (race_job n a)" "good_job G (order_job a)"
  by (auto simp: race_job_def order_job_def race_check_def quiet_print_ints intro!: quiet_load_word)

locale int_pair =
  fixes G :: heap_globals and a :: addr
  assumes heap: "heap_aligned G" and pair: "extent a 8 \<subseteq> Collect (in_heap G)"
begin

lemma ints_in_heap: "extent (x_of a) 4 \<subseteq> Collect (in_heap G)" "extent (y_of a) 4 \<subseteq> Collect (in_heap G)"
  unfolding x_of_def y_of_def by (rule subset_trans [OF subcell pair]; simp)+

lemma takes_set:
  "takes G 4 (set_x a v c) m c (put_word (x_of a) v m)"
  "takes G 4 (set_y a v c) m c (put_word (y_of a) v m)"
  using takes_store_word [of "x_of a" G v c m] takes_store_word [of "y_of a" G v c m] ints_in_heap
  by (simp_all add: set_x_def set_y_def)

lemma takes_get:
  fixes k :: "32 word \<Rightarrow> prog"
  shows "takes G 4 (load_word (x_of a) k) m (k (fst (ints m a))) m"
    and "takes G 4 (load_word (y_of a) k) m (k (snd (ints m a))) m"
  using takes_load_word [of "x_of a" G k m] takes_load_word [of "y_of a" G k m] ints_in_heap
  by (simp_all add: ints_def)

lemma takes_bump:
  "takes G 8 (increment TYPE(32) (x_of a) c) m c (bump TYPE(32) (x_of a) m)"
  "takes G 8 (increment TYPE(32) (y_of a) c) m c (bump TYPE(32) (y_of a) m)"
  using takes_increment [of "x_of a" G c m, where 'w = 32] takes_increment [of "y_of a" G c m, where 'w = 32]
    ints_in_heap
  by simp_all

lemma takes_race: "\<exists>k\<le>16. takes G k (race_code a l c) m c (race_effect a l m)"
proof (cases l)
  case Race_Start
  then show ?thesis using takes_trans [OF takes_set(1) takes_set(2)] by (intro exI [of _ 8]) simp
next
  case Race_Thread
  then show ?thesis using takes_trans [OF takes_bump(1) takes_bump(2)] by (intro exI [of _ 16]) simp
qed

lemma takes_order: "\<exists>k\<le>8. takes G k (order_code a l c) m c (order_effect a l m)"
proof (cases l)
  case Order_Start
  then show ?thesis using takes_trans [OF takes_set(1) takes_set(2)] by (intro exI [of _ 8]) simp
next
  case First
  let ?k = "\<lambda>y. if y = (1 :: 32 word) then set_x a 0 c else c"
  note read = takes_get(2) [of ?k m]
  show ?thesis
    using read takes_trans [OF read, of 4 c "put_word (x_of a) (0 :: 32 word) m"] takes_set(1) [of 0 c m]
    by (cases "snd (ints m a) = 1") (auto simp: First intro: exI [of _ 4] exI [of _ 8])
next
  case Second
  let ?k = "\<lambda>x. if x = (1 :: 32 word) then set_y a 0 c else c"
  note read = takes_get(1) [of ?k m]
  show ?thesis
    using read takes_trans [OF read, of 4 c "put_word (y_of a) (0 :: 32 word) m"] takes_set(2) [of 0 c m]
    by (cases "fst (ints m a) = 1") (auto simp: Second intro: exI [of _ 4] exI [of _ 8])
qed

end

sublocale int_pair \<subseteq> race: counted_sections G "race_code a" "race_effect a" "\<lambda>_. 16"
  by unfold_locales (use takes_race heap in \<open>simp_all add: takes_def\<close>)

sublocale int_pair \<subseteq> order: counted_sections G "order_code a" "order_effect a" "\<lambda>_. 8"
  by unfold_locales (use takes_order heap in \<open>simp_all add: takes_def\<close>)

context int_pair
begin

lemma race_heap:
  assumes "n > 0" and "live vp" and "initial (wrapped_main (race_main n a)) s0"
    and "sys_run no_order G vp s0 steps s" and "completed s0 s"
  shows "ints (heap_view G (shd s)) a = (of_nat n, of_nat n)"
proof -
  obtain ls where "mset ls = labels (race_job n a)" "hd ls = Race_Start"
      "heap_view G (shd s) = fold (race_effect a) ls (heap_view G (shd s0))"
    using race.program_result(1) [OF good_jobs(1) [OF assms(1), of G a], unfolded code_race_job,
        OF assms(3) heap assms(2,4,5)]
    by (auto simp: race_job_def)
  moreover have "labels (race_job n a) = add_mset Race_Start (replicate_mset n Race_Thread)"
    using sum_replicate_mset [of n 1 Race_Thread] by (simp add: race_job_def)
  ultimately show ?thesis using one_first race_count by metis
qed

lemma order_heap:
  assumes "live vp" and "initial (wrapped_main (order_main a)) s0"
    and "sys_run no_order G vp s0 steps s" and "completed s0 s"
  shows "ints (heap_view G (shd s)) a \<in> {(0, 1), (1, 0)}"
proof -
  obtain ls where ls: "mset ls = labels (order_job a)" "hd ls = Order_Start"
      "heap_view G (shd s) = fold (order_effect a) ls (heap_view G (shd s0))"
    using order.program_result(1) [OF good_jobs(2) [of G a], unfolded code_order_job,
        OF assms(2) heap assms(1,3,4)]
    by (auto simp: order_job_def)
  then obtain xs where xs: "ls = Order_Start # xs" "mset xs = {#First, Second#}"
    by (cases ls) (auto simp: order_job_def)
  then obtain l1 l2 where "xs = [l1, l2]" "mset [l1, l2] = {#First, Second#}"
    by (metis add_mset_eq_single length_0_conv length_Suc_conv size_add_mset size_empty size_mset)
  then have "xs = [First, Second] \<or> xs = [Second, First]" by (auto simp: add_eq_conv_ex)
  with ls(3) xs(1) show ?thesis by auto
qed

lemma race_ends:
  assumes "n > 0" and "live vp" and "ready s i t" and "cur t = wrapped_main (race_main n a)"
    and "predecessor (gp t) = 0" and "procs s = [i \<mapsto> t]" and "i \<noteq> 0"
  shows "\<exists>s'. within (job_steps (\<lambda>_. 16) 8 (race_job n a) + 52) (sys_step no_order G vp) s s' \<and> completed s s'"
proof -
  let ?h = "job_effect (race_effect a) (race_job n a) (heap_view G (shd s))"
  let ?js = "replicate n (Job Race_Thread [] Return)"
  have "job_effect (race_effect a) (Job Race_Thread [] Return) = race_effect a Race_Thread" by (simp add: fun_eq_iff)
  then have "?h = fold (race_effect a) (Race_Start # replicate n Race_Thread) (heap_view G (shd s))"
    by (simp add: race_job_def)
  then have "ints ?h a = (of_nat n, of_nat n)" using race_count by simp
  then have "takes G (4 + 4) (race_check n a) ?h Return ?h"
    unfolding race_check_def
    by (intro takes_trans [OF takes_get(1)]) (use takes_get(2) [of "\<lambda>y. if y \<noteq> of_nat n then print_ints a else Return" ?h] in simp)
  then have fin: "finishes G (race_check n a) (job_effect (race_effect a) (Job Race_Start ?js (race_check n a))
      (heap_view G (shd s))) 8"
    by (simp only: race_job_def finishes_def takes_def) simp
  have cur: "cur t = wrapped_main (code (race_code a) (Job Race_Start ?js (race_check n a)))"
    unfolding assms(4) code_race_job [symmetric] race_job_def ..
  have "\<forall>j\<in>set ?js. plain j" "?js \<noteq> []" using assms(1) by auto
  from race.any_program_completes [OF assms(2,3) cur assms(5-7) this fin order_refl]
  show ?thesis unfolding race_job_def using exited_completed [OF _ assms(6)] by blast
qed

lemma order_ends:
  assumes "live vp" and "ready s i t" and "cur t = wrapped_main (order_main a)"
    and "predecessor (gp t) = 0" and "procs s = [i \<mapsto> t]" and "i \<noteq> 0"
  shows "\<exists>s'. within (job_steps (\<lambda>_. 8) 8 (order_job a) + 52) (sys_step no_order G vp) s s' \<and> completed s s'"
proof -
  let ?js = "[Job First [] Return, Job Second [] Return]"
  have "takes G (4 + 4) (print_ints a) h Return h" for h
    unfolding print_ints_def by (rule takes_trans [OF takes_get(1) takes_get(2)])
  then have fin: "finishes G (print_ints a) (job_effect (order_effect a) (Job Order_Start ?js (print_ints a))
      (heap_view G (shd s))) 8"
    by (simp add: finishes_def takes_def)
  have cur: "cur t = wrapped_main (code (order_code a) (Job Order_Start ?js (print_ints a)))"
    unfolding assms(3) code_order_job [symmetric] order_job_def ..
  have "\<forall>j\<in>set ?js. plain j" "?js \<noteq> []" by auto
  from order.any_program_completes [OF assms(1,2) cur assms(4-6) this fin order_refl]
  show ?thesis unfolding order_job_def using exited_completed [OF _ assms(5)] by blast
qed

end

text \<open>Both programs touch the heap in every section, so the ordered mode fixes their outcome.\<close>

lemma word_accesses:
  "LENGTH('w) \<ge> 8 \<Longrightarrow> \<not> ends_section (load_word a (k :: 'w::len word \<Rightarrow> prog))"
  "LENGTH('w) \<ge> 8 \<Longrightarrow> \<not> ends_section (store_word a (v :: 'w::len word) c)"
proof -
  assume "LENGTH('w) \<ge> 8"
  then have "width TYPE('w) > 0" by (simp add: div_greater_zero_iff)
  then obtain n where n: "width TYPE('w) = Suc n" using gr0_conv_Suc by blast
  show "\<not> ends_section (load_word a k)" by (simp add: load_word_def n)
  have "length (bytes_of (Suc n) (unat v)) = Suc n" by simp
  then obtain b bs where "bytes_of (Suc n) (unat v) = b # bs" by (metis length_Suc_conv)
  then show "\<not> ends_section (store_word a v c)" by (simp add: store_word_def n)
qed

sublocale int_pair \<subseteq> order: touching_fork_join G "order_code a" "order_effect a"
proof
  show "\<not> ends_section (order_code a l c)" for l c
    by (cases l) (simp_all add: set_x_def set_y_def word_accesses)
qed

interpretation pair: int_pair sample_heap test_block
proof
  show "extent test_block 8 \<subseteq> Collect (in_heap sample_heap)"
    unfolding test_block_def by (rule heap_cells) simp
qed (rule sample_aligned)

section \<open>Properties\<close>

text \<open>
  The race is gone. Under the library the program of \<open>race_condition.cc\<close> ends with both
  counters equal to the number of threads, in every completed run.
\<close>

lemma race_counts:
  assumes "heap_aligned G" and "live vp" and "extent a 8 \<subseteq> Collect (in_heap G)" and "n > 0"
    and "initial (wrapped_main (race_main n a)) s0" and "sys_run no_order G vp s0 steps s" and "completed s0 s"
  shows "ints (heap_view G (shd s)) a = (of_nat n, of_nat n)"
  by (rule int_pair.race_heap [OF int_pair.intro [OF assms(1,3)] assms(4,2,5-7)])

lemma order_run:
  "\<exists>steps s. sys_run no_order sample_heap live_view (starting (wrapped_main (order_main test_block))) steps s
    \<and> completed (starting (wrapped_main (order_main test_block))) s"
proof -
  let ?c = "wrapped_main (order_main test_block)"
  have procs: "procs (starting ?c) = [1 \<mapsto> first_process ?c]" by (simp add: starting_def)
  obtain s where s: "within (job_steps (\<lambda>_. 8) 8 (order_job test_block) + 52)
        (sys_step no_order sample_heap live_view) (starting ?c) s" "completed (starting ?c) s"
    using pair.order_ends [where no_order = no_order, OF live_live_view starting_ready _ _ procs] by auto
  have "job_steps (\<lambda>_. 8) 8 (order_job test_block) + 52 < 2 ^ 64" by (simp add: order_job_def)
  then show ?thesis using reachable_within [OF s(1)] s(2) by blast
qed

text \<open>
  C24: The threads of \<open>order_violation.cc\<close> never both act. Each resets the other's variable
  only if its own is still set; unsynchronised threads can both find them set. Under the library
  every completed run ends with exactly one of the two reset.
\<close>

theorem order_outcomes:
  assumes "heap_aligned G" and "live vp" and "extent a 8 \<subseteq> Collect (in_heap G)"
    and "initial (wrapped_main (order_main a)) s0" and "sys_run no_order G vp s0 steps s" and "completed s0 s"
  shows "ints (heap_view G (shd s)) a \<in> {(0, 1), (1, 0)}"
  by (rule int_pair.order_heap [OF int_pair.intro [OF assms(1,3)] assms(2,4-6)])

theorem order_outcomes_witness:
  "\<exists>steps s. sys_run True sample_heap live_view (starting (wrapped_main (order_main test_block))) steps s
    \<and> ints (heap_view sample_heap (shd s)) test_block \<in> {(0, 1), (1, 0)}"
proof -
  obtain steps s where s: "sys_run True sample_heap live_view (starting (wrapped_main (order_main test_block))) steps s"
      "completed (starting (wrapped_main (order_main test_block))) s"
    using order_run by blast
  from order_outcomes [OF sample_aligned live_live_view pair.pair starting_initial s] s(1) show ?thesis by blast
qed

text \<open>
  In the ordered mode the outcome is fixed: the first thread acts, the second finds its variable
  reset.
\<close>

theorem ordered_is_sequential_witness:
  "\<exists>steps s. sys_run False sample_heap live_view (starting (wrapped_main (order_main test_block))) steps s
    \<and> ints (heap_view sample_heap (shd s)) test_block = (0, 1)"
proof -
  obtain steps s where s: "sys_run False sample_heap live_view (starting (wrapped_main (order_main test_block))) steps s"
      "completed (starting (wrapped_main (order_main test_block))) s"
    using order_run by blast
  have "heap_view sample_heap (shd s) = job_effect (order_effect test_block) (order_job test_block)
      (heap_view sample_heap (shd (starting (wrapped_main (order_main test_block)))))"
    using ordered_is_sequential [where B = "order_code test_block" and eff = "order_effect test_block",
        OF _ _ good_jobs(2) starting_initial sample_aligned live_live_view starting_predecessors
          s [folded code_order_job]]
      pair.order.body_runs pair.order.touching by (simp add: code_order_job)
  then have "ints (heap_view sample_heap (shd s)) test_block = (0, 1)" by (simp add: order_job_def)
  with s(1) show ?thesis by blast
qed

end
