(* ===== verification/Doomed_Sections.thy ===== *)
theory Doomed_Sections
  imports Scenarios
begin

text \<open>
  Sections that see two commits. A page is first seen when a section first touches it, so a section
  can read one page from before a commit of another process and a second page from after it. It
  could not commit what it makes of them; but before it comes to the check it can do what no thread
  would do alone, for example fail an assertion, which ends the process.
\<close>

definition low_cell :: addr where
  "low_cell = 0x7ffff7e82abc"

definition high_cell :: addr where
  "high_cell = 0x7ffff7e83abc"

text \<open>The writer keeps the two cells equal, and the reader aborts unless they are.\<close>

definition writer :: prog where
  "writer = Store low_cell 1 (Store high_cell 1 Return)"

definition reader_second :: "byte \<Rightarrow> prog" where
  "reader_second v = Load high_cell (\<lambda>w. if v = w then Return else Quit)"

definition reader :: prog where
  "reader = Load low_cell reader_second"

definition torn :: prog where
  "torn = Spawn writer (\<lambda>j. reader)"

lemma cells_in_heap: "in_heap sample_heap low_cell" "in_heap sample_heap high_cell" "low_cell \<noteq> high_cell"
  by (simp_all add: in_heap_def low_cell_def high_cell_def sample_heap_def HEAP_SIZE_def)

lemma writer_alone:
  "((local_step sample_heap) ^^ 2) (writer, m) (Return, m(low_cell := 1, high_cell := 1))"
proof -
  have "local_step sample_heap (writer, m) (Store high_cell 1 Return, m(low_cell := 1))"
    "local_step sample_heap (Store high_cell 1 Return, m(low_cell := 1)) (Return, m(low_cell := 1, high_cell := 1))"
    using cells_in_heap by (simp_all add: writer_def)
  then show ?thesis by (auto simp: numeral_2_eq_2 relpowp.simps)
qed

lemma reader_alone:
  assumes "m low_cell = m high_cell"
  shows "runs sample_heap reader m Return m"
proof -
  have "runs sample_heap reader m (reader_second (m low_cell)) m"
    using runs_load [OF runs_refl cells_in_heap(1)] by (simp add: reader_def)
  from runs_load [OF this [unfolded reader_second_def] cells_in_heap(2), of "m high_cell"] assms
  show ?thesis by simp
qed

section \<open>What the threads do alone\<close>

definition torn_threads :: "athread set" where
  "torn_threads = {Running torn, Running writer, Running reader, Committed torn, Committed Return, Exited, Crashed}"

definition cells_equal :: "atomic \<Rightarrow> bool" where
  "cells_equal A \<longleftrightarrow> heap A low_cell = heap A high_cell \<and> ran (threads A) \<subseteq> torn_threads"

lemma ran_update: "ran f \<subseteq> S \<Longrightarrow> x \<in> S \<Longrightarrow> ran (f(i \<mapsto> x)) \<subseteq> S"
  by (auto simp: ran_def split: if_splits)

lemma cells_equal_thread: "cells_equal A \<Longrightarrow> threads A i = Some x \<Longrightarrow> x \<in> torn_threads"
  using ranI [of "threads A" i x] by (auto simp: cells_equal_def)

lemma cells_equal_step:
  assumes "cells_equal A" and "astep sample_heap A A'"
  shows "cells_equal A'"
  using assms(2)
proof (cases rule: astep.cases)
  case (run_section i c d m)
  have "c \<in> {torn, writer, reader}"
    using cells_equal_thread [OF assms(1) run_section(2)] by (auto simp: torn_threads_def)
  then consider "c = torn" | "c = writer" | "c = reader" by blast
  then have "d = torn \<and> m = heap A \<or> d = Return \<and> m \<in> {heap A, (heap A)(low_cell := 1, high_cell := 1)}"
  proof cases
    case 1
    have "ends_section torn" by (simp add: torn_def)
    then show ?thesis using runs_deterministic [OF run_section(3,4), of torn "heap A"] 1 by simp
  next
    case 2
    have "runs sample_heap writer (heap A) Return ((heap A)(low_cell := 1, high_cell := 1))"
      using writer_alone relpowp_imp_rtranclp unfolding runs_def by metis
    then show ?thesis using runs_deterministic [OF run_section(3,4), of Return] 2 by simp
  next
    case 3
    have "runs sample_heap reader (heap A) Return (heap A)"
      using assms(1) by (intro reader_alone) (simp add: cells_equal_def)
    then show ?thesis using runs_deterministic [OF run_section(3,4), of Return] 3 by simp
  qed
  then have "m low_cell = m high_cell" "Committed d \<in> torn_threads"
    using assms(1) cells_in_heap(3) by (auto simp: cells_equal_def torn_threads_def)
  with assms(1) show ?thesis unfolding run_section(1) by (simp add: cells_equal_def ran_update)
next
  case (spawn i c k j)
  have "Spawn c k = torn"
    using cells_equal_thread [OF assms(1) spawn(2)] by (auto simp: torn_threads_def)
  then have "Running c \<in> torn_threads" "Running (k j) \<in> torn_threads" by (simp_all add: torn_def torn_threads_def)
  with assms(1) show ?thesis unfolding spawn(1) by (simp add: cells_equal_def ran_update)
next
  case (await i j c)
  have "Await j c \<in> {torn, Return}"
    using cells_equal_thread [OF assms(1) await(2)] by (auto simp: torn_threads_def)
  then show ?thesis by (simp add: torn_def)
next
  case (exit i)
  have "Exited \<in> torn_threads" by (simp add: torn_threads_def)
  with assms(1) show ?thesis unfolding exit(1) by (simp add: cells_equal_def ran_update)
next
  case (crash i x)
  have "Crashed \<in> torn_threads" by (simp add: torn_threads_def)
  with assms(1) show ?thesis unfolding crash(1) by (simp add: cells_equal_def ran_update)
qed

interpretation cells: invariant "astep sample_heap" cells_equal
  by unfold_locales (rule cells_equal_step)

section \<open>What the system does\<close>

lemma section_elsewhere:
  "section_at G sh t0 c m t \<Longrightarrow> section_at G sh' t0 c (overlay (gp t) (heap_view G sh')) t"
  by (simp add: section_at_def)

lemma moved_shd [simp]: "(moved i (t, sh) s)\<lparr>shd := sh\<rparr> = moved i (t, sh) s"
  by (simp add: moved_def set_proc_def)

lemma torn_run:
  "\<exists>n s t. sys_run no_order sample_heap live_view (starting torn) n s \<and> procs s 1 = Some t
    \<and> \<not> alive t \<and> pc t = Body \<and> cur t = Quit"
proof -
  let ?R = "sys_step no_order sample_heap live_view" and ?s0 = "starting torn" and ?t0 = "first_process torn"
  have "ends_section (cur ?t0)" by (simp add: torn_def)
  from idle_section [OF starting_ready sample_aligned live_live_view this, of no_order]
  obtain s1 t1 where s1: "within 8 ?R ?s0 s1" "shd s1 = shd ?s0"
      and over1: "section_over sample_heap ?s0 1 ?t0 (Spawn writer (\<lambda>j. reader)) (heap_view sample_heap (shd ?s0)) s1 t1"
    by (auto simp: torn_def)
  have free: "procs s1 2 = None" "procs s1 0 = None" and pred: "predecessor (gp t1) = 0"
    using over1 by (simp_all add: section_over_def starting_def)
  let ?p = "parent_thread 2 reader t1" and ?c = "child_thread no_order 1 2 writer t1"
  let ?s2 = "set_proc 1 ?p (set_proc 2 ?c s1)"
  have "(2 :: pid_t) \<noteq> 0" by simp
  note fork = fork_ready [OF over1 this free(1), where no_order = no_order]
  have load: "cur ?p = Load low_cell reader_second" by (simp add: reader_def)
  have zero: "heap_view sample_heap (shd ?s2) = (\<lambda>a. 0)"
    using s1(2) by (simp add: heap_view_def starting_def fun_eq_iff)
  obtain u where u: "within 8 ?R ?s2 (moved 1 (u, shd ?s2) ?s2)"
      "reached sample_heap ?s2 ?p (reader_second 0) (\<lambda>a. 0) u" "no_copies (gp u)"
    using first_load [OF fork(2) sample_aligned live_live_view load cells_in_heap(1), of no_order] unfolding zero by blast
  let ?s3 = "moved 1 (u, shd ?s2) ?s2"
  have u_at: "section_at sample_heap (shd ?s2) u (reader_second 0) (\<lambda>a. 0) u" "alive u"
    using u(2) by (simp_all add: reached_def)
  have ready3: "ready ?s3 2 ?c" using fork(3) by (simp add: ready_def)
  have "procs ?s3 0 = None" "predecessor (gp ?c) = 0" using free(2) pred by simp_all
  then have wait: "wait_returns ?s3 2 (predecessor (gp ?c))" by (simp add: wait_for_nobody)
  have run2: "((local_step sample_heap) ^^ 2) (cur ?c, heap_view sample_heap (shd ?s3))
      (Return, (heap_view sample_heap (shd ?s3))(low_cell := 1, high_cell := 1))"
    using writer_alone by simp
  from section_commits [OF ready3 sample_aligned live_live_view wait run2 ends_section_simps(5), of no_order]
  obtain s4 t4 where s4: "within (6 * 2 + 13) ?R ?s3 s4"
      and over4: "section_over sample_heap ?s3 2 ?c Return
        ((heap_view sample_heap (shd ?s3))(low_cell := 1, high_cell := 1)) s4 t4" by blast
  have p4: "procs s4 1 = Some u" and one: "heap_view sample_heap (shd s4) high_cell = 1"
    using over4 by (simp_all add: section_over_def)
  have "overlay (gp u) (heap_view sample_heap (shd s4)) = heap_view sample_heap (shd s4)" using u(3) by simp
  then have at4: "section_at sample_heap (shd s4) u
      (Load high_cell (\<lambda>w. if 0 = w then Return else Quit)) (heap_view sample_heap (shd s4)) u"
    using section_elsewhere [OF u_at(1), of "shd s4"] by (simp add: reader_second_def)
  obtain v where v: "within 2 (tstep sample_heap live_view 1) (u, shd s4) (v, shd s4)"
      "section_at sample_heap (shd s4) u Quit (heap_view sample_heap (shd s4)) v"
    using section_load [OF at4 sample_aligned live_live_view cells_in_heap(2), of 1] one by auto
  have v_at: "alive v" "pc v = Body" "cur v = Quit" using v(2) u_at(2) by (simp_all add: section_at_def)
  let ?s5 = "moved 1 (v, shd s4) s4"
  have w5: "within 2 ?R s4 ?s5" by (rule lift_within [OF _ p4]) (use v(1) v_at(1) u_at(2) in simp_all)
  have "?R ?s5 (set_proc 1 (v\<lparr>alive := False\<rparr>) ?s5)"
    using sys_step.thread [of ?s5 1 v sample_heap live_view "v\<lparr>alive := False\<rparr>" "shd ?s5" no_order]
      tstep.quit [OF v_at(2,3)] v_at(1) by simp
  note path = within_trans [OF s1(1) within_first [where R = ?R, OF fork(1) within_trans [OF u(1)
      within_trans [OF s4 within_next [where R = ?R, OF w5 this]]]]]
  obtain n where "sys_run no_order sample_heap live_view ?s0 n (set_proc 1 (v\<lparr>alive := False\<rparr>) ?s5)"
    using reachable_within [OF path] by auto
  with v_at show ?thesis by (intro exI [of _ n] exI [of _ "set_proc 1 (v\<lparr>alive := False\<rparr>) ?s5"]) auto
qed

section \<open>Properties\<close>

text \<open>
  C10: A section can see two commits. A program of two threads, one of which sets two cells of
  different pages to the same value while the other aborts unless they are equal, keeps the cells
  equal on every heap the atomic machine reaches, and run on any of them the reader returns; yet in
  the system, with and without \<open>NO_ORDER\<close>, the reader's process can be ended by its own check.
\<close>

theorem doomed_section:
  "{A. (astep sample_heap)\<^sup>*\<^sup>* \<lparr>heap = (\<lambda>a. 0), threads = [1 \<mapsto> Running torn]\<rparr> A}
      \<subseteq> {A. heap A low_cell = heap A high_cell \<and> runs sample_heap reader (heap A) Return (heap A)}
   \<and> (\<exists>n s t. sys_run no_order sample_heap live_view (starting torn) n s \<and> procs s 1 = Some t
       \<and> \<not> alive t \<and> pc t = Body \<and> cur t = Quit)"
proof
  have "cells_equal \<lparr>heap = (\<lambda>a. 0), threads = [1 \<mapsto> Running torn]\<rparr>"
    by (simp add: cells_equal_def torn_threads_def)
  then show "{A. (astep sample_heap)\<^sup>*\<^sup>* \<lparr>heap = (\<lambda>a. 0), threads = [1 \<mapsto> Running torn]\<rparr> A}
      \<subseteq> {A. heap A low_cell = heap A high_cell \<and> runs sample_heap reader (heap A) Return (heap A)}"
    using cells.reachable reader_alone unfolding cells_equal_def by blast
qed (rule torn_run)

end
