(* ===== verification/Noheap.thy ===== *)
theory Noheap
  imports Fork_Join
begin

text \<open>
  \<open>example/noheap.cc\<close> and \<open>pthread/noheap.cc\<close>: threads that sum
  up random numbers and use no heap. \<open>rand\<close> is a parameter, the sequence of the values the calls
  return in one process; they are not negative, so \<open>%\<close> is \<open>mod\<close>. Signed arithmetic that leaves the range of \<open>int\<close> is undefined (\<open>None\<close>).
\<close>

definition NUM :: nat where
  "NUM = 1000000"

definition NOHEAP_THREADS :: nat where
  "NOHEAP_THREADS = 50"

definition int_plus :: "int \<Rightarrow> int \<Rightarrow> int option" where
  "int_plus x y = (if - (2 ^ 31) \<le> x + y \<and> x + y < 2 ^ 31 then Some (x + y) else None)"

text \<open>The loop of \<open>fn1\<close>, from round \<open>i\<close> on; every round calls \<open>rand\<close> twice.\<close>

function noheap_loop :: "(nat \<Rightarrow> int) \<Rightarrow> nat \<Rightarrow> nat \<Rightarrow> int \<Rightarrow> int \<Rightarrow> (int \<times> int) option" where
  "noheap_loop rand n i a b =
     (if i < n then
        (case int_plus a (rand (2 * i) mod 100) of
           None \<Rightarrow> None
         | Some a \<Rightarrow>
             (case int_plus b (rand (2 * i + 1) mod 100000) of
                None \<Rightarrow> None
              | Some b \<Rightarrow> noheap_loop rand n (Suc i) a b))
      else Some (a, b))"
  by pat_completeness auto
termination by (relation "measure (\<lambda>(_, n, i, _, _). n - i)") auto

declare noheap_loop.simps [simp del]

text \<open>What the thread prints, \<open>a\<close> and \<open>b\<close>.\<close>

definition noheap_fn1 :: "(nat \<Rightarrow> int) \<Rightarrow> (int \<times> int) option" where
  "noheap_fn1 rand = noheap_loop rand NUM 0 0 0"

text \<open>The heap is not touched, so each thread is one empty section.\<close>

definition noheap_main :: prog where
  "noheap_main = create_all (replicate NOHEAP_THREADS Return) (\<lambda>ts. join_all ts Return)"

text \<open>
  \<open>pthread/noheap.cc\<close> does not print: its \<open>fn1\<close> computes the same sums and drops them, so only
  whether they are defined is left. \<open>rand\<close> is what the calls of this one thread return.
\<close>

definition pthread_noheap_fn1 :: "(nat \<Rightarrow> int) \<Rightarrow> unit option" where
  "pthread_noheap_fn1 rand = (case noheap_loop rand NUM 0 0 0 of None \<Rightarrow> None | Some (a, b) \<Rightarrow> Some ())"

definition pthread_noheap_main :: prog where
  "pthread_noheap_main = create_all (replicate NOHEAP_THREADS Return) (\<lambda>ts. join_all ts Return)"

lemma pthread_noheap_fn1_defined:
  "pthread_noheap_fn1 rand = map_option (\<lambda>_. ()) (noheap_fn1 rand)"
  by (simp add: pthread_noheap_fn1_def noheap_fn1_def split: option.split)

section \<open>The sums\<close>

lemma int_plus_small: "0 \<le> x \<Longrightarrow> 0 \<le> y \<Longrightarrow> int_plus x y = (if x + y < 2 ^ 31 then Some (x + y) else None)"
  by (simp add: int_plus_def)

lemma sum_from: "i < n \<Longrightarrow> (\<Sum>j = i..<n. f j) = f i + (\<Sum>j = Suc i..<n. f j)" for f :: "nat \<Rightarrow> int"
  by (simp add: sum.atLeast_Suc_lessThan)

lemma noheap_loop_sums:
  assumes "i \<le> n" and "0 \<le> a" and "a \<le> 99 * int i" and "0 \<le> b" and "b < 2 ^ 31" and "n \<le> NUM"
  shows "noheap_loop rand n i a b =
    (let a' = a + (\<Sum>j = i..<n. rand (2 * j) mod 100); b' = b + (\<Sum>j = i..<n. rand (2 * j + 1) mod 100000) in
     if b' < 2 ^ 31 then Some (a', b') else None)"
  using assms
proof (induction "n - i" arbitrary: i a b)
  case 0
  then show ?case by (simp add: noheap_loop.simps [of _ _ i])
next
  case (Suc k)
  then have less: "i < n" by simp
  let ?x = "rand (2 * i) mod 100" and ?y = "rand (2 * i + 1) mod 100000"
  have x: "0 \<le> ?x" "?x \<le> 99" and y: "0 \<le> ?y" by simp_all
  have "99 * int (Suc i) \<le> 99 * int NUM" using less Suc.prems(6) by simp
  moreover have next_a: "a + ?x \<le> 99 * int (Suc i)" using Suc.prems(3) x by simp
  ultimately have a: "int_plus a ?x = Some (a + ?x)"
    using Suc.prems(2) x(1) by (simp add: int_plus_small NUM_def)
  show ?case
  proof (cases "b + ?y < 2 ^ 31")
    case True
    then have b: "int_plus b ?y = Some (b + ?y)" using Suc.prems(4) y by (simp add: int_plus_small)
    have "noheap_loop rand n i a b = noheap_loop rand n (Suc i) (a + ?x) (b + ?y)"
      using less a b by (simp add: noheap_loop.simps [of rand n i a b])
    also have "\<dots> = (let a' = a + ?x + (\<Sum>j = Suc i..<n. rand (2 * j) mod 100);
          b' = b + ?y + (\<Sum>j = Suc i..<n. rand (2 * j + 1) mod 100000) in
        if b' < 2 ^ 31 then Some (a', b') else None)"
      using less Suc True next_a x(1) y by (intro Suc.hyps(1)) simp_all
    finally show ?thesis using less by (simp add: sum_from Let_def add.assoc)
  next
    case False
    then have b: "int_plus b ?y = None" using Suc.prems(4) y by (simp add: int_plus_small)
    have "0 \<le> (\<Sum>j = Suc i..<n. rand (2 * j + 1) mod 100000)" by (simp add: sum_nonneg)
    with False less a b show ?thesis
      by (simp add: noheap_loop.simps [of rand n i a b] sum_from Let_def)
  qed
qed

text \<open>
  The sum \<open>a\<close> of \<open>noheap.cc\<close> always fits an \<open>int\<close>; the sum \<open>b\<close> is undefined exactly if
  the numbers add up to \<open>2 ^ 31\<close> or more, which a million numbers below 100000 do already when
  they are 2148 each.
\<close>

lemma noheap_sums:
  "noheap_fn1 rand =
    (let a = (\<Sum>j<NUM. rand (2 * j) mod 100); b = (\<Sum>j<NUM. rand (2 * j + 1) mod 100000) in
     if b < 2 ^ 31 then Some (a, b) else None)
    \<and> noheap_fn1 (\<lambda>j. 2148) = None"
  using noheap_loop_sums [of 0 NUM 0 0 rand] noheap_loop_sums [of 0 NUM 0 0 "\<lambda>j. 2148"]
  by (simp add: noheap_fn1_def lessThan_atLeast0 Let_def NUM_def)

end
