(* ===== verification/Password_Cracker.thy ===== *)
theory Password_Cracker
  imports Stack_Context
begin

text \<open>
  \<open>example/password_cracker.cc\<close>: threads that search the six-letter passwords for those whose
  MD5 digests a file lists. \<open>MD5\<close> is a parameter, a function from strings to sixteen bytes. The
  table of passwords is a global variable, so each thread, being a process, works on its own
  copy; what a thread does is a function of that copy. Output is the list of the
  lines given to \<open>printf\<close>; \<open>_exit\<close> does not write out what \<open>stdio\<close> still buffers of them.
\<close>

section \<open>The table\<close>

record password_entry =
  username :: string
  password_md5 :: "byte list"
  cracked :: bool

definition MD5_DIGEST_LENGTH :: nat where
  "MD5_DIGEST_LENGTH = 16"

definition MAX_USERNAME_LENGTH :: nat where
  "MAX_USERNAME_LENGTH = 24"

definition PASSWORD_LENGTH :: nat where
  "PASSWORD_LENGTH = 6"

definition NUM_THREAD :: nat where
  "NUM_THREAD = 4"

text \<open>\<open>pow(26.0, 6)\<close> and its quarters are exact as floating-point numbers.\<close>

definition TOTAL_PASSWORDS :: nat where
  "TOTAL_PASSWORDS = 26 ^ PASSWORD_LENGTH"

section \<open>Digests as text\<close>

text \<open>
  \<open>sscanf(pos, "%2hhx", &byte)\<close>: white space, then at most two characters of an optional sign
  and hexadecimal digits; a lone \<open>0x\<close> is no number.
\<close>

definition scan_byte :: "string \<Rightarrow> byte option" where
  "scan_byte input =
     (let w = take 2 (dropWhile is_space input);
          negative = (take 1 w = ''-'');
          w = (if take 1 w = ''-'' \<or> take 1 w = ''+'' then drop 1 w else w)
      in
        if w = ''0x'' \<or> w = ''0X'' \<or> w = [] \<or> hex_digit (hd w) = None then None
        else let n = fst (scan_hex 0 w) in Some (if negative then - of_nat n else of_nat n))"

function convert_loop :: "nat \<Rightarrow> string \<Rightarrow> byte list \<Rightarrow> int \<times> byte list" where
  "convert_loop i pos bytes =
     (if i < MD5_DIGEST_LENGTH then
        (case scan_byte pos of
           None \<Rightarrow> (-1, bytes)
         | Some b \<Rightarrow> convert_loop (Suc i) (drop 2 pos) (bytes[i := b]))
      else (0, bytes))"
  by pat_completeness auto
termination by (relation "measure (\<lambda>(i, _, _). MD5_DIGEST_LENGTH - i)") auto

declare convert_loop.simps [simp del]

definition md5_string_to_bytes :: "string \<Rightarrow> byte list \<Rightarrow> int \<times> byte list" where
  "md5_string_to_bytes md5_string bytes =
     (if length md5_string \<noteq> 2 * MD5_DIGEST_LENGTH then (-1, bytes) else convert_loop 0 md5_string bytes)"

definition print_byte :: "byte \<Rightarrow> string" where
  "print_byte b = [hex_char (unat b div 16), hex_char (unat b mod 16)]"

definition print_md5_bytes :: "byte list \<Rightarrow> string" where
  "print_md5_bytes bytes = concat (map print_byte (take MD5_DIGEST_LENGTH bytes))"

section \<open>Reading the file\<close>

text \<open>
  A \<open>%s\<close> of \<open>fscanf\<close>: white space is skipped, the token is read, and the rest of the file is left.
\<close>

definition scan_token :: "string \<Rightarrow> (string \<times> string) option" where
  "scan_token input =
     (case dropWhile is_space input of
        [] \<Rightarrow> None
      | cs \<Rightarrow> Some (takeWhile (\<lambda>c. \<not> is_space c) cs, dropWhile (\<lambda>c. \<not> is_space c) cs))"

lemma scan_token_shorter: "scan_token input = Some (tok, rest) \<Longrightarrow> length rest < length input"
proof -
  assume scan: "scan_token input = Some (tok, rest)"
  then obtain c cs where cs: "dropWhile is_space input = c # cs" by (auto simp: scan_token_def split: list.splits)
  then have "\<not> is_space c" using hd_dropWhile [of is_space input] by simp
  with scan cs have "rest = dropWhile (\<lambda>c. \<not> is_space c) cs" by (simp add: scan_token_def)
  then have "length rest < length (c # cs)" by (simp add: length_dropWhile_le le_imp_less_Suc)
  also have "\<dots> \<le> length input" using length_dropWhile_le [of is_space input] cs by simp
  finally show ?thesis .
qed

text \<open>
  The arrays are not checked: the eleventh entry, or a token longer than its buffer, overwrites
  other memory, and it does so when the token is read. Reading the white space behind the second
  token meets the end of the file exactly when nothing else is left, which is what \<open>feof\<close> reports.
\<close>

function read_loop :: "string \<Rightarrow> password_entry list \<Rightarrow> exit_reason + password_entry list" where
  "read_loop input passwords =
     (case scan_token input of
        None \<Rightarrow> Inl (Exit 2)
      | Some (name, rest) \<Rightarrow>
          if length passwords \<ge> 10 \<or> length name > MAX_USERNAME_LENGTH then Inl Undefined
          else
            (case scan_token rest of
               None \<Rightarrow> Inl (Exit 2)
             | Some (md5_string, rest) \<Rightarrow>
                 if length md5_string > 2 * MD5_DIGEST_LENGTH then Inl Undefined
                 else
                   let (rc, bytes) = md5_string_to_bytes md5_string (replicate (MD5_DIGEST_LENGTH + 1) 0);
                       rest = dropWhile is_space rest in
                   if rc \<noteq> 0 then Inl (Exit 2)
                   else
                     let passwords = passwords @ [\<lparr>username = name, password_md5 = bytes, cracked = False\<rparr>] in
                     if rest = [] then Inr passwords else read_loop rest passwords))"
  by pat_completeness auto
termination
proof (relation "measure (\<lambda>(input, _). length input)", goal_cases)
  case (2 input passwords name_rest name rest md5_rest md5_string rest' rc_bytes rc bytes rest'' entries)
  have "length rest' < length input"
    using 2 scan_token_shorter [of input name rest] scan_token_shorter [of rest md5_string rest'] by simp
  then show ?case using 2 length_dropWhile_le [of is_space rest'] by simp
qed simp

declare read_loop.simps [simp del]

text \<open>\<open>None\<close> is a file that cannot be opened.\<close>

definition read_password_file :: "string option \<Rightarrow> password_entry list \<Rightarrow> exit_reason + password_entry list" where
  "read_password_file file passwords =
     (case file of None \<Rightarrow> Inl (Exit 2) | Some input \<Rightarrow> read_loop input passwords)"

section \<open>Cracking\<close>

datatype line = Found string string | Rollback_count nat

text \<open>The loop of \<open>crack_passwords\<close>: the entries, the lines printed, and \<open>all_true\<close>.\<close>

fun crack_loop :: "byte list \<Rightarrow> string \<Rightarrow> password_entry list \<Rightarrow> password_entry list \<times> line list \<times> bool" where
  "crack_loop hash plaintext [] = ([], [], True)"
| "crack_loop hash plaintext (current # rest) =
     (let (rest, lines, all_true) = crack_loop hash plaintext rest in
      if \<not> cracked current then
        (if take MD5_DIGEST_LENGTH (password_md5 current) = hash
         then (current\<lparr>cracked := True\<rparr> # rest, Found (username current) plaintext # lines, all_true)
         else (current # rest, lines, False))
      else (current # rest, lines, all_true))"

record cracker =
  passwords :: "password_entry list"
  printed :: "line list"

text \<open>The result is \<open>Some\<close> when the process has ended.\<close>

definition crack_passwords ::
  "(string \<Rightarrow> byte list) \<Rightarrow> nat \<Rightarrow> string \<Rightarrow> cracker \<Rightarrow> exit_reason option \<times> cracker" where
  "crack_passwords MD5 rollbacks plaintext st =
     (let (entries, lines, all_true) = crack_loop (MD5 plaintext) plaintext (passwords st);
          st = st\<lparr>passwords := entries, printed := printed st @ lines\<rparr>
      in if all_true then (Some (UExit 0), st\<lparr>printed := printed st @ [Rollback_count rollbacks]\<rparr>)
         else (None, st))"

section \<open>The search\<close>

definition letter :: "nat \<Rightarrow> char" where
  "letter d = char_of (97 + d)"

text \<open>The inner loop; writing in front of the array is undefined (\<open>None\<close>).\<close>

function write_digits :: "nat \<Rightarrow> int \<Rightarrow> string \<Rightarrow> string option" where
  "write_digits num cur_digit guess =
     (if num > 0 then
        (if cur_digit < 0 then None
         else write_digits (num div 26) (cur_digit - 1) (guess[nat cur_digit := letter (num mod 26)]))
      else Some guess)"
  by pat_completeness auto
termination by (relation "measure (\<lambda>(num, _, _). num)") auto

declare write_digits.simps [simp del]

text \<open>The outer loop; \<open>guess\<close> keeps its letters from one round to the next.\<close>

function search_loop ::
  "(string \<Rightarrow> byte list) \<Rightarrow> nat \<Rightarrow> nat \<Rightarrow> nat \<Rightarrow> string \<Rightarrow> cracker \<Rightarrow> exit_reason option \<times> cracker" where
  "search_loop MD5 rollbacks i last_guess guess st =
     (if i < last_guess then
        (case write_digits i (int PASSWORD_LENGTH - 1) guess of
           None \<Rightarrow> (Some Undefined, st)
         | Some guess \<Rightarrow>
             (case crack_passwords MD5 rollbacks guess st of
                (Some e, st) \<Rightarrow> (Some e, st)
              | (None, st) \<Rightarrow> search_loop MD5 rollbacks (Suc i) last_guess guess st))
      else (None, st))"
  by pat_completeness auto
termination by (relation "measure (\<lambda>(_, _, i, last_guess, _, _). last_guess - i)") auto

declare search_loop.simps [simp del]

definition generate_all_possibilities ::
  "(string \<Rightarrow> byte list) \<Rightarrow> nat \<Rightarrow> nat \<Rightarrow> cracker \<Rightarrow> exit_reason option \<times> cracker" where
  "generate_all_possibilities MD5 rollbacks number st =
     (let len = TOTAL_PASSWORDS div 4 in
      search_loop MD5 rollbacks number (number + len) ''aaaaaa'' st)"

definition thread_arg :: "nat \<Rightarrow> nat" where
  "thread_arg i = i * TOTAL_PASSWORDS div 4"

definition thread_fn :: "(string \<Rightarrow> byte list) \<Rightarrow> nat \<Rightarrow> nat \<Rightarrow> cracker \<Rightarrow> exit_reason option \<times> cracker" where
  "thread_fn MD5 rollbacks arg st = generate_all_possibilities MD5 rollbacks arg st"

text \<open>
  \<open>main\<close>: what the threads it creates, one for each argument, start from.
\<close>

definition cracker_main :: "nat \<Rightarrow> string option \<Rightarrow> exit_reason + (nat \<times> cracker) list" where
  "cracker_main argc file =
     (if argc \<noteq> 2 then Inl (Exit 1)
      else bind_result (read_password_file file [])
        (\<lambda>entries. Inr (map (\<lambda>i. (thread_arg i, \<lparr>passwords = entries, printed = []\<rparr>)) [0..<NUM_THREAD])))"

section \<open>Digests\<close>

lemma hex_char_range: "d < 16 \<Longrightarrow> \<not> is_space (hex_char d) \<and> hex_char d \<noteq> CHR ''-'' \<and> hex_char d \<noteq> CHR ''+''
    \<and> hex_char d \<noteq> CHR ''x'' \<and> hex_char d \<noteq> CHR ''X''"
  using hex_char_neq [of d "CHR '' ''"] hex_char_neq(1) [of d "CHR ''-''"] hex_char_neq(1) [of d "CHR ''+''"]
    hex_char_neq(1) [of d "CHR ''x''"] hex_char_neq(1) [of d "CHR ''X''"]
  by (auto simp: hex_char_def of_char_of char_of_eq_iff)

lemma scan_print_byte: "scan_byte (print_byte b @ cs) = Some b"
proof -
  have d: "unat b div 16 < 16" "unat b mod 16 < 16"
    using unsigned_less [where 'a = nat, of b] by simp_all
  note chars = hex_char_range [OF d(1)] hex_char_range [OF d(2)]
  have "of_nat (unat b div 16 * 16 + unat b mod 16) = b" by simp
  then show ?thesis
    using chars by (simp add: scan_byte_def print_byte_def hex_digit_char d)
qed

lemma convert_print:
  assumes "length bytes \<ge> MD5_DIGEST_LENGTH" and "length bs = MD5_DIGEST_LENGTH - i" and "i \<le> MD5_DIGEST_LENGTH"
  shows "convert_loop i (concat (map print_byte bs)) bytes
    = (0, take i bytes @ bs @ drop MD5_DIGEST_LENGTH bytes)"
  using assms
proof (induction bs arbitrary: i bytes)
  case Nil
  then show ?case by (simp add: convert_loop.simps [of MD5_DIGEST_LENGTH])
next
  case (Cons b bs)
  then have i: "i < MD5_DIGEST_LENGTH" by simp
  have "length (print_byte b) = 2" by (simp add: print_byte_def)
  then have "convert_loop i (concat (map print_byte (b # bs))) bytes
      = convert_loop (Suc i) (concat (map print_byte bs)) (bytes[i := b])"
    using i scan_print_byte by (simp add: convert_loop.simps [of i])
  also have "\<dots> = (0, take (Suc i) (bytes[i := b]) @ bs @ drop MD5_DIGEST_LENGTH (bytes[i := b]))"
    using Cons.prems i by (intro Cons.IH) simp_all
  finally show ?case using i Cons.prems(1) by (simp add: take_Suc_conv_app_nth)
qed

lemma length_print_md5: "length bs = MD5_DIGEST_LENGTH \<Longrightarrow> length (print_md5_bytes bs) = 2 * MD5_DIGEST_LENGTH"
  by (simp add: print_md5_bytes_def length_concat comp_def print_byte_def sum_list_triv)

lemma md5_roundtrip:
  assumes "length bs = MD5_DIGEST_LENGTH" and "length bytes \<ge> MD5_DIGEST_LENGTH"
  shows "md5_string_to_bytes (print_md5_bytes bs) bytes = (0, bs @ drop MD5_DIGEST_LENGTH bytes)"
  using convert_print [OF assms(2), of bs 0] assms(1) length_print_md5 [OF assms(1)]
  by (simp add: md5_string_to_bytes_def print_md5_bytes_def)

section \<open>The file\<close>

definition line_feed :: char where
  "line_feed = CHR 0x0A"

lemma spaces [simp]: "is_space line_feed" "is_space (CHR '' '')"
  by (simp_all add: is_space_def line_feed_def)

definition solid :: "string \<Rightarrow> bool" where
  "solid tok \<longleftrightarrow> tok \<noteq> [] \<and> (\<forall>c\<in>set tok. \<not> is_space c)"

lemma scan_solid:
  assumes "solid tok" and "is_space c"
  shows "scan_token (tok @ c # cs) = Some (tok, c # cs)"
    and "is_space d \<Longrightarrow> scan_token (d # tok @ c # cs) = Some (tok, c # cs)"
proof -
  obtain t ts where tok: "tok = t # ts" "\<not> is_space t" using assms(1) by (cases tok) (auto simp: solid_def)
  have "takeWhile (\<lambda>c. \<not> is_space c) (tok @ c # cs) = tok" "dropWhile (\<lambda>c. \<not> is_space c) (tok @ c # cs) = c # cs"
    using assms by (simp_all add: solid_def takeWhile_append2 dropWhile_append2)
  then show "scan_token (tok @ c # cs) = Some (tok, c # cs)"
    and "is_space d \<Longrightarrow> scan_token (d # tok @ c # cs) = Some (tok, c # cs)"
    using tok by (simp_all add: scan_token_def)
qed

lemma solid_digest: "length bs = MD5_DIGEST_LENGTH \<Longrightarrow> solid (print_md5_bytes bs)"
proof -
  assume len: "length bs = MD5_DIGEST_LENGTH"
  have "\<not> is_space (hex_char (unat b div 16))" "\<not> is_space (hex_char (unat b mod 16))" for b :: byte
    using unsigned_less [where 'a = nat, of b] hex_char_range [of "unat b div 16"] hex_char_range [of "unat b mod 16"]
    by simp_all
  moreover have "print_md5_bytes bs \<noteq> []"
    using length_print_md5 [OF len] by (auto simp: MD5_DIGEST_LENGTH_def)
  ultimately show ?thesis by (auto simp: solid_def print_md5_bytes_def print_byte_def)
qed

text \<open>A line of a well-formed file, and the entry it stands for.\<close>

definition file_line :: "string \<times> byte list \<Rightarrow> string" where
  "file_line = (\<lambda>(name, digest). name @ '' '' @ print_md5_bytes digest @ [line_feed])"

definition file_entry :: "string \<times> byte list \<Rightarrow> password_entry" where
  "file_entry = (\<lambda>(name, digest). \<lparr>username = name, password_md5 = digest @ [0], cracked = False\<rparr>)"

definition good_line :: "string \<times> byte list \<Rightarrow> bool" where
  "good_line = (\<lambda>(name, digest). solid name \<and> length name \<le> MAX_USERNAME_LENGTH
     \<and> length digest = MD5_DIGEST_LENGTH)"

lemma file_lines_start: "\<forall>e\<in>set es. good_line e \<Longrightarrow> dropWhile is_space (concat (map file_line es)) = concat (map file_line es)"
proof (cases es)
  case (Cons f fs)
  moreover assume "\<forall>e\<in>set es. good_line e"
  ultimately have "solid (fst f)" by (simp add: good_line_def case_prod_beta)
  then show ?thesis using Cons by (cases "fst f") (auto simp: solid_def file_line_def case_prod_beta)
qed simp

lemma read_file_line:
  assumes e: "good_line e" and es: "\<forall>e\<in>set es. good_line e"
  shows "read_loop (concat (map file_line (e # es))) entries =
    (if length entries \<ge> 10 then Inl Undefined
     else if es = [] then Inr (entries @ [file_entry e])
     else read_loop (concat (map file_line es)) (entries @ [file_entry e]))"
proof -
  let ?rest = "concat (map file_line es)" and ?digest = "print_md5_bytes (snd e)"
  have parts: "solid (fst e)" "length (fst e) \<le> MAX_USERNAME_LENGTH" "length (snd e) = MD5_DIGEST_LENGTH"
    using e by (simp_all add: good_line_def case_prod_beta)
  have input: "concat (map file_line (e # es)) = fst e @ CHR '' '' # ?digest @ line_feed # ?rest"
    by (simp add: file_line_def case_prod_beta)
  have name: "scan_token (concat (map file_line (e # es))) = Some (fst e, CHR '' '' # ?digest @ line_feed # ?rest)"
    unfolding input using parts(1) by (simp add: scan_solid(1))
  have digest: "scan_token (CHR '' '' # ?digest @ line_feed # ?rest) = Some (?digest, line_feed # ?rest)"
    using scan_solid(2) [OF solid_digest [OF parts(3)]] by simp
  have "drop MD5_DIGEST_LENGTH (replicate (MD5_DIGEST_LENGTH + 1) (0 :: byte)) = [0]"
    by (simp only: drop_replicate) simp
  then have bytes: "md5_string_to_bytes ?digest (replicate (MD5_DIGEST_LENGTH + 1) 0) = (0, snd e @ [0])"
    using md5_roundtrip [of "snd e" "replicate (MD5_DIGEST_LENGTH + 1) 0"] parts(3) by simp
  have rest: "?rest = [] \<longleftrightarrow> es = []" by (cases es) (simp_all add: file_line_def case_prod_beta)
  have "dropWhile is_space (line_feed # ?rest) = ?rest" using file_lines_start [OF es] by simp
  then show ?thesis
    unfolding read_loop.simps [of "concat (map file_line (e # es))"] name option.case prod.case digest
    using parts(2) rest bytes length_print_md5 [OF parts(3)]
    by (simp add: file_entry_def case_prod_beta Let_def
      del: dropWhile.simps dropWhile_eq_Nil_conv concat_eq_Nil_conv replicate.simps)
qed

lemma read_loop_file:
  assumes "\<forall>e\<in>set es. good_line e" and "es \<noteq> []" and "length entries \<le> 10"
  shows "read_loop (concat (map file_line es)) entries =
    (if length entries + length es \<le> 10 then Inr (entries @ map file_entry es) else Inl Undefined)"
  using assms
proof (induction es arbitrary: entries)
  case (Cons e es)
  then have "good_line e" "\<forall>e\<in>set es. good_line e" by simp_all
  note step = read_file_line [OF this, of entries]
  show ?case
  proof (cases "length entries \<ge> 10 \<or> es = []")
    case True
    with step Cons.prems(3) show ?thesis by auto
  next
    case False
    then show ?thesis using step Cons.IH [of "entries @ [file_entry e]"] Cons.prems(1) by auto
  qed
qed simp

section \<open>The guesses\<close>

text \<open>The letters of a number in base 26, padded to \<open>c\<close> places with \<open>a\<close>.\<close>

fun digits :: "nat \<Rightarrow> nat \<Rightarrow> string" where
  "digits 0 i = []"
| "digits (Suc c) i = digits c (i div 26) @ [letter (i mod 26)]"

definition guess_of :: "nat \<Rightarrow> string" where
  "guess_of i = digits PASSWORD_LENGTH i"

lemma length_digits [simp]: "length (digits c i) = c"
  by (induction c i rule: digits.induct) simp_all

lemma length_guess_of [simp]: "length (guess_of i) = 6"
  by (simp add: guess_of_def PASSWORD_LENGTH_def)

lemma nth_digits: "k < c \<Longrightarrow> digits c i ! k = letter (i div 26 ^ (c - 1 - k) mod 26)"
proof (induction c i rule: digits.induct)
  case (2 c i)
  show ?case
  proof (cases "k < c")
    case True
    then have "i div 26 div 26 ^ (c - 1 - k) = i div 26 ^ (Suc c - 1 - k)"
      by (simp add: div_mult2_eq [symmetric] power_Suc [symmetric] Suc_diff_Suc del: power_Suc)
    then show ?thesis using 2 True by (simp add: nth_append)
  next
    case False
    then show ?thesis using 2 by (simp add: nth_append)
  qed
qed simp

lemma nth_guess_of: "k < 6 \<Longrightarrow> guess_of i ! k = letter (i div 26 ^ (5 - k) mod 26)"
  by (simp add: guess_of_def PASSWORD_LENGTH_def nth_digits)

text \<open>Every word of small letters is the guess of one number.\<close>

definition small_letters :: "string \<Rightarrow> bool" where
  "small_letters g \<longleftrightarrow> (\<forall>c\<in>set g. 97 \<le> (of_char c :: nat) \<and> (of_char c :: nat) < 123)"

lemma small_letter: "97 \<le> (of_char c :: nat) \<Longrightarrow> (of_char c :: nat) < 123 \<Longrightarrow> \<exists>d<26. c = letter d"
  by (rule exI [of _ "of_char c - 97"]) (simp add: letter_def)

lemma digits_onto: "small_letters g \<Longrightarrow> \<exists>i<26 ^ length g. digits (length g) i = g"
proof (induction g rule: rev_induct)
  case (snoc c g)
  from snoc.prems have "97 \<le> (of_char c :: nat)" "(of_char c :: nat) < 123" "small_letters g"
    by (simp_all add: small_letters_def)
  with snoc.IH small_letter obtain i d where i: "i < 26 ^ length g" "digits (length g) i = g"
      and d: "d < 26" "c = letter d" by blast
  from i(1) have "i + 1 \<le> 26 ^ length g" by simp
  then have "(i + 1) * 26 \<le> 26 ^ length g * 26" by (rule mult_le_mono1)
  then have "i * 26 + d < 26 ^ length (g @ [c])" using d(1) by simp
  moreover have "digits (length (g @ [c])) (i * 26 + d) = g @ [c]" using i(2) d by simp
  ultimately show ?case by blast
qed simp

lemma guess_onto: "length g = PASSWORD_LENGTH \<Longrightarrow> small_letters g \<Longrightarrow> \<exists>i<TOTAL_PASSWORDS. guess_of i = g"
  using digits_onto [of g] by (simp add: guess_of_def TOTAL_PASSWORDS_def)

lemma write_digits_spec:
  assumes "num < 26 ^ c" and "c \<le> length guess"
  shows "\<exists>g. write_digits num (int c - 1) guess = Some g \<and> length g = length guess
    \<and> (\<forall>k<length guess. g ! k = (if k < c \<and> num div 26 ^ (c - 1 - k) > 0
         then letter (num div 26 ^ (c - 1 - k) mod 26) else guess ! k))"
  using assms
proof (induction c arbitrary: num guess)
  case 0
  then show ?case by (simp add: write_digits.simps [of 0])
next
  case (Suc c)
  show ?case
  proof (cases "num > 0")
    case False
    then show ?thesis by (simp add: write_digits.simps [of 0])
  next
    case True
    let ?guess = "guess[c := letter (num mod 26)]"
    have "num div 26 < 26 ^ c" using Suc.prems(1) by (simp add: less_mult_imp_div_less mult.commute)
    with Suc.IH [of "num div 26" ?guess] Suc.prems(2) obtain g
      where g: "write_digits (num div 26) (int c - 1) ?guess = Some g" "length g = length guess"
        "\<forall>k<length guess. g ! k = (if k < c \<and> num div 26 div 26 ^ (c - 1 - k) > 0
           then letter (num div 26 div 26 ^ (c - 1 - k) mod 26) else ?guess ! k)"
      by auto
    have "write_digits num (int (Suc c) - 1) guess = Some g"
      using True g(1) by (simp add: write_digits.simps [of num])
    moreover have "g ! k = (if k < Suc c \<and> num div 26 ^ (Suc c - 1 - k) > 0
        then letter (num div 26 ^ (Suc c - 1 - k) mod 26) else guess ! k)" if k: "k < length guess" for k
    proof (cases "k < c")
      case True
      then have "num div 26 div 26 ^ (c - 1 - k) = num div 26 ^ (Suc c - 1 - k)"
        by (simp add: div_mult2_eq [symmetric] power_Suc [symmetric] Suc_diff_Suc del: power_Suc)
      then show ?thesis using True g(3) k by simp
    next
      case False
      then show ?thesis using g(3) k \<open>num > 0\<close> by (cases "k = c") simp_all
    qed
    ultimately show ?thesis using g(2) by blast
  qed
qed

lemma letter_0: "letter 0 = CHR ''a''"
  by (simp add: letter_def char_of_eq_iff)

text \<open>A round writes the letters of \<open>i\<close> when those in front of its digits are still \<open>a\<close>.\<close>

definition leading_a :: "nat \<Rightarrow> string \<Rightarrow> bool" where
  "leading_a i guess \<longleftrightarrow> length guess = 6 \<and> (\<forall>k<6. i div 26 ^ (5 - k) = 0 \<longrightarrow> guess ! k = CHR ''a'')"

lemma write_guess:
  assumes "leading_a i guess" and "i < TOTAL_PASSWORDS"
  shows "write_digits i (int PASSWORD_LENGTH - 1) guess = Some (guess_of i)"
proof -
  have len: "length guess = 6" using assms(1) by (simp add: leading_a_def)
  obtain g where g: "write_digits i (int 6 - 1) guess = Some g" "length g = 6"
      "\<forall>k<6. g ! k = (if i div 26 ^ (5 - k) > 0 then letter (i div 26 ^ (5 - k) mod 26) else guess ! k)"
    using write_digits_spec [of i 6 guess] assms(2) len
    by (auto simp: TOTAL_PASSWORDS_def PASSWORD_LENGTH_def)
  have "g = guess_of i"
    using g(2,3) assms(1) by (intro nth_equalityI) (auto simp: nth_guess_of leading_a_def letter_0)
  with g(1) show ?thesis by (simp add: PASSWORD_LENGTH_def)
qed

lemma leading_a_guess: "leading_a (Suc i) (guess_of i)"
proof -
  have "i div n = 0" if "Suc i div n = 0" "n > 0" for n using that by (simp add: div_eq_0_iff)
  then show ?thesis by (simp add: leading_a_def nth_guess_of letter_0)
qed

lemma leading_a_start: "leading_a i ''aaaaaa''"
proof -
  have "''aaaaaa'' = replicate 6 (CHR ''a'')" by (simp add: numeral_eq_Suc)
  then show ?thesis by (simp add: leading_a_def)
qed

section \<open>What a thread finds\<close>

text \<open>Guess \<open>j\<close> fits an entry; it is the first one from \<open>i\<close> on to do so.\<close>

definition hits :: "(string \<Rightarrow> byte list) \<Rightarrow> nat \<Rightarrow> password_entry \<Rightarrow> bool" where
  "hits MD5 j e \<longleftrightarrow> take MD5_DIGEST_LENGTH (password_md5 e) = MD5 (guess_of j)"

definition first_hit :: "(string \<Rightarrow> byte list) \<Rightarrow> nat \<Rightarrow> nat \<Rightarrow> password_entry \<Rightarrow> bool" where
  "first_hit MD5 i j e \<longleftrightarrow> i \<le> j \<and> hits MD5 j e \<and> (\<forall>k. i \<le> k \<and> k < j \<longrightarrow> \<not> hits MD5 k e)"

definition mark :: "(string \<Rightarrow> byte list) \<Rightarrow> nat \<Rightarrow> nat \<Rightarrow> password_entry \<Rightarrow> password_entry" where
  "mark MD5 i last_guess e =
     (if \<exists>j\<in>{i..<last_guess}. hits MD5 j e then e\<lparr>cracked := True\<rparr> else e)"

lemma mark_simps [simp]: "mark MD5 i i e = e" "hits MD5 j (mark MD5 i k e) = hits MD5 j e"
  "username (mark MD5 i k e) = username e" "password_md5 (mark MD5 i k e) = password_md5 e"
  "cracked (mark MD5 i k e) = (cracked e \<or> (\<exists>j\<in>{i..<k}. hits MD5 j e))"
  by (simp_all add: mark_def hits_def)

lemma mark_mark: "i < last_guess \<Longrightarrow> mark MD5 (Suc i) last_guess (mark MD5 i (Suc i) e) = mark MD5 i last_guess e"
proof -
  assume "i < last_guess"
  then have "{i..<last_guess} = insert i {Suc i..<last_guess}" by auto
  then show ?thesis by (auto simp: mark_def hits_def)
qed

lemma mark_cracked: "cracked e \<Longrightarrow> mark MD5 i k e = e"
  by (simp add: mark_def)

lemma mark_more: "cracked (mark MD5 i (Suc i) e) \<Longrightarrow> i < last_guess \<Longrightarrow> mark MD5 i last_guess e = mark MD5 i (Suc i) e"
  using mark_mark [of i last_guess MD5 e] mark_cracked by metis

lemma first_hit_step: "first_hit MD5 i j e \<longleftrightarrow> (if hits MD5 i e then j = i else first_hit MD5 (Suc i) j e)"
proof (cases "i = j")
  case False
  have "first_hit MD5 i j e \<longleftrightarrow> \<not> hits MD5 i e \<and> first_hit MD5 (Suc i) j e" if "i < j"
  proof -
    have "(i \<le> k \<and> k < j) \<longleftrightarrow> k = i \<or> (Suc i \<le> k \<and> k < j)" for k using that by auto
    with that show ?thesis unfolding first_hit_def by auto
  qed
  with False show ?thesis by (auto simp: first_hit_def)
qed (auto simp: first_hit_def)

text \<open>The line that the round of guess \<open>i\<close> prints for an entry.\<close>

definition line_of :: "(string \<Rightarrow> byte list) \<Rightarrow> nat \<Rightarrow> password_entry \<Rightarrow> line set" where
  "line_of MD5 i e = (if \<not> cracked e \<and> hits MD5 i e then {Found (username e) (guess_of i)} else {})"

lemma mark_one: "mark MD5 i (Suc i) e = (if hits MD5 i e then e\<lparr>cracked := True\<rparr> else e)"
  by (simp add: mark_def atLeastLessThanSuc)

lemma crack_loop_spec:
  "crack_loop (MD5 (guess_of i)) (guess_of i) es = (es', lines, all_true) \<Longrightarrow>
     es' = map (mark MD5 i (Suc i)) es \<and> all_true = (\<forall>e\<in>set es. cracked e \<or> hits MD5 i e)
     \<and> set lines = (\<Union>e\<in>set es. line_of MD5 i e)"
proof (induction es arbitrary: es' lines all_true)
  case (Cons e es)
  obtain es1 lines1 true1 where rest: "crack_loop (MD5 (guess_of i)) (guess_of i) es = (es1, lines1, true1)"
    by (cases "crack_loop (MD5 (guess_of i)) (guess_of i) es") auto
  note IH = Cons.IH [OF rest]
  have same: "e\<lparr>cracked := True\<rparr> = e" if "cracked e" using that by simp
  show ?case
  proof (cases "cracked e")
    case True
    then show ?thesis using IH Cons.prems rest same by (auto simp: mark_one line_of_def)
  next
    case False
    then show ?thesis using IH Cons.prems rest
      by (cases "hits MD5 i e") (auto simp: mark_one line_of_def hits_def)
  qed
qed simp

text \<open>What the round of guess \<open>i\<close> and the rounds from \<open>i\<close> to \<open>last_guess\<close> leave.\<close>

definition found :: "(string \<Rightarrow> byte list) \<Rightarrow> nat \<Rightarrow> nat \<Rightarrow> password_entry list \<Rightarrow> line set" where
  "found MD5 i last_guess es =
     {Found (username e) (guess_of j) | e j. e \<in> set es \<and> \<not> cracked e \<and> first_hit MD5 i j e \<and> j < last_guess}"

lemma foundI: "e \<in> set es \<Longrightarrow> \<not> cracked e \<Longrightarrow> first_hit MD5 i j e \<Longrightarrow> j < last_guess
    \<Longrightarrow> Found (username e) (guess_of j) \<in> found MD5 i last_guess es"
  unfolding found_def by blast

lemma foundE:
  assumes "x \<in> found MD5 i last_guess es"
  obtains e j where "x = Found (username e) (guess_of j)" "e \<in> set es" "\<not> cracked e"
    "first_hit MD5 i j e" "j < last_guess"
  using assms unfolding found_def by blast

definition searched ::
  "(string \<Rightarrow> byte list) \<Rightarrow> nat \<Rightarrow> nat \<Rightarrow> cracker \<Rightarrow> exit_reason option \<Rightarrow> cracker \<Rightarrow> bool" where
  "searched MD5 i last_guess st result st' \<longleftrightarrow>
     passwords st' = map (mark MD5 i last_guess) (passwords st)
     \<and> result = (if i < last_guess \<and> (\<forall>e\<in>set (passwords st'). cracked e) then Some (UExit 0) else None)
     \<and> set (printed st') - range Rollback_count
       = (set (printed st) - range Rollback_count) \<union> found MD5 i last_guess (passwords st)"

lemma first_hit_marked: "first_hit MD5 i j (mark MD5 k l e) = first_hit MD5 i j e"
  by (simp add: first_hit_def)

lemma found_split:
  assumes "i < last_guess"
  shows "found MD5 i last_guess es
    = (\<Union>e\<in>set es. line_of MD5 i e) \<union> found MD5 (Suc i) last_guess (map (mark MD5 i (Suc i)) es)"
    (is "?all = ?one \<union> ?rest")
proof (intro set_eqI iffI)
  fix x assume "x \<in> ?all"
  then obtain e j where x: "x = Found (username e) (guess_of j)" "e \<in> set es" "\<not> cracked e"
      "first_hit MD5 i j e" "j < last_guess" by (rule foundE)
  show "x \<in> ?one \<union> ?rest"
  proof (cases "hits MD5 i e")
    case True
    then have "x \<in> line_of MD5 i e" using x first_hit_step [of MD5 i j e] by (simp add: line_of_def)
    then show ?thesis using x(2) by blast
  next
    case False
    then have "first_hit MD5 (Suc i) j e" using x(4) first_hit_step [of MD5 i j e] by simp
    then show ?thesis
      using foundI [of "mark MD5 i (Suc i) e" "map (mark MD5 i (Suc i)) es" MD5 "Suc i" j last_guess] x False
      by (simp add: first_hit_marked mark_one)
  qed
next
  fix x assume "x \<in> ?one \<union> ?rest"
  then show "x \<in> ?all"
  proof
    assume "x \<in> ?one"
    then obtain e where "e \<in> set es" "x \<in> line_of MD5 i e" by blast
    then show ?thesis using assms foundI [of e es MD5 i i last_guess] first_hit_step [of MD5 i i e]
      by (simp add: line_of_def split: if_splits)
  next
    assume "x \<in> ?rest"
    then obtain e' j where x: "x = Found (username e') (guess_of j)" "e' \<in> set (map (mark MD5 i (Suc i)) es)"
        "\<not> cracked e'" "first_hit MD5 (Suc i) j e'" "j < last_guess" by (rule foundE)
    then obtain e where "e' = mark MD5 i (Suc i) e" "e \<in> set es" by auto
    then show ?thesis using x foundI [of e es MD5 i j last_guess] first_hit_step [of MD5 i j e]
      by (simp add: first_hit_marked)
  qed
qed

lemma found_none: "\<forall>e\<in>set es. cracked e \<Longrightarrow> found MD5 i last_guess es = {}"
  by (auto elim: foundE)

lemma found_empty [simp]: "found MD5 i i es = {}"
  by (auto simp: first_hit_def elim: foundE)

lemma crack_passwords_spec:
  assumes "crack_passwords MD5 rollbacks (guess_of i) st = (result, st')"
  shows "passwords st' = map (mark MD5 i (Suc i)) (passwords st)"
    and "result = (if \<forall>e\<in>set (passwords st'). cracked e then Some (UExit 0) else None)"
    and "set (printed st') - range Rollback_count
      = (set (printed st) - range Rollback_count) \<union> (\<Union>e\<in>set (passwords st). line_of MD5 i e)"
proof -
  obtain es lines all_true where loop:
      "crack_loop (MD5 (guess_of i)) (guess_of i) (passwords st) = (es, lines, all_true)"
    by (cases "crack_loop (MD5 (guess_of i)) (guess_of i) (passwords st)") auto
  note spec = crack_loop_spec [of MD5 i, OF this]
  have found_lines: "(\<Union>e\<in>A. line_of MD5 i e) - range Rollback_count = (\<Union>e\<in>A. line_of MD5 i e)" for A
    by (auto simp: line_of_def split: if_splits)
  have "result = (if all_true then Some (UExit 0) else None)" "passwords st' = es"
    "set (printed st') - range Rollback_count = set (printed st) \<union> set lines - range Rollback_count"
    using assms loop by (auto simp: crack_passwords_def Let_def split: if_splits)
  then show "passwords st' = map (mark MD5 i (Suc i)) (passwords st)"
    and "result = (if \<forall>e\<in>set (passwords st'). cracked e then Some (UExit 0) else None)"
    and "set (printed st') - range Rollback_count
      = (set (printed st) - range Rollback_count) \<union> (\<Union>e\<in>set (passwords st). line_of MD5 i e)"
    using spec by (simp_all add: Un_Diff found_lines atLeastLessThanSuc)
qed

lemma search_loop_spec:
  assumes "leading_a i guess" and "i \<le> last_guess" and "last_guess \<le> TOTAL_PASSWORDS"
    and "search_loop MD5 rollbacks i last_guess guess st = (result, st')"
  shows "searched MD5 i last_guess st result st'"
  using assms
proof (induction "last_guess - i" arbitrary: i guess st)
  case 0
  then show ?case by (simp add: search_loop.simps [of _ _ i] searched_def map_idI)
next
  case (Suc n)
  then have less: "i < last_guess" by simp
  have wrote: "write_digits i (int PASSWORD_LENGTH - 1) guess = Some (guess_of i)"
    using Suc.prems less by (intro write_guess) simp_all
  obtain result1 st1 where crack: "crack_passwords MD5 rollbacks (guess_of i) st = (result1, st1)"
    by (cases "crack_passwords MD5 rollbacks (guess_of i) st") auto
  note spec = crack_passwords_spec [OF this]
  show ?case
  proof (cases "\<forall>e\<in>set (passwords st1). cracked e")
    case True
    with Suc.prems(4) less wrote crack spec(2) have end_state: "result = Some (UExit 0)" "st' = st1"
      by (simp_all add: search_loop.simps [of MD5 rollbacks i last_guess guess st])
    have "mark MD5 i (Suc i) e = mark MD5 i last_guess e" if "e \<in> set (passwords st)" for e
      using True that less mark_more [of MD5 i e last_guess] unfolding spec(1) by simp
    then have "passwords st1 = map (mark MD5 i last_guess) (passwords st)"
      unfolding spec(1) by (intro map_cong) simp_all
    then show ?thesis
      using True less end_state spec(3) found_split [OF less, of MD5 "passwords st"] found_none [OF True]
      unfolding searched_def spec(1) [symmetric] by simp
  next
    case False
    with Suc.prems(4) less wrote crack spec(2)
    have "search_loop MD5 rollbacks (Suc i) last_guess (guess_of i) st1 = (result, st')"
      by (simp add: search_loop.simps [of MD5 rollbacks i last_guess guess st])
    then have rest: "searched MD5 (Suc i) last_guess st1 result st'"
      using Suc.hyps(2) Suc.prems(3) less by (intro Suc.hyps(1) [OF _ leading_a_guess]) simp_all
    have table: "passwords st' = map (mark MD5 i last_guess) (passwords st)"
      using rest spec(1) mark_mark [OF less] by (simp add: searched_def)
    have "Suc i < last_guess \<or> passwords st' = passwords st1"
      using rest less by (cases "Suc i = last_guess") (auto simp: searched_def map_idI)
    then have result: "result = (if \<forall>e\<in>set (passwords st'). cracked e then Some (UExit 0) else None)"
      using rest False by (auto simp: searched_def)
    have lines: "set (printed st') - range Rollback_count
        = (set (printed st) - range Rollback_count) \<union> found MD5 i last_guess (passwords st)"
      using rest spec(1,3) found_split [OF less, of MD5 "passwords st"] by (simp add: searched_def Un_assoc)
    show ?thesis
      unfolding searched_def using less by (intro conjI table lines) (simp add: result)
  qed
qed

section \<open>The program\<close>

text \<open>The arguments cut the numbers into four ranges of equal length.\<close>

lemma thread_ranges: "thread_arg i + TOTAL_PASSWORDS div 4 = thread_arg (Suc i)"
  by (simp add: thread_arg_def TOTAL_PASSWORDS_def PASSWORD_LENGTH_def)

lemma thread_range_bound: "i < NUM_THREAD \<Longrightarrow> thread_arg (Suc i) \<le> TOTAL_PASSWORDS"
  by (simp add: thread_arg_def TOTAL_PASSWORDS_def PASSWORD_LENGTH_def NUM_THREAD_def)

lemma thread_range_of:
  assumes "j < TOTAL_PASSWORDS"
  shows "\<exists>i<NUM_THREAD. thread_arg i \<le> j \<and> j < thread_arg (Suc i)"
proof -
  let ?len = "26 ^ 6 div 4 :: nat"
  have arg: "thread_arg i = i * ?len" for i
    by (simp add: thread_arg_def TOTAL_PASSWORDS_def PASSWORD_LENGTH_def)
  have "j div ?len < 4"
    using assms by (simp add: TOTAL_PASSWORDS_def PASSWORD_LENGTH_def less_mult_imp_div_less)
  moreover have "j div ?len * ?len \<le> j" by (rule div_times_less_eq_dividend)
  moreover have "j < Suc (j div ?len) * ?len" using dividend_less_div_times [of ?len j] by simp
  ultimately show ?thesis unfolding arg NUM_THREAD_def by blast
qed

lemma thread_fn_spec:
  assumes "i < NUM_THREAD" and "thread_fn MD5 rollbacks (thread_arg i) st = (result, st')"
  shows "searched MD5 (thread_arg i) (thread_arg (Suc i)) st result st'"
  using assms search_loop_spec [OF leading_a_start [of "thread_arg i"] _ thread_range_bound [OF assms(1)]]
    thread_ranges [of i]
  by (simp add: thread_fn_def generate_all_possibilities_def Let_def le_iff_add [of "thread_arg i"]) metis

text \<open>
  C27: \<open>read_password_file\<close> reads back the table that a file lists, one user name and one printed
  digest on a line, as long as there are at most ten lines; the eleventh is written behind the
  array.
\<close>

theorem read_file_roundtrip:
  assumes "es \<noteq> []" and "\<forall>e\<in>set es. good_line e"
  shows "read_password_file (Some (concat (map file_line es))) []
    = (if length es \<le> 10 then Inr (map file_entry es) else Inl Undefined)"
  using read_loop_file [OF assms(2,1), of "[]"] by (simp add: read_password_file_def)

theorem read_file_roundtrip_witness:
  "read_password_file (Some (concat (map file_line (replicate 11 (''ann'', replicate 16 7))))) [] = Inl Undefined"
proof -
  have "\<forall>e\<in>set (replicate 11 (''ann'', replicate 16 (7 :: byte))). good_line e"
    by (simp add: good_line_def solid_def is_space_def MAX_USERNAME_LENGTH_def MD5_DIGEST_LENGTH_def)
  then show ?thesis
    using read_file_roundtrip [of "replicate 11 (''ann'', replicate 16 7)"] by simp
qed

text \<open>
  C26: A thread marks the entries that a guess of its own range fits and no others, prints for
  each of them that was not cracked the first guess that fits and nothing else, and ends its
  process exactly when every entry of its copy of the table is then cracked. It never writes in
  front of the array \<open>guess\<close>.
\<close>

theorem thread_cracks_its_range:
  assumes "i < NUM_THREAD"
    and "thread_fn MD5 rollbacks (thread_arg i) \<lparr>passwords = entries, printed = []\<rparr> = (result, st)"
  shows "passwords st = map (mark MD5 (thread_arg i) (thread_arg (Suc i))) entries
    \<and> result = (if \<forall>e\<in>set (passwords st). cracked e then Some (UExit 0) else None)
    \<and> set (printed st) - range Rollback_count = found MD5 (thread_arg i) (thread_arg (Suc i)) entries"
proof -
  have "thread_arg i < thread_arg (Suc i)"
    by (simp add: thread_arg_def TOTAL_PASSWORDS_def PASSWORD_LENGTH_def)
  then show ?thesis using thread_fn_spec [OF assms] by (simp add: searched_def)
qed

text \<open>A digest for examples: the code of the last letter, sixteen times.\<close>

definition toy_digest :: "string \<Rightarrow> byte list" where
  "toy_digest g = replicate 16 (of_char (g ! 5))"

theorem thread_cracks_its_range_witness:
  "\<exists>result st. thread_fn toy_digest 0 (thread_arg 3)
       \<lparr>passwords = [file_entry (''ann'', toy_digest ''aaaaaz'')], printed = []\<rparr> = (result, st)
     \<and> passwords st = map (mark toy_digest (thread_arg 3) (thread_arg 4)) [file_entry (''ann'', toy_digest ''aaaaaz'')]"
proof -
  obtain result st where run: "thread_fn toy_digest 0 (thread_arg 3)
      \<lparr>passwords = [file_entry (''ann'', toy_digest ''aaaaaz'')], printed = []\<rparr> = (result, st)" by fastforce
  have "3 < NUM_THREAD" by (simp add: NUM_THREAD_def)
  then show ?thesis using thread_cracks_its_range [OF _ run] run by auto
qed

lemma first_hit_exists: "hits MD5 j e \<Longrightarrow> i \<le> j \<Longrightarrow> \<exists>k\<le>j. first_hit MD5 i k e"
proof (induction "j - i" arbitrary: i)
  case 0
  then show ?case using first_hit_step [of MD5 i i e] by auto
next
  case (Suc n)
  show ?case
  proof (cases "hits MD5 i e")
    case True
    then show ?thesis using first_hit_step [of MD5 i i e] Suc.prems by auto
  next
    case False
    have "\<exists>k\<le>j. first_hit MD5 (Suc i) k e" using Suc by simp
    then show ?thesis using False first_hit_step [of MD5 i _ e] by auto
  qed
qed

lemma hits_file_entry: "length (MD5 g) = MD5_DIGEST_LENGTH
    \<Longrightarrow> hits MD5 j (file_entry (name, MD5 g)) \<longleftrightarrow> MD5 (guess_of j) = MD5 g"
  by (auto simp: hits_def file_entry_def)

lemma cracker_main_starts:
  assumes "es \<noteq> []" and "\<forall>e\<in>set es. good_line e" and "length es \<le> 10"
  shows "cracker_main 2 (Some (concat (map file_line es)))
    = Inr (map (\<lambda>i. (thread_arg i, \<lparr>passwords = map file_entry es, printed = []\<rparr>)) [0..<NUM_THREAD])"
  using read_loop_file [OF assms(2,1), of "[]"] assms(3)
  by (simp add: cracker_main_def read_password_file_def bind_result_def)

text \<open>
  C25: If the file lists the digest of six small letters, \<open>main\<close> starts a thread that marks the
  entry and prints its user name with six letters that have this digest.
\<close>

theorem listed_password_is_cracked:
  assumes "\<forall>e\<in>set es. good_line e" and "length es \<le> 10"
    and "(name, MD5 g) \<in> set es" and "length g = PASSWORD_LENGTH" and "small_letters g"
  shows "\<exists>starts. cracker_main 2 (Some (concat (map file_line es))) = Inr starts \<and>
    (\<exists>i<length starts. \<exists>g'.
       (let st = snd (thread_fn MD5 rollbacks (fst (starts ! i)) (snd (starts ! i))) in
        (file_entry (name, MD5 g))\<lparr>cracked := True\<rparr> \<in> set (passwords st)
        \<and> MD5 g' = MD5 g \<and> Found name g' \<in> set (printed st)))"
proof -
  let ?e = "file_entry (name, MD5 g)" and ?st = "\<lparr>passwords = map file_entry es, printed = []\<rparr>"
  have len: "length (MD5 g) = MD5_DIGEST_LENGTH" using assms(1,3) by (auto simp: good_line_def)
  have "?e \<in> set (map file_entry es)" using assms(3) by simp
  obtain j where j: "j < TOTAL_PASSWORDS" "guess_of j = g" using guess_onto [OF assms(4,5)] by blast
  obtain i where i: "i < NUM_THREAD" "thread_arg i \<le> j" "j < thread_arg (Suc i)"
    using thread_range_of [OF j(1)] by blast
  obtain result st where run: "thread_fn MD5 rollbacks (thread_arg i) ?st = (result, st)"
    by (cases "thread_fn MD5 rollbacks (thread_arg i) ?st") auto
  note searched = thread_fn_spec [OF i(1) run, unfolded searched_def]
  have hit: "hits MD5 j ?e" using j(2) by (simp add: hits_file_entry [of MD5 g, OF len])
  then obtain k where k: "k \<le> j" "first_hit MD5 (thread_arg i) k ?e" using first_hit_exists [OF _ i(2)] by blast
  have "MD5 (guess_of k) = MD5 g" using k(2) by (simp add: first_hit_def hits_file_entry [of MD5 g, OF len])
  moreover have "Found name (guess_of k) \<in> set (printed st)"
    using searched k i(3) foundI [of ?e "map file_entry es" MD5 "thread_arg i" k "thread_arg (Suc i)"]
      \<open>?e \<in> set (map file_entry es)\<close> by (auto simp: file_entry_def)
  moreover have "mark MD5 (thread_arg i) (thread_arg (Suc i)) ?e = ?e\<lparr>cracked := True\<rparr>"
    using hit i by (auto simp: mark_def)
  then have "?e\<lparr>cracked := True\<rparr> \<in> set (passwords st)"
    using searched \<open>?e \<in> set (map file_entry es)\<close> by (metis cracker.select_convs(1) imageI set_map)
  moreover have "es \<noteq> []" using assms(3) by auto
  ultimately show ?thesis
    using cracker_main_starts [OF _ assms(1,2)] i(1) run
    by (intro exI [of _ "map (\<lambda>i. (thread_arg i, ?st)) [0..<NUM_THREAD]"] exI [of _ i] exI [of _ "guess_of k"] conjI)
      (simp_all add: Let_def)
qed

theorem listed_password_is_cracked_witness:
  "\<exists>starts. cracker_main 2 (Some (file_line (''ann'', toy_digest ''zzzzzz''))) = Inr starts \<and>
    (\<exists>i<length starts. \<exists>g'. toy_digest g' = toy_digest ''zzzzzz'' \<and>
       Found ''ann'' g' \<in> set (printed (snd (thread_fn toy_digest 5 (fst (starts ! i)) (snd (starts ! i))))))"
proof -
  have "good_line (''ann'', toy_digest ''zzzzzz'')"
    by (simp add: good_line_def solid_def is_space_def MAX_USERNAME_LENGTH_def MD5_DIGEST_LENGTH_def toy_digest_def)
  then show ?thesis
    using listed_password_is_cracked [of "[(''ann'', toy_digest ''zzzzzz'')]" "''ann''" toy_digest "''zzzzzz''" 5]
    by (simp add: PASSWORD_LENGTH_def small_letters_def Let_def) metis
qed

end
