(* ===== verification/Spec2Isabelle.thy ===== *)
theory Spec2Isabelle
  imports Startup Private_Alloc Share_Alloc Interposition Windows_Env Race_Programs Doomed_Sections
    Noheap Password_Cracker
begin

text \<open>
  A model of G-Thread, a runtime that runs the threads of a pthread program as processes whose
  sections between thread operations are atomic. Sources are named relative to \<open>src/\<close> of the
  repository.

  The program and its parts. \<open>__libc_start_main\<close> (\<open>src/libgthread.hh\<close>) sets up the heap
  (\<open>GlobalHeapInit\<close>, \<open>src/bump_allocator.cc\<close>): one memory object, mapped shared as the
  global heap and private as the local heap. Threads are created by \<open>fork\<close>; each process works
  on its private mapping, whose pages are inaccessible at the start of a section. The fault handler
  (\<open>src/gstm.cc\<close>) takes the first fault on a page for a read and the second for a write and
  records the page with its version. At the end of a section (\<open>src/gthread.cc\<close>) the process
  waits for its predecessor, locks, checks that every page it read is still at the version it read,
  and either copies the pages it wrote to the global heap or restores the stack and the registers
  of the section's beginning (\<open>src/stack_context.cc\<close>) and runs it again. The malloc family
  (\<open>src/wrapper.hh\<close>) sits on the bump allocator; the version maps live in pages of two
  allocators of their own (\<open>src/private_alloc.hh\<close>, \<open>src/share_alloc.hh\<close>);
  \<open>src/log.h\<close> and \<open>src/color_log.hh\<close> print.

  The theories.
  \<^item> \<open>Prelude\<close>: types (64-bit words for addresses and sizes), memory, results of code that may
    end the process, word lemmas.
  \<^item> \<open>Util\<close>: \<open>src/util.hh\<close>. Rounding is related to natural numbers once, for everything
    else.
  \<^item> \<open>Arena\<close>, \<open>Page_Arena\<close>: the interfaces of allocators that bump a pointer, within a
    block and page by page. \<open>Bump_Allocator\<close>, \<open>Wrapper\<close>, \<open>Private_Alloc\<close> and
    \<open>Share_Alloc\<close> model the allocators and interpret them; their properties are disjointness,
    alignment, exactness of failure, and where the code hands out memory twice or runs over.
  \<^item> \<open>Stack_Context\<close>: \<open>src/stack_context.cc\<close>. Restoring undoes everything since saving.
  \<^item> \<open>Version_Map\<close>: the interface of the unordered maps and its model; no property depends on
    the order of iteration. \<open>Pages\<close>: pages of the heap. \<open>Gstm\<close>: \<open>src/gstm.cc\<close>, one
    definition per function; what the handlers, the check, the commit and the wait do, and every
    outcome of the initialisation, which composes the constructors of the maps' allocators with it.
  \<^item> \<open>GThread\<close>: \<open>src/gthread.cc\<close>, as one process executes it.
  \<^item> \<open>Processes\<close>: all processes interleaved. \<open>tstep\<close> has one rule per access to shared state,
    system call or heap access of the code of \<open>AtomicBegin\<close>, \<open>AtomicEnd\<close>,
    \<open>AtomicCommit\<close> and \<open>AtomicAbort\<close>, built from the operations of \<open>GThread\<close> and
    \<open>Gstm\<close>; \<open>sys_step\<close> adds waiting, forking and joining, with process ids, parents and
    collected processes as the kernel keeps them.
  \<^item> \<open>Atomic_Sections\<close>: the abstract specification, a machine whose threads run each section at
    once on one heap; the interfaces \<open>invariant\<close> and \<open>simulation\<close>.
  \<^item> \<open>Invariants\<close>: mutual exclusion; the shape of a process at each point; the order of local,
    pending and global versions. \<open>Serializability\<close>: the simulation, and that the system refines
    the atomic machine, excludes commits from each other, and rolls a section back only for
    somebody else's commit.
  \<^item> \<open>Runs\<close>: that the steps compute the sequential functions, and that a section left alone
    commits without a rollback. \<open>Scenarios\<close>: concrete runs, among them a conflict and the deadlock of the ordered
    mode. \<open>Progress\<close>: who can move in a reachable state, what a process leaves behind that dies
    with the mutex, and how many rollbacks there can be (each process at most as many as the
    others have committed changes, counted along the run by \<open>tally\<close>). \<open>Commit_Order\<close>: a
    process commits a section that touched the heap only after the process it has to wait for.
  \<^item> \<open>Libgthread\<close>: the pthread interface. \<open>Interposition\<close>: \<open>src/gnuwrapper.cc\<close> and
    \<open>src/interpose.hh\<close>, which names reach the library. \<open>Windows_Env\<close>: the part of
    \<open>src/wrapper.hh\<close> for Windows. \<open>Log\<close>: \<open>src/log.h\<close>, \<open>src/color_log.hh\<close>.
  \<^item> \<open>Fork_Join\<close>: programs that create threads and join them. A \<open>job\<close> is a section with the jobs it
    creates; the interface \<open>fork_join\<close> asks what each section does to the heap, and gives the heap
    of every completed run, and already that of every state in which the main thread is behind its
    joins and has yet to run its last section: the effects of all sections, one after the other.
    \<open>Completion\<close>: with sections of a known number of heap accesses and \<open>NO_ORDER\<close>, such a program
    can run to its end in a known number of steps. \<open>Cells\<close>: integers in the bytes of the heap, and
    loops.
  \<^item> \<open>Ordered_Sections\<close>: the atomic machine of the ordered mode, which knows the predecessor of each
    thread and lets a section that touches the heap run only after it; the system refines it.
    \<open>Program_Order\<close>: hence a completed fork-join program whose sections all touch the heap leaves
    what its sections give in the order of the program text, effects that do not commute included
    (interface \<open>touching_fork_join\<close>). \<open>Ordered_Completion\<close>: such a program can run to its end in
    the ordered mode too. \<open>Doomed_Sections\<close>: a section may see two commits before its check, so
    the guarantee is about what commits, not about what a section that will be rolled back reads.
  \<^item> \<open>Blob_Programs\<close>: \<open>example/test.cc\<close>, \<open>pthread/nolock.cc\<close>, \<open>pthread/lock.cc\<close>,
    \<open>pthread/serial.cc\<close>; the mutex of \<open>lock.cc\<close> is a variable of each process.
    \<open>Race_Programs\<close>: \<open>pthread/race_condition.cc\<close>, \<open>pthread/order_violation.cc\<close>. Both interpret
    \<open>fork_join\<close> and \<open>counted_sections\<close>; the properties run from the start of \<open>main\<close> under the
    library to the contents of the shared heap. Where \<open>main\<close> checks the heap itself, they are about
    the state before that check, so that they say that it succeeds instead of resting on it. \<open>Noheap\<close>: \<open>example/noheap.cc\<close>
    and \<open>pthread/noheap.cc\<close>.
  \<^item> \<open>Startup\<close>: the calls from \<open>__libc_start_main\<close> to the first \<open>AtomicBegin\<close> composed; a successful
    start gives the state the properties of the system begin with, on a heap that holds what the
    last run left in \<open>shm_object\<close>.
  \<^item> \<open>Password_Cracker\<close>: \<open>example/password_cracker.cc\<close>, which keeps its table in global
    variables, so that each thread is a function of its own copy.

  Correspondence. Structures and file-scope variables are records with the source's names; a
  process is a \<open>gproc\<close> (its maps, page protections and private mapping) and what all share is
  \<open>shared\<close> (the object behind the heap, the page versions, the mutex, the counter). A function
  is a definition of the source's name, prefixed \<open>hoard_\<close> as the macros do for the malloc family.
  What a system call returns is an argument. Code that may end the process returns a sum with the
  exit reason left; code that may wait returns an option. A program is a tree of heap accesses and
  thread operations, finite or not (\<open>prog\<close>): what a thread has still to run is what its stack and
  registers hold, so saving and restoring the context saves and restores the program. Accesses
  outside the heap are part of the program itself, except that a stray access ends the process.

  Bounds. Version numbers are 64-bit words. Runs of the system are counted and end below
  \<open>2 ^ 64\<close> steps; a version grows by at most one per step, so it does not wrap within a run. The
  heap must not wrap around the address space and is page-aligned (\<open>heap_aligned\<close>), which
  \<open>mmap\<close> guarantees. What a private mapping shows of a page the process has not written is left
  open by POSIX and is a parameter (\<open>view_policy\<close>); serializability is proved for the policy under
  which such a page shows the object's current bytes. The copying of a page is not atomic in the
  system: any part of it may be visible first.

  A process can leave a section only by reaching its end, by \<open>Quit\<close> (\<open>abort\<close>, a failed check) or
  by a crash; the atomic machine keeps the three apart (\<open>Exited\<close>, \<open>Crashed\<close>). Where the code
  overwrites memory it does not own, the result is \<open>Undefined\<close>.

  Not modelled: the linker and its search order; the macOS variant of \<open>src/interpose.hh\<close>, a linker
  section; memory that is neither heap nor stack (global variables), which the library does not protect; the reuse
  of process ids; the allocations the library's own code makes on the heap; signals other than the
  page faults, except as a process dying at any point. Of the programs: what they print, except
  the lines of the password cracker; the overflow of the counters, which would take \<open>2 ^ 31\<close> threads; \<open>MD5\<close>, a parameter.
\<close>

end
